(* ===== verification/Prelude.thy ===== *)
theory Prelude
  imports Main "HOL-Library.Word"
begin

text \<open>
  Shared vocabulary of the development: the machine integer types of the C++ code as words,
  a byte sequence as a list of 8-bit words, the sequential store that models \<open>std::copy\<close>,
  \<open>std::fill\<close> and a run of byte assignments, and the lemmas that read a byte sequence after
  a store. The simp rules on \<open>store_bytes\<close> carry every layout proof of the development.
\<close>

unbundle bit_operations_syntax

section \<open>Machine integers\<close>

type_synonym byte = "8 word"
type_synonym u8 = "8 word"
type_synonym u16 = "16 word"
type_synonym u32 = "32 word"
type_synonym u64 = "64 word"
type_synonym size_t = "64 word"

named_theorems mem_simps \<open>reading a byte sequence after a store\<close>
named_theorems size_simps \<open>sizes and offsets read as natural numbers\<close>

text \<open>The value \<open>std::numeric_limits<std::uint64_t>::max()\<close>.\<close>

abbreviation (input) u64_max :: u64 where
  "u64_max \<equiv> 18446744073709551615"

text \<open>\<open>std::span::size()\<close>: the number of bytes as a \<open>std::size_t\<close>.\<close>

definition span_size :: "byte list \<Rightarrow> size_t" where
  "span_size xs = word_of_nat (length xs)"

text \<open>Every span the platform can hand out has a length that its size type can hold.\<close>

definition addressable :: "byte list \<Rightarrow> bool" where
  "addressable xs \<longleftrightarrow> length xs < 2 ^ 64"

lemma unat_span_size [size_simps]: "addressable xs \<Longrightarrow> unat (span_size xs) = length xs"
  by (simp add: span_size_def addressable_def unat_of_nat)

lemma addressable_le: "length xs \<le> length ys \<Longrightarrow> addressable ys \<Longrightarrow> addressable xs"
  by (simp add: addressable_def)

lemma addressable_smallI: "length xs \<le> 4294967296 \<Longrightarrow> addressable xs"
  by (simp add: addressable_def)

section \<open>Stores into a byte sequence\<close>

text \<open>
  \<open>store_bytes m off bs\<close> assigns the bytes of \<open>bs\<close> to \<open>m\<close> one after the other from
  offset \<open>off\<close> on, as \<open>std::ranges::copy(bs, m + off)\<close> does.
\<close>

fun store_bytes :: "byte list \<Rightarrow> nat \<Rightarrow> byte list \<Rightarrow> byte list" where
  "store_bytes m off [] = m"
| "store_bytes m off (b # bs) = store_bytes (m[off := b]) (Suc off) bs"

text \<open>\<open>std::fill(m + off, m + off + n, v)\<close>.\<close>

definition fill_bytes :: "byte list \<Rightarrow> nat \<Rightarrow> nat \<Rightarrow> byte \<Rightarrow> byte list" where
  "fill_bytes m off n v = store_bytes m off (replicate n v)"

text \<open>\<open>std::span::subspan(off, n)\<close>, and \<open>first(n)\<close> as the case of offset zero.\<close>

definition subspan :: "byte list \<Rightarrow> nat \<Rightarrow> nat \<Rightarrow> byte list" where
  "subspan xs off n = take n (drop off xs)"

lemma length_store_bytes [simp]: "length (store_bytes m off bs) = length m"
  by (induction bs arbitrary: m off) auto

lemma nth_store_bytes [mem_simps]:
  "i < length m \<Longrightarrow>
     store_bytes m off bs ! i = (if off \<le> i \<and> i < off + length bs then bs ! (i - off) else m ! i)"
proof (induction bs arbitrary: m off)
  case Nil
  then show ?case by auto
next
  case (Cons b bs)
  then show ?case
    by (auto simp: nth_list_update nth_Cons' not_le less_Suc_eq_le)
qed

lemma nth_store_outside:
  "j < length m \<Longrightarrow> j < off \<or> off + length bs \<le> j \<Longrightarrow> store_bytes m off bs ! j = m ! j"
  by (auto simp: nth_store_bytes)

lemma length_fill_bytes [simp]: "length (fill_bytes m off n v) = length m"
  by (simp add: fill_bytes_def)

lemma nth_fill_bytes [mem_simps]:
  "i < length m \<Longrightarrow> fill_bytes m off n v ! i = (if off \<le> i \<and> i < off + n then v else m ! i)"
  by (auto simp: fill_bytes_def mem_simps)

lemma nth_list_update_if [mem_simps]:
  "i < length m \<Longrightarrow> m[j := v] ! i = (if i = j then v else m ! i)"
  by (simp add: nth_list_update)

lemma length_subspan [simp]: "length (subspan xs off n) = min n (length xs - off)"
  by (simp add: subspan_def)

lemma nth_subspan [mem_simps]:
  "i < n \<Longrightarrow> off + i < length xs \<Longrightarrow> subspan xs off n ! i = xs ! (off + i)"
  by (simp add: subspan_def)

lemma subspan_0 [simp]: "subspan xs off 0 = []"
  by (simp add: subspan_def)

lemma subspan_all: "subspan xs 0 (length xs) = xs"
  by (simp add: subspan_def)

lemma subspan_eqI:
  assumes "off + n \<le> length xs" and "off' + n \<le> length ys"
    and "\<And>i. i < n \<Longrightarrow> xs ! (off + i) = ys ! (off' + i)"
  shows "subspan xs off n = subspan ys off' n"
  using assms by (intro nth_equalityI) (auto simp: mem_simps)

lemma subspan_append: "subspan xs p a @ subspan xs (p + a) b = subspan xs p (a + b)"
  by (simp add: subspan_def take_add add.commute)

lemma subspan_join:
  "q = p + a \<Longrightarrow> subspan xs p a @ subspan xs q b = subspan xs p (a + b)"
  "q = p + a \<Longrightarrow> subspan xs p a @ subspan xs q b @ ys = subspan xs p (a + b) @ ys"
  by (simp_all add: subspan_append flip: append_assoc)

lemma subspan_drop: "length xs \<le> p + n \<Longrightarrow> subspan xs p n = drop p xs"
  by (simp add: subspan_def)

text \<open>A store is read back where it was written and nowhere else.\<close>

lemma subspan_store_same [mem_simps]:
  "off + length bs \<le> length m \<Longrightarrow> subspan (store_bytes m off bs) off (length bs) = bs"
  by (rule nth_equalityI) (auto simp: mem_simps)

lemma subspan_store_disjoint:
  assumes "off' + n \<le> off \<or> off + length bs \<le> off'"
  shows "subspan (store_bytes m off bs) off' n = subspan m off' n"
  using assms by (intro nth_equalityI) (auto simp: mem_simps)

lemma subspan_list_update_disjoint:
  "j < off \<or> off + n \<le> j \<Longrightarrow> subspan (m[j := v]) off n = subspan m off n"
  by (intro nth_equalityI) (auto simp: mem_simps)

lemma take_store_0: "length bs \<le> length m \<Longrightarrow> take (length bs) (store_bytes m 0 bs) = bs"
  using subspan_store_same [of 0 bs m] by (simp add: subspan_def)

lemma drop_store_0: "length bs \<le> n \<Longrightarrow> drop n (store_bytes m 0 bs) = drop n m"
  by (rule nth_equalityI) (simp_all add: mem_simps)

section \<open>Words\<close>

lemma ucast_of_nat:
  "LENGTH('b) \<le> LENGTH('a) \<Longrightarrow>
     ucast (word_of_nat n :: 'a::len word) = (word_of_nat n :: 'b::len word)"
  by (rule bit_word_eqI) (simp add: bit_simps)

lemma ucast_ucast_u16: "ucast (ucast (w :: u16) :: size_t) = w"
  by (rule bit_word_eqI) (simp add: bit_simps)

lemma word_of_nat_unat: "unat w = n \<Longrightarrow> w = word_of_nat n"
  by auto

lemma unat_plus_1 [size_simps]:
  fixes w :: u64
  shows "w \<noteq> u64_max \<Longrightarrow> unat (w + 1) = unat w + 1"
proof -
  assume "w \<noteq> u64_max"
  then have "unat w \<noteq> unat u64_max"
    by (metis word_eq_iff_unsigned)
  moreover have "unat w < 2 ^ 64"
    using unsigned_less [of w] by simp
  ultimately show ?thesis
    by (simp add: unat_word_ariths)
qed

end
