(* ===== verification/Os_Calls.thy ===== *)
theory Os_Calls
  imports Prelude "HOL-Library.State_Monad" "HOL-Library.Multiset"
begin

text \<open>
  The operating system as the program sees it. The code of the kernel and of the C library is not
  part of the program, so nothing is assumed of what a call answers: an \<open>os\<close> state holds an arbitrary
  reply for every call still to come and the trace of the calls made with their replies. A call
  appends to the trace; every definition of the program that makes calls is a computation in the
  state monad over \<open>os\<close>, so its theorems hold for every behaviour of the system.
\<close>

section \<open>Calls and replies\<close>

text \<open>\<open>sockaddr_in\<close>, with port and address in network byte order as the code stores them.\<close>

record sockaddr_in =
  sin_family :: u16
  sin_port :: u16
  sin_addr :: u32

datatype syscall =
    Socket_call
  | Bind_call int sockaddr_in
  | Getsockname_call int
  | Close_call int
  | Sendto_call int "byte list" sockaddr_in
  | Poll_call int int
  | Recvmsg_call int nat
  | Inet_pton_call string
  | Shm_create_call string
  | Shm_open_call string
  | Ftruncate_call int size_t
  | Fstat_call int
  | Mmap_call int size_t
  | Munmap_call u64 size_t
  | Shm_unlink_call string
  | Getrandom_call nat
  | Sleep_call nat

text \<open>
  A reply: the returned integer, \<open>errno\<close>, and what the call stores through its pointers as far as
  the code reads it. \<open>answer\<close> is the pointer that mmap returns, the revents of poll, the msg_flags
  of recvmsg, st_size of fstat, the port of getsockname, the address of inet_pton and the random
  number of getrandom; \<open>contents\<close> is the data of a datagram or of a new mapping; \<open>peer\<close> is the
  sender that recvmsg names.
\<close>

record reply =
  ret :: int
  errno :: int
  answer :: u64
  contents :: "byte list"
  peer :: sockaddr_in

record os =
  replies :: "nat \<Rightarrow> reply"
  trace :: "(syscall \<times> reply) list"

definition call :: "syscall \<Rightarrow> (os, reply) state" where
  "call c = State (\<lambda>w. let r = replies w (length (trace w))
     in (r, w\<lparr>trace := trace w @ [(c, r)]\<rparr>))"

text \<open>The constants of the Linux headers that the code uses.\<close>

definition EPERM :: int where "EPERM = 1"
definition ENOENT :: int where "ENOENT = 2"
definition EINTR :: int where "EINTR = 4"
definition EIO :: int where "EIO = 5"
definition EINVAL :: int where "EINVAL = 22"
definition AF_INET :: u16 where "AF_INET = 2"
definition POLLIN :: u64 where "POLLIN = 1"
definition MSG_TRUNC :: u64 where "MSG_TRUNC = 32"
definition MAP_FAILED :: u64 where "MAP_FAILED = u64_max"

lemmas os_constants = EPERM_def ENOENT_def EINTR_def EIO_def EINVAL_def AF_INET_def
  POLLIN_def MSG_TRUNC_def MAP_FAILED_def

text \<open>\<open>std::string::c_str()\<close> as a C library reads it: up to the first NUL.\<close>

definition c_str :: "string \<Rightarrow> string" where
  "c_str s = takeWhile (\<lambda>c. c \<noteq> CHR 0x00) s"

text \<open>\<open>htons\<close> and \<open>ntohs\<close> on a little-endian host.\<close>

definition htons :: "u16 \<Rightarrow> u16" where
  "htons w = (push_bit 8 w OR drop_bit 8 w)"

definition ntohs :: "u16 \<Rightarrow> u16" where
  "ntohs w = (push_bit 8 w OR drop_bit 8 w)"

lemma ntohs_htons [simp]: "ntohs (htons w) = w"
  by (rule bit_word_eqI) (auto simp: ntohs_def htons_def bit_simps)

lemma run_call [simp]: "run_state (call c) w =
    (replies w (length (trace w)), w\<lparr>trace := trace w @ [(c, replies w (length (trace w)))]\<rparr>)"
  by (simp add: call_def Let_def)

lemma run_pair: "(\<And>a b w'. run_state f w = ((a, b), w') \<Longrightarrow> thesis) \<Longrightarrow> thesis"
  by (cases "run_state f w"; cases "fst (run_state f w)") auto

section \<open>Resources\<close>

text \<open>
  What a process holds after a trace: descriptors, mappings and names of shared memory. A
  descriptor is gone after any \<open>close\<close>, a mapping after a successful \<open>munmap\<close>. A name is gone after
  a successful \<open>shm_unlink\<close> and after one that finds no such name (ENOENT); any other error is a
  refusal, and the name stays.
\<close>

datatype resource = Descriptor int | Mapping u64 | Shm_name string

definition refused_unlink :: "reply \<Rightarrow> bool" where
  "refused_unlink r \<longleftrightarrow> ret r = -1 \<and> errno r \<noteq> ENOENT"

fun acquired_by :: "syscall \<times> reply \<Rightarrow> resource multiset" where
  "acquired_by (Socket_call, r) = (if ret r < 0 then {#} else {#Descriptor (ret r)#})"
| "acquired_by (Shm_create_call name, r) =
     (if ret r = -1 then {#} else {#Descriptor (ret r), Shm_name name#})"
| "acquired_by (Shm_open_call name, r) = (if ret r = -1 then {#} else {#Descriptor (ret r)#})"
| "acquired_by (Mmap_call fd sz, r) = (if answer r = MAP_FAILED then {#} else {#Mapping (answer r)#})"
| "acquired_by _ = {#}"

fun released_by :: "syscall \<times> reply \<Rightarrow> resource multiset" where
  "released_by (Close_call fd, r) = {#Descriptor fd#}"
| "released_by (Munmap_call addr sz, r) = (if ret r = -1 then {#} else {#Mapping addr#})"
| "released_by (Shm_unlink_call name, r) = (if refused_unlink r then {#} else {#Shm_name name#})"
| "released_by _ = {#}"

definition held :: "os \<Rightarrow> resource multiset" where
  "held w = foldl (\<lambda>h c. h + acquired_by c - released_by c) {#} (trace w)"

lemma held_calls [simp]:
  "held (w\<lparr>trace := trace w @ cs\<rparr>) = foldl (\<lambda>h c. h + acquired_by c - released_by c) (held w) cs"
  by (simp add: held_def)

text \<open>The calls a computation makes extend the trace; the replies are fixed in advance.\<close>

definition extends :: "os \<Rightarrow> os \<Rightarrow> bool" where
  "extends w w' \<longleftrightarrow> replies w' = replies w \<and> (\<exists>cs. trace w' = trace w @ cs)"

lemma extends_refl [simp, intro]: "extends w w"
  by (simp add: extends_def)

lemma extends_call [simp, intro]: "extends w (w\<lparr>trace := trace w @ cs\<rparr>)"
  by (simp add: extends_def)

lemma extends_trans: "extends w w' \<Longrightarrow> extends w' w'' \<Longrightarrow> extends w w''"
  by (auto simp: extends_def)

text \<open>
  The names that the system refused to unlink between two moments of a process: they stay in the
  system until somebody asks again.
\<close>

fun kept_by :: "syscall \<times> reply \<Rightarrow> resource multiset" where
  "kept_by (Shm_unlink_call name, r) = (if refused_unlink r then {#Shm_name name#} else {#})"
| "kept_by _ = {#}"

definition left_behind :: "os \<Rightarrow> os \<Rightarrow> resource multiset" where
  "left_behind w w' = sum_list (map kept_by (drop (length (trace w)) (trace w')))"

lemma left_behind_calls [simp]:
  "left_behind w w = {#}" "left_behind w (w\<lparr>trace := trace w @ cs\<rparr>) = sum_list (map kept_by cs)"
  by (simp_all add: left_behind_def)

lemma left_behind_trans:
  "extends w w' \<Longrightarrow> extends w' w'' \<Longrightarrow> left_behind w w'' = left_behind w w' + left_behind w' w''"
  by (auto simp: extends_def left_behind_def)

text \<open>Between two moments no resource was taken, given back or left behind.\<close>

definition keeps :: "os \<Rightarrow> os \<Rightarrow> bool" where
  "keeps w w' \<longleftrightarrow> held w' = held w \<and> left_behind w w' = {#} \<and> extends w w'"

lemma keeps_refl [simp]: "keeps w w"
  by (simp add: keeps_def)

lemma keeps_trans:
  assumes "keeps w w'" and "keeps w' w''"
  shows "keeps w w''"
proof -
  have e: "extends w w'" "extends w' w''" using assms by (simp_all add: keeps_def)
  show ?thesis using assms left_behind_trans [OF e] extends_trans [OF e] by (simp add: keeps_def)
qed

lemma keeps_call: "acquired_by c = {#} \<Longrightarrow> released_by c = {#} \<Longrightarrow> kept_by c = {#} \<Longrightarrow>
    keeps w (w\<lparr>trace := trace w @ [c]\<rparr>)"
  by (simp add: keeps_def)

text \<open>The datagrams handed to \<open>sendto\<close>, in order.\<close>

definition sent_datagrams :: "os \<Rightarrow> (byte list \<times> sockaddr_in) list" where
  "sent_datagrams w = concat (map (\<lambda>(c, r). case c of Sendto_call fd d a \<Rightarrow> [(d, a)] | _ \<Rightarrow> []) (trace w))"

text \<open>
  What became of each \<open>sendto\<close>, in order: a send has succeeded when the system reports the size of the
  whole datagram, and failed when it reports an error or another size.
\<close>

fun send_outcome :: "syscall \<times> reply \<Rightarrow> bool list" where
  "send_outcome (Sendto_call fd d a, r) = [0 \<le> ret r \<and> (word_of_int (ret r) :: size_t) = span_size d]"
| "send_outcome _ = []"

definition send_outcomes :: "os \<Rightarrow> bool list" where
  "send_outcomes w = concat (map send_outcome (trace w))"

lemma length_send_outcomes: "length (send_outcomes w) = length (sent_datagrams w)"
proof -
  have "length (send_outcome c) = length (case c of (Sendto_call fd d a, r) \<Rightarrow> [(d, a)] | _ \<Rightarrow> [])" for c
    by (cases c rule: send_outcome.cases) simp_all
  then show ?thesis
    by (simp add: send_outcomes_def sent_datagrams_def length_concat comp_def case_prod_unfold)
qed

end
