(* ===== verification/Resources.thy ===== *)
theory Resources
  imports Os_Calls
begin

text \<open>
  What computations over the system do with the resources of the process: those that take and give
  nothing, those that turn some resources into others, and the interface of an object that owns
  resources and has a destructor, as segments, sockets and engines do.
\<close>

section \<open>Calls that take and give no resource\<close>

definition quiet :: "(os, 'a) state \<Rightarrow> bool" where
  "quiet f \<longleftrightarrow> (\<forall>w. keeps w (snd (run_state f w)))"

named_theorems quiet_intros \<open>computations that keep the resources of the process\<close>

lemma quietD: "quiet f \<Longrightarrow> run_state f w = (r, w') \<Longrightarrow> keeps w w'"
  by (metis quiet_def snd_conv)

lemma quiet_return [quiet_intros]: "quiet (State_Monad.return x)"
  by (simp add: quiet_def)

lemma quiet_bind [quiet_intros]:
  assumes "quiet f" and "\<And>x. quiet (g x)"
  shows "quiet (State_Monad.bind f g)"
  unfolding quiet_def
proof
  fix w
  obtain x w1 where f: "run_state f w = (x, w1)" by fastforce
  obtain y w2 where g: "run_state (g x) w1 = (y, w2)" by fastforce
  show "keeps w (snd (run_state (State_Monad.bind f g) w))"
    using keeps_trans [OF quietD [OF assms(1) f] quietD [OF assms(2) g]] by (simp add: f g)
qed

lemma quiet_if [quiet_intros]: "quiet f \<Longrightarrow> quiet g \<Longrightarrow> quiet (if b then f else g)"
  by simp

lemma quiet_call:
  "(\<And>r. acquired_by (c, r) = {#}) \<Longrightarrow> (\<And>r. released_by (c, r) = {#}) \<Longrightarrow> (\<And>r. kept_by (c, r) = {#}) \<Longrightarrow>
    quiet (call c)"
  by (simp add: quiet_def keeps_call)

lemma quiet_calls [quiet_intros]:
  "quiet (call (Sendto_call fd d a))" "quiet (call (Poll_call fd t))" "quiet (call (Recvmsg_call fd n))"
  "quiet (call (Inet_pton_call s))" "quiet (call (Sleep_call n))"
  by (simp_all add: quiet_call)

section \<open>What a computation does with the resources\<close>

text \<open>
  Two facts about Linux that the destructors rely on: mmap without MAP_FIXED never maps at the null
  address, and munmap of a whole mapping succeeds.
\<close>

definition honest_mapping :: "syscall \<times> reply \<Rightarrow> bool" where
  "honest_mapping = (\<lambda>(c, r). case c of
      Mmap_call _ _ \<Rightarrow> answer r \<noteq> 0 | Munmap_call _ _ \<Rightarrow> ret r \<noteq> -1 | _ \<Rightarrow> True)"

abbreviation all_calls :: "(syscall \<times> reply \<Rightarrow> bool) \<Rightarrow> os \<Rightarrow> bool" where
  "all_calls fair w \<equiv> list_all fair (trace w)"

definition honest_mappings :: "os \<Rightarrow> bool" where
  "honest_mappings w \<longleftrightarrow> all_calls honest_mapping w"

lemma fair_before: "extends w w' \<Longrightarrow> all_calls fair w' \<Longrightarrow> all_calls fair w"
  by (auto simp: extends_def)

lemma honest_before: "extends w w' \<Longrightarrow> honest_mappings w' \<Longrightarrow> honest_mappings w"
  unfolding honest_mappings_def by (rule fair_before)

definition grows :: "(os, 'a) state \<Rightarrow> bool" where
  "grows f \<longleftrightarrow> (\<forall>w. extends w (snd (run_state f w)))"

text \<open>
  \<open>moves_under fair N f A B P\<close>: whatever else the process holds, \<open>f\<close> turns the resources \<open>A\<close> into
  \<open>B r\<close> for its result \<open>r\<close>, of which \<open>P r\<close> holds, if all calls were answered fairly; beside \<open>B r\<close> there
  stay exactly the names that the system refused to unlink meanwhile, and these are among \<open>N\<close>.
\<close>

definition moves_under :: "(syscall \<times> reply \<Rightarrow> bool) \<Rightarrow> resource set \<Rightarrow> (os, 'a) state
    \<Rightarrow> resource multiset \<Rightarrow> ('a \<Rightarrow> resource multiset) \<Rightarrow> ('a \<Rightarrow> bool) \<Rightarrow> bool" where
  "moves_under fair N f A B P \<longleftrightarrow> grows f \<and> (\<forall>w r w' H. run_state f w = (r, w') \<longrightarrow> all_calls fair w' \<longrightarrow>
     P r \<and> set_mset (left_behind w w') \<subseteq> N
     \<and> (held w = H + A \<longrightarrow> held w' = H + B r + left_behind w w'))"

abbreviation moves :: "resource set \<Rightarrow> (os, 'a) state
    \<Rightarrow> resource multiset \<Rightarrow> ('a \<Rightarrow> resource multiset) \<Rightarrow> ('a \<Rightarrow> bool) \<Rightarrow> bool" where
  "moves \<equiv> moves_under honest_mapping"

named_theorems grows_intros \<open>computations only add to the trace\<close>

lemma growsD: "grows f \<Longrightarrow> run_state f w = (r, w') \<Longrightarrow> extends w w'"
  by (metis grows_def snd_conv)

lemma quiet_grows: "quiet f \<Longrightarrow> grows f"
  by (simp add: quiet_def grows_def keeps_def)

lemma grows_return [grows_intros]: "grows (State_Monad.return x)"
  by (simp add: grows_def)

lemma grows_call [grows_intros]: "grows (call c)"
  by (simp add: grows_def)

lemma grows_bind [grows_intros]:
  assumes "grows f" and "\<And>x. grows (g x)"
  shows "grows (State_Monad.bind f g)"
  unfolding grows_def
proof
  fix w
  obtain x w1 where f: "run_state f w = (x, w1)" by fastforce
  show "extends w (snd (run_state (State_Monad.bind f g) w))"
    using growsD [OF assms(1) f] assms(2) [of x] by (auto simp: f grows_def intro: extends_trans)
qed

lemma grows_if [grows_intros]: "grows f \<Longrightarrow> grows g \<Longrightarrow> grows (if b then f else g)"
  by simp

lemma moves_grows: "moves_under fair N f A B P \<Longrightarrow> grows f"
  by (simp add: moves_under_def)

lemma grows_cases [grows_intros]:
  "(\<And>a b. grows (f a b)) \<Longrightarrow> grows (case p of (a, b) \<Rightarrow> f a b)"
  "(\<And>a. grows (g a)) \<Longrightarrow> (\<And>b. grows (h b)) \<Longrightarrow> grows (case s of Inl a \<Rightarrow> g a | Inr b \<Rightarrow> h b)"
  "grows k \<Longrightarrow> (\<And>a. grows (h' a)) \<Longrightarrow> grows (case q of None \<Rightarrow> k | Some a \<Rightarrow> h' a)"
  by (simp_all split: prod.split sum.split option.split)

lemma movesD:
  assumes "moves_under fair N f A B P" and "run_state f w = (r, w')" and "all_calls fair w'"
  shows "P r" and "held w = H + A \<Longrightarrow> held w' = H + B r + left_behind w w'"
    and "set_mset (left_behind w w') \<subseteq> N"
  using assms by (auto simp: moves_under_def)

lemma moves_return: "A = B x \<Longrightarrow> P x \<Longrightarrow> moves_under fair N (State_Monad.return x) A B P"
  by (simp add: moves_under_def grows_intros)

lemma moves_bind:
  assumes "moves_under fair N f A B P" and "\<And>x. grows (g x)" and "\<And>x. P x \<Longrightarrow> moves_under fair N (g x) (B x) C Q"
  shows "moves_under fair N (State_Monad.bind f g) A C Q"
  unfolding moves_under_def
proof (intro conjI allI impI)
  show "grows (State_Monad.bind f g)" by (intro grows_intros assms(2) moves_grows [OF assms(1)])
  fix w r w' H
  assume run: "run_state (State_Monad.bind f g) w = (r, w')" and h: "all_calls fair w'"
  obtain x w1 where f: "run_state f w = (x, w1)" by fastforce
  then have g: "run_state (g x) w1 = (r, w')" using run by simp
  note h1 = fair_before [OF growsD [OF assms(2) g] h]
  note F = movesD [OF assms(1) f h1] and G = movesD [OF assms(3) [OF F(1)] g h]
  have l: "left_behind w w' = left_behind w w1 + left_behind w1 w'"
    using growsD [OF moves_grows [OF assms(1)] f] growsD [OF assms(2) g] by (rule left_behind_trans)
  show "Q r" by (rule G(1))
  show "set_mset (left_behind w w') \<subseteq> N" using F(3) G(3) by (simp add: l)
  show "held w' = H + C r + left_behind w w'" if "held w = H + A"
  proof -
    have "held w1 = (H + left_behind w w1) + B x" using F(2) [OF that] by (simp add: ac_simps)
    from G(2) [OF this] show ?thesis by (simp add: l ac_simps)
  qed
qed

lemma moves_frame: "moves_under fair N f A B P \<Longrightarrow> moves_under fair N f (F + A) (\<lambda>x. F + B x) P"
  unfolding moves_under_def by (metis add.assoc)

lemma moves_cong: "moves_under fair N f A B P \<Longrightarrow> A = A' \<Longrightarrow> (\<And>x. P x \<Longrightarrow> B x = B' x \<and> Q x) \<Longrightarrow> moves_under fair N f A' B' Q"
  by (auto simp: moves_under_def)

lemma moves_quiet: "quiet f \<Longrightarrow> moves_under fair N f A (\<lambda>_. A) (\<lambda>_. True)"
  by (auto simp: moves_under_def quiet_grows keeps_def dest: quietD)

section \<open>Objects that own resources\<close>

text \<open>
  A class whose objects own resources of the process while they are intact, and whose destructor
  gives these back, but for names among \<open>N\<close> that the system refuses to unlink.
\<close>

locale owned_object =
  fixes fair :: "syscall \<times> reply \<Rightarrow> bool"
    and N :: "resource set"
    and owns :: "'r \<Rightarrow> resource multiset"
    and intact :: "'r \<Rightarrow> bool"
    and dispose :: "'r \<Rightarrow> (os, 'b) state"
  assumes dispose_grows: "grows (dispose r)"
    and dispose_moves: "intact r \<Longrightarrow> moves_under fair N (dispose r) (owns r) (\<lambda>_. {#}) (\<lambda>_. True)"
begin

lemma dispose_then:
  assumes "intact r" and "grows rest" and "moves_under fair N rest F B P"
  shows "moves_under fair N (do { _ \<leftarrow> dispose r; rest }) (F + owns r) B P"
  by (rule moves_bind [OF moves_frame [OF dispose_moves [OF assms(1)]]]) (simp_all add: assms)

text \<open>The error path that gives the object back.\<close>

lemma give_up:
  "intact r \<Longrightarrow> B x = {#} \<Longrightarrow> P x \<Longrightarrow>
    moves_under fair N (do { _ \<leftarrow> dispose r; State_Monad.return x }) (owns r) B P"
  using dispose_then [of r "State_Monad.return x" "{#}" B P] by (simp add: grows_intros moves_return)

end

text \<open>Such a class with a function that makes its objects, or fails and keeps nothing.\<close>

locale acquired_object = owned_object fair N owns intact dispose
  for fair and N and owns :: "'r \<Rightarrow> resource multiset" and intact and dispose :: "'r \<Rightarrow> (os, 'b) state" +
  fixes acquire :: "(os, 'e + 'r) state"
  assumes acquire_moves: "moves_under fair N acquire {#}
    (\<lambda>u. case u of Inl _ \<Rightarrow> {#} | Inr r \<Rightarrow> owns r) (\<lambda>u. \<forall>r. u = Inr r \<longrightarrow> intact r)"
begin

lemma acquire_then:
  assumes "\<And>e. grows (g e)" and "\<And>r. grows (h r)" and "\<And>e. moves_under fair N (g e) F B P"
    and "\<And>r. intact r \<Longrightarrow> moves_under fair N (h r) (F + owns r) B P"
  shows "moves_under fair N (do { u \<leftarrow> acquire; case u of Inl e \<Rightarrow> g e | Inr r \<Rightarrow> h r }) F B P"
proof (rule moves_bind [OF moves_frame [OF acquire_moves, where F = F, unfolded add_0_right]])
  show "grows (case u of Inl e \<Rightarrow> g e | Inr r \<Rightarrow> h r)" for u by (intro grows_intros assms(1,2))
  show "moves_under fair N (case u of Inl e \<Rightarrow> g e | Inr r \<Rightarrow> h r)
      (F + (case u of Inl _ \<Rightarrow> {#} | Inr r \<Rightarrow> owns r)) B P" if "\<forall>r. u = Inr r \<longrightarrow> intact r" for u
    using that assms(3,4) by (cases u) auto
qed

text \<open>An object of a block: made, used without a change of the resources, and destroyed.\<close>

lemma scoped:
  assumes "\<And>r. quiet (use r)" and "\<And>e. P (failure e)" and "\<And>r x. P (result r x)"
  shows "moves_under fair N (do {
      u \<leftarrow> acquire;
      case u of
        Inl e \<Rightarrow> State_Monad.return (failure e)
      | Inr r \<Rightarrow> do { x \<leftarrow> use r; _ \<leftarrow> dispose r; State_Monad.return (result r x) }
    }) {#} (\<lambda>_. {#}) P"
proof (rule acquire_then)
  fix r assume r: "intact r"
  show "moves_under fair N (do { x \<leftarrow> use r; _ \<leftarrow> dispose r; State_Monad.return (result r x) }) ({#} + owns r) (\<lambda>_. {#}) P"
    unfolding add_0_left
    by (rule moves_bind [OF moves_quiet [OF assms(1)]]) (simp_all add: grows_intros dispose_grows give_up [OF r] assms)
qed (simp_all add: grows_intros dispose_grows quiet_grows moves_return assms)

end

section \<open>Objects from their initialization to their destructor\<close>

text \<open>
  An engine: \<open>initialize\<close> makes it or fails, it is then part of a world in which it takes steps among
  other threads, and it is destroyed at the end. The steps keep what it owns.
\<close>

locale engine = owned_object fair N owns intact dispose
  for fair and N and owns :: "'w \<Rightarrow> resource multiset" and intact and dispose :: "'w \<Rightarrow> (os, 'b) state" +
  fixes initialize :: "os \<Rightarrow> (('e + 's) \<times> os) option"
    and start :: "'s \<Rightarrow> os \<Rightarrow> 'w"
    and step :: "'w \<Rightarrow> 'a \<Rightarrow> 'w"
    and os_of :: "'w \<Rightarrow> os"
  assumes initialized: "initialize w = Some (r, w') \<Longrightarrow> all_calls fair w' \<Longrightarrow> extends w w'
      \<and> held w' = held w + (case r of Inl _ \<Rightarrow> {#} | Inr s \<Rightarrow> owns (start s w')) + left_behind w w'
      \<and> set_mset (left_behind w w') \<subseteq> N
      \<and> (\<forall>s. r = Inr s \<longrightarrow> intact (start s w'))"
    and started: "os_of (start s w) = w"
    and step_keeps: "keeps (os_of x) (os_of (step x a))
      \<and> owns (step x a) = owns x \<and> (intact x \<longrightarrow> intact (step x a))"
begin

lemma run_keeps:
  "keeps (os_of x) (os_of (foldl step x as))
    \<and> owns (foldl step x as) = owns x \<and> (intact x \<longrightarrow> intact (foldl step x as))"
proof (induction as arbitrary: x)
  case (Cons a as)
  show ?case using step_keeps [of x a] Cons [of "step x a"] by (auto intro: keeps_trans)
qed simp

lemma failed_initialization:
  "initialize w = Some (Inl e, w') \<Longrightarrow> all_calls fair w' \<Longrightarrow>
    held w' = held w + left_behind w w' \<and> set_mset (left_behind w w') \<subseteq> N"
  using initialized [of w "Inl e" w'] by simp

lemma whole_life:
  assumes "initialize w = Some (Inr s, w1)"
    and "run_state (dispose (foldl step (start s w1) as)) (os_of (foldl step (start s w1) as)) = (u, w2)"
    and "all_calls fair w2"
  shows "held w2 = held w + left_behind w w2 \<and> set_mset (left_behind w w2) \<subseteq> N"
proof -
  let ?x = "foldl step (start s w1) as"
  note k = run_keeps [of "start s w1" as, unfolded started]
  note e = growsD [OF dispose_grows assms(2)]
  have h: "all_calls fair w1"
    using k e assms(3) by (meson fair_before keeps_def)
  note i = initialized [OF assms(1) h]
  have "extends w (os_of ?x)" using i k by (meson extends_trans keeps_def)
  note l = left_behind_trans [OF this e]
  have "left_behind w (os_of ?x) = left_behind w w1 + left_behind w1 (os_of ?x)"
    using i k by (intro left_behind_trans) (simp_all add: keeps_def)
  then have l1: "left_behind w (os_of ?x) = left_behind w w1" using k by (simp add: keeps_def)
  have "intact ?x" using i k by simp
  note d = movesD [OF dispose_moves [OF this] assms(2,3)]
  have "held (os_of ?x) = (held w + left_behind w w1) + owns ?x"
    using i k by (simp add: keeps_def ac_simps)
  from d(2) [OF this] show ?thesis using d(3) i by (simp add: l l1 ac_simps)
qed

end

end
