(* ===== verification/Udp_Transport.thy ===== *)
theory Udp_Transport
  imports Resources
begin

text \<open>
  The UDP transport (include/lle/transport, src/transport): numeric IPv4 addresses, the sending
  and the receiving socket. A socket object is its descriptor, -1 when moved from. The lemmas
  give the outcome of each operation for every reply of the system and the resources it holds.
\<close>

section \<open>Types\<close>

datatype UdpErrorCode = InvalidAddress | InvalidPort | Socket | Bind | Poll | Timeout | Send
  | Receive | DatagramTooLarge

record UdpError =
  code :: UdpErrorCode
  error_number :: int

record UdpAddress =
  native :: sockaddr_in

record ReceivedDatagram =
  datagram_size :: size_t
  datagram_peer :: sockaddr_in

record UdpSender =
  tx_fd :: int

record UdpReceiver =
  rx_fd :: int
  local_port :: u16

section \<open>Addresses and the sending socket\<close>

definition ipv4 :: "string \<Rightarrow> u16 \<Rightarrow> (os, UdpError + UdpAddress) state" where
  "ipv4 address port =
    (if port = 0 then State_Monad.return (Inl \<lparr>code = InvalidPort, error_number = 0\<rparr>)
     else do {
       r \<leftarrow> call (Inet_pton_call (c_str address));
       if ret r \<noteq> 1 then State_Monad.return (Inl \<lparr>code = InvalidAddress, error_number = 0\<rparr>)
       else State_Monad.return (Inr \<lparr>native = \<lparr>sin_family = AF_INET, sin_port = htons port,
              sin_addr = ucast (answer r)\<rparr>\<rparr>)
     })"

definition open_sender :: "(os, UdpError + UdpSender) state" where
  "open_sender = do {
     r \<leftarrow> call Socket_call;
     if ret r < 0 then State_Monad.return (Inl \<lparr>code = Socket, error_number = errno r\<rparr>)
     else State_Monad.return (Inr \<lparr>tx_fd = ret r\<rparr>)
   }"

definition move_sender :: "UdpSender \<Rightarrow> UdpSender \<times> UdpSender" where
  "move_sender other = (other, \<lparr>tx_fd = -1\<rparr>)"

definition destroy_sender :: "UdpSender \<Rightarrow> (os, unit) state" where
  "destroy_sender s = (if tx_fd s \<ge> 0 then do { _ \<leftarrow> call (Close_call (tx_fd s)); State_Monad.return () }
     else State_Monad.return ())"

definition send_to :: "UdpSender \<Rightarrow> byte list \<Rightarrow> UdpAddress \<Rightarrow> (os, UdpError + unit) state" where
  "send_to s datagram destination = do {
     r \<leftarrow> call (Sendto_call (tx_fd s) datagram (native destination));
     if ret r < 0 then State_Monad.return (Inl \<lparr>code = Send, error_number = errno r\<rparr>)
     else if (word_of_int (ret r) :: size_t) \<noteq> span_size datagram
       then State_Monad.return (Inl \<lparr>code = Send, error_number = 0\<rparr>)
     else State_Monad.return (Inr ())
   }"

section \<open>The receiving socket\<close>

definition bind_address :: "UdpAddress \<Rightarrow> (os, UdpError + UdpReceiver) state" where
  "bind_address a =
    (if sin_family (native a) \<noteq> AF_INET
       then State_Monad.return (Inl \<lparr>code = InvalidAddress, error_number = 0\<rparr>)
     else do {
       s \<leftarrow> call Socket_call;
       if ret s < 0 then State_Monad.return (Inl \<lparr>code = Socket, error_number = errno s\<rparr>)
       else do {
         b \<leftarrow> call (Bind_call (ret s) (native a));
         if ret b < 0 then do {
           _ \<leftarrow> call (Close_call (ret s));
           State_Monad.return (Inl \<lparr>code = Bind, error_number = errno b\<rparr>)
         } else do {
           n \<leftarrow> call (Getsockname_call (ret s));
           if ret n < 0 then do {
             _ \<leftarrow> call (Close_call (ret s));
             State_Monad.return (Inl \<lparr>code = Bind, error_number = errno n\<rparr>)
           } else State_Monad.return (Inr \<lparr>rx_fd = ret s, local_port = ntohs (ucast (answer n))\<rparr>)
         }
       }
     })"

definition bind_port :: "u16 \<Rightarrow> (os, UdpError + UdpReceiver) state" where
  "bind_port port =
     bind_address \<lparr>native = \<lparr>sin_family = AF_INET, sin_port = htons port, sin_addr = 0\<rparr>\<rparr>"

definition move_receiver_socket :: "UdpReceiver \<Rightarrow> UdpReceiver \<times> UdpReceiver" where
  "move_receiver_socket other = (other, other\<lparr>rx_fd := -1\<rparr>)"

definition destroy_receiver_socket :: "UdpReceiver \<Rightarrow> (os, unit) state" where
  "destroy_receiver_socket s =
    (if rx_fd s \<ge> 0 then do { _ \<leftarrow> call (Close_call (rx_fd s)); State_Monad.return () }
     else State_Monad.return ())"

text \<open>\<open>receive\<close> after the optional wait; the caller's buffer is returned as the kernel left it.\<close>

definition receive_message ::
  "UdpReceiver \<Rightarrow> byte list \<Rightarrow> (os, (UdpError + ReceivedDatagram) \<times> byte list) state" where
  "receive_message s buffer = do {
     r \<leftarrow> call (Recvmsg_call (rx_fd s) (length buffer));
     let buffer = store_bytes buffer 0 (contents r);
     State_Monad.return
       (if ret r < 0 then Inl \<lparr>code = Receive, error_number = errno r\<rparr>
        else if answer r AND MSG_TRUNC \<noteq> 0 then Inl \<lparr>code = DatagramTooLarge, error_number = 0\<rparr>
        else Inr \<lparr>datagram_size = word_of_int (ret r), datagram_peer = peer r\<rparr>, buffer)
   }"

definition receive ::
  "UdpReceiver \<Rightarrow> byte list \<Rightarrow> int \<Rightarrow> (os, (UdpError + ReceivedDatagram) \<times> byte list) state" where
  "receive s buffer timeout_ms =
    (if timeout_ms \<ge> 0 then do {
       r \<leftarrow> call (Poll_call (rx_fd s) timeout_ms);
       if ret r < 0 then State_Monad.return (Inl \<lparr>code = Poll, error_number = errno r\<rparr>, buffer)
       else if ret r = 0 then State_Monad.return (Inl \<lparr>code = Timeout, error_number = 0\<rparr>, buffer)
       else if answer r AND POLLIN = 0
         then State_Monad.return (Inl \<lparr>code = Poll, error_number = EIO\<rparr>, buffer)
       else receive_message s buffer
     } else receive_message s buffer)"

section \<open>Outcomes\<close>

text \<open>One \<open>sendto\<close>, and success means that the system took the whole datagram.\<close>

lemma run_send_to:
  "run_state (send_to s d a) w = (r, w') \<Longrightarrow>
    w' = w\<lparr>trace := trace w @ [(Sendto_call (tx_fd s) d (native a), replies w (length (trace w)))]\<rparr>
    \<and> (\<forall>u. r = Inr u \<longrightarrow> word_of_int (ret (replies w (length (trace w)))) = span_size d)
    \<and> send_outcomes w' = send_outcomes w @ [\<not> isl r]"
  by (auto simp: send_to_def send_outcomes_def split: if_splits)

text \<open>The socket operations keep account of the descriptors.\<close>

lemma run_open_sender:
  "run_state open_sender w = (r, w') \<Longrightarrow>
    held w' = held w + (case r of Inr s \<Rightarrow> {#Descriptor (tx_fd s)#} | Inl _ \<Rightarrow> {#})
    \<and> (\<forall>s. r = Inr s \<longrightarrow> 0 \<le> tx_fd s) \<and> left_behind w w' = {#} \<and> extends w w'"
  by (auto simp: open_sender_def split: if_splits)

lemma run_bind_address:
  "run_state (bind_address a) w = (r, w') \<Longrightarrow>
    held w' = held w + (case r of Inr s \<Rightarrow> {#Descriptor (rx_fd s)#} | Inl _ \<Rightarrow> {#})
    \<and> (\<forall>s. r = Inr s \<longrightarrow> 0 \<le> rx_fd s) \<and> left_behind w w' = {#} \<and> extends w w'"
  by (auto simp: bind_address_def split: if_splits)

lemma run_destroy_sender:
  "0 \<le> tx_fd s \<Longrightarrow> run_state (destroy_sender s) w = (u, w') \<Longrightarrow>
    held w' = held w - {#Descriptor (tx_fd s)#} \<and> left_behind w w' = {#} \<and> extends w w'"
  by (auto simp: destroy_sender_def)

lemma run_destroy_receiver_socket:
  "0 \<le> rx_fd s \<Longrightarrow> run_state (destroy_receiver_socket s) w = (u, w') \<Longrightarrow>
    held w' = held w - {#Descriptor (rx_fd s)#} \<and> left_behind w w' = {#} \<and> extends w w'"
  by (auto simp: destroy_receiver_socket_def)

lemma run_ipv4:
  "run_state (ipv4 address port) w = (r, w') \<Longrightarrow> held w' = held w \<and> left_behind w w' = {#} \<and> extends w w'
    \<and> (\<forall>a. r = Inr a \<longrightarrow> port \<noteq> 0 \<and> sin_family (native a) = AF_INET \<and> ntohs (sin_port (native a)) = port)"
  by (auto simp: ipv4_def split: if_splits)

text \<open>A receive keeps the buffer's length and takes or gives no resource.\<close>

lemma run_receive:
  "run_state (receive s buffer t) w = ((r, buffer'), w') \<Longrightarrow>
    length buffer' = length buffer \<and> held w' = held w \<and> left_behind w w' = {#} \<and> extends w w'"
  by (auto simp: receive_def receive_message_def Let_def split: if_splits)

section \<open>Resources\<close>

lemma quiet_ipv4 [quiet_intros]: "quiet (ipv4 a p)"
  unfolding ipv4_def by (intro quiet_intros)

lemma quiet_send_to [quiet_intros]: "quiet (send_to s d a)"
  unfolding send_to_def by (intro quiet_intros)

lemma quiet_receive [quiet_intros]: "quiet (receive s b t)"
  unfolding receive_def receive_message_def Let_def by (intro quiet_intros)

lemma grows_sockets [grows_intros]:
  "grows open_sender" "grows (destroy_sender u)" "grows (bind_address a)" "grows (destroy_receiver_socket r)"
  unfolding open_sender_def destroy_sender_def bind_address_def destroy_receiver_socket_def
  by (auto intro!: grows_intros)

lemma moves_open_sender:
  "moves_under fair N open_sender {#} (\<lambda>r. case r of Inl _ \<Rightarrow> {#} | Inr s \<Rightarrow> {#Descriptor (tx_fd s)#})
    (\<lambda>r. \<forall>s. r = Inr s \<longrightarrow> 0 \<le> tx_fd s)"
  unfolding moves_under_def by (auto simp: grows_intros dest: run_open_sender)

lemma moves_bind_address:
  "moves_under fair N (bind_address a) {#} (\<lambda>r. case r of Inl _ \<Rightarrow> {#} | Inr s \<Rightarrow> {#Descriptor (rx_fd s)#})
    (\<lambda>r. \<forall>s. r = Inr s \<longrightarrow> 0 \<le> rx_fd s)"
  unfolding moves_under_def by (auto simp: grows_intros dest: run_bind_address)

lemma moves_destroy_sender:
  "0 \<le> tx_fd s \<Longrightarrow> moves_under fair N (destroy_sender s) {#Descriptor (tx_fd s)#} (\<lambda>_. {#}) (\<lambda>_. True)"
  unfolding moves_under_def by (auto simp: grows_intros dest: run_destroy_sender)

lemma moves_destroy_receiver_socket:
  "0 \<le> rx_fd s \<Longrightarrow> moves_under fair N (destroy_receiver_socket s) {#Descriptor (rx_fd s)#} (\<lambda>_. {#}) (\<lambda>_. True)"
  unfolding moves_under_def by (auto simp: grows_intros dest: run_destroy_receiver_socket)

lemma moves_ipv4:
  "moves_under fair N (ipv4 a p) {#} (\<lambda>_. {#}) (\<lambda>r. \<forall>d. r = Inr d \<longrightarrow> p \<noteq> 0 \<and> sin_family (native d) = AF_INET
    \<and> ntohs (sin_port (native d)) = p)"
  unfolding moves_under_def by (auto simp: quiet_grows quiet_intros dest: run_ipv4)

text \<open>The two sockets are objects that own their descriptor; no assumption on the system is needed.\<close>

interpretation tx_socket: acquired_object fair N "\<lambda>s. {#Descriptor (tx_fd s)#}" "\<lambda>s. 0 \<le> tx_fd s"
    destroy_sender open_sender for fair N
  by unfold_locales (simp_all add: grows_intros moves_destroy_sender moves_open_sender)

interpretation rx_socket: acquired_object fair N "\<lambda>s. {#Descriptor (rx_fd s)#}" "\<lambda>s. 0 \<le> rx_fd s"
    destroy_receiver_socket "bind_address a" for fair N a
  by unfold_locales (simp_all add: grows_intros moves_destroy_receiver_socket moves_bind_address)

end
