(* ===== verification/Shm_Segment.thy ===== *)
theory Shm_Segment
  imports Resources
begin

text \<open>
  \<open>SharedMemorySegment\<close> (include/shm/segment.hpp, src/shm/segment.cpp): creation and attachment of
  a named POSIX shared memory object, the move operations, closing and unlinking. The bytes of the
  mapping are not part of the object; an operation that maps returns them beside it. The lemmas
  show that no path of these operations loses a descriptor or a mapping, and that the only names it
  loses are those that the system refuses to unlink.
\<close>

section \<open>The object\<close>

datatype SegmentOperation = Validate | Open | Resize | Stat | Map | Unmap | Close | Unlink

record SegmentError =
  operation :: SegmentOperation
  segment_errno :: int

record SharedMemorySegment =
  seg_name :: string
  descriptor :: int
  seg_address :: u64
  seg_size :: size_t
  seg_owner :: bool
  seg_linked :: bool

definition empty_segment :: SharedMemorySegment where
  "empty_segment = \<lparr>seg_name = '''', descriptor = -1, seg_address = 0, seg_size = 0,
     seg_owner = False, seg_linked = False\<rparr>"

definition make_segment :: "string \<Rightarrow> int \<Rightarrow> u64 \<Rightarrow> size_t \<Rightarrow> bool \<Rightarrow> SharedMemorySegment" where
  "make_segment name fd address sz owner = \<lparr>seg_name = name, descriptor = fd, seg_address = address,
     seg_size = sz, seg_owner = owner, seg_linked = True\<rparr>"

text \<open>A moved-from segment; its name is a valid string that nothing reads afterwards.\<close>

definition moved_from :: "SharedMemorySegment \<Rightarrow> SharedMemorySegment" where
  "moved_from s = s\<lparr>seg_name := '''', descriptor := -1, seg_address := 0, seg_size := 0,
     seg_owner := False, seg_linked := False\<rparr>"

definition move_segment :: "SharedMemorySegment \<Rightarrow> SharedMemorySegment \<times> SharedMemorySegment" where
  "move_segment other = (other, moved_from other)"

definition is_open :: "SharedMemorySegment \<Rightarrow> bool" where
  "is_open s \<longleftrightarrow> descriptor s \<noteq> -1 \<and> seg_address s \<noteq> 0"

section \<open>Names\<close>

definition max_segment_name_length :: nat where "max_segment_name_length = 255"

definition allowed_characters :: string where
  "allowed_characters = ''abcdefghijklmnopqrstuvwxyzABCDEFGHIJKLMNOPQRSTUVWXYZ0123456789._-''"

definition is_shm_name_valid :: "string \<Rightarrow> bool" where
  "is_shm_name_valid name =
    (if length name < 2 \<or> length name > max_segment_name_length then False
     else if hd name \<noteq> CHR ''/'' then False
     else
       let identifier = tl name
       in identifier \<noteq> ''.'' \<and> identifier \<noteq> ''..''
         \<and> list_all (\<lambda>c. c \<in> set allowed_characters) identifier)"

section \<open>Creating and attaching\<close>

definition close_descriptor :: "int \<Rightarrow> (os, unit) state" where
  "close_descriptor fd = do { _ \<leftarrow> call (Close_call fd); State_Monad.return () }"

definition clean_up_failed_creation :: "string \<Rightarrow> int \<Rightarrow> (os, unit) state" where
  "clean_up_failed_creation name fd = do {
     _ \<leftarrow> close_descriptor fd;
     _ \<leftarrow> call (Shm_unlink_call (c_str name));
     State_Monad.return ()
   }"

definition segment_error :: "SegmentOperation \<Rightarrow> int \<Rightarrow> SegmentError + 'a" where
  "segment_error op e = Inl \<lparr>operation = op, segment_errno = e\<rparr>"

definition create_shm ::
  "string \<Rightarrow> size_t \<Rightarrow> (os, SegmentError + SharedMemorySegment \<times> byte list) state" where
  "create_shm name sz =
    (if \<not> is_shm_name_valid name \<or> sz = 0 then State_Monad.return (segment_error Validate EINVAL)
     else do {
       d \<leftarrow> call (Shm_create_call (c_str name));
       if ret d = -1 then State_Monad.return (segment_error Open (errno d))
       else do {
         t \<leftarrow> call (Ftruncate_call (ret d) sz);
         if ret t = -1 then do {
           _ \<leftarrow> clean_up_failed_creation name (ret d);
           State_Monad.return (segment_error Resize (errno t))
         } else do {
           m \<leftarrow> call (Mmap_call (ret d) sz);
           if answer m = MAP_FAILED then do {
             _ \<leftarrow> clean_up_failed_creation name (ret d);
             State_Monad.return (segment_error Map (errno m))
           } else State_Monad.return
               (Inr (make_segment name (ret d) (answer m) sz True, contents m))
         }
       }
     })"

definition attach_shm ::
  "string \<Rightarrow> (os, SegmentError + SharedMemorySegment \<times> byte list) state" where
  "attach_shm name =
    (if \<not> is_shm_name_valid name then State_Monad.return (segment_error Validate EINVAL)
     else do {
       d \<leftarrow> call (Shm_open_call (c_str name));
       if ret d = -1 then State_Monad.return (segment_error Open (errno d))
       else do {
         st \<leftarrow> call (Fstat_call (ret d));
         if ret st = -1 then do {
           _ \<leftarrow> close_descriptor (ret d);
           State_Monad.return (segment_error Stat (errno st))
         } else if sint (answer st) \<le> 0 then do {
           _ \<leftarrow> close_descriptor (ret d);
           State_Monad.return (segment_error Validate EINVAL)
         } else do {
           m \<leftarrow> call (Mmap_call (ret d) (answer st));
           if answer m = MAP_FAILED then do {
             _ \<leftarrow> close_descriptor (ret d);
             State_Monad.return (segment_error Map (errno m))
           } else State_Monad.return
               (Inr (make_segment name (ret d) (answer m) (answer st) False, contents m))
         }
       }
     })"

section \<open>Closing and unlinking\<close>

definition close_shm ::
  "SharedMemorySegment \<Rightarrow> (os, (SegmentError + unit) \<times> SharedMemorySegment) state" where
  "close_shm s = do {
     (unmap_error, s) \<leftarrow>
       (if seg_address s \<noteq> 0 then do {
          r \<leftarrow> call (Munmap_call (seg_address s) (seg_size s));
          State_Monad.return
            (if ret r = -1 then (errno r, s) else (0, s\<lparr>seg_address := 0, seg_size := 0\<rparr>))
        } else State_Monad.return (0, s));
     (close_error, s) \<leftarrow>
       (if descriptor s \<noteq> -1 then do {
          r \<leftarrow> call (Close_call (descriptor s));
          State_Monad.return (if ret r = -1 then errno r else 0, s\<lparr>descriptor := -1\<rparr>)
        } else State_Monad.return (0, s));
     State_Monad.return
       (if unmap_error \<noteq> 0 then segment_error Unmap unmap_error
        else if close_error \<noteq> 0 then segment_error Close close_error
        else Inr (), s)
   }"

definition unlink ::
  "SharedMemorySegment \<Rightarrow> (os, (SegmentError + unit) \<times> SharedMemorySegment) state" where
  "unlink s =
    (if \<not> seg_owner s then State_Monad.return (segment_error Unlink EPERM, s)
     else if \<not> seg_linked s then State_Monad.return (Inr (), s)
     else do {
       r \<leftarrow> call (Shm_unlink_call (c_str (seg_name s)));
       State_Monad.return
         (if ret r = -1 then
            if errno r = ENOENT then (Inr (), s\<lparr>seg_linked := False\<rparr>)
            else (segment_error Unlink (errno r), s)
          else (Inr (), s\<lparr>seg_linked := False\<rparr>))
     })"

definition destroy_segment :: "SharedMemorySegment \<Rightarrow> (os, unit) state" where
  "destroy_segment s = do { _ \<leftarrow> close_shm s; State_Monad.return () }"

text \<open>\<open>operator=\<close> on two different objects closes the target's own resources first.\<close>

definition assign_segment :: "SharedMemorySegment \<Rightarrow> SharedMemorySegment
    \<Rightarrow> (os, SharedMemorySegment \<times> SharedMemorySegment) state" where
  "assign_segment this other = do {
     _ \<leftarrow> close_shm this;
     State_Monad.return (move_segment other)
   }"

section \<open>Names that pass the check\<close>

lemma valid_name_c_str: "is_shm_name_valid name \<Longrightarrow> c_str name = name"
proof -
  assume v: "is_shm_name_valid name"
  then have n: "name = CHR ''/'' # tl name"
    by (cases name) (auto simp: is_shm_name_valid_def split: if_splits)
  have "list_all (\<lambda>c. c \<noteq> CHR 0x00) allowed_characters" by (simp add: allowed_characters_def)
  then have "\<forall>c \<in> set (tl name). c \<noteq> CHR 0x00"
    using v by (auto simp: is_shm_name_valid_def Let_def list_all_iff split: if_splits)
  then have "\<forall>c \<in> set name. c \<noteq> CHR 0x00" by (subst n) auto
  then show ?thesis by (simp add: c_str_def takeWhile_eq_all_conv)
qed

section \<open>No path loses a resource\<close>

text \<open>What an object holds: the name too, when it created the object and has not unlinked it.\<close>

definition segment_resources :: "SharedMemorySegment \<Rightarrow> resource multiset" where
  "segment_resources s = {#Descriptor (descriptor s), Mapping (seg_address s)#}"

definition name_resource :: "SharedMemorySegment \<Rightarrow> resource multiset" where
  "name_resource s = {#Shm_name (c_str (seg_name s))#}"

lemma run_create_shm:
  assumes "run_state (create_shm name sz) w = (r, w')"
  shows "held w' = held w + (case r of Inr (s, m) \<Rightarrow> segment_resources s + name_resource s
      | Inl _ \<Rightarrow> left_behind w w')"
    and "extends w w'"
    and "left_behind w w' \<subseteq># (case r of Inr _ \<Rightarrow> {#}
      | Inl err \<Rightarrow> if operation err = Resize \<or> operation err = Map then {#Shm_name (c_str name)#} else {#})"
    and "r = Inr (s, m) \<Longrightarrow> is_shm_name_valid name \<and> seg_name s = name \<and> seg_size s = sz \<and> seg_owner s
      \<and> seg_linked s \<and> descriptor s \<noteq> -1 \<and> seg_address s \<noteq> MAP_FAILED
      \<and> (\<exists>i. m = contents (replies w i) \<and> seg_address s = answer (replies w i))"
  using assms
  by (auto simp: create_shm_def clean_up_failed_creation_def close_descriptor_def segment_error_def
      make_segment_def segment_resources_def name_resource_def split: if_splits)

lemma run_attach_shm:
  assumes "run_state (attach_shm name) w = (r, w')"
  shows "held w' = held w + (case r of Inr (s, m) \<Rightarrow> segment_resources s | Inl _ \<Rightarrow> {#})"
    and "extends w w'" and "left_behind w w' = {#}"
    and "r = Inr (s, m) \<Longrightarrow> is_shm_name_valid name \<and> seg_name s = name \<and> \<not> seg_owner s
      \<and> 0 < sint (seg_size s) \<and> descriptor s \<noteq> -1 \<and> seg_address s \<noteq> MAP_FAILED
      \<and> (\<exists>i. m = contents (replies w i) \<and> seg_address s = answer (replies w i))"
  using assms
  by (auto simp: attach_shm_def close_descriptor_def segment_error_def make_segment_def
      segment_resources_def split: if_splits)

text \<open>Closing an open segment gives its descriptor back and, when munmap works, its mapping.\<close>

lemma run_close_shm:
  assumes "run_state (close_shm s) w = ((r, s'), w')" and "is_open s"
  shows "descriptor s' = -1" and "extends w w'"
    and "r = Inr () \<Longrightarrow> ret (replies w (length (trace w))) \<noteq> -1 \<or> errno (replies w (length (trace w))) = 0"
    and "ret (replies w (length (trace w))) \<noteq> -1 \<Longrightarrow>
      held w' = held w - segment_resources s \<and> s' = s\<lparr>seg_address := 0, seg_size := 0, descriptor := -1\<rparr>"
  using assms
  by (auto simp: close_shm_def segment_error_def is_open_def segment_resources_def split: if_splits)

text \<open>Closing an object that holds nothing makes no call.\<close>

lemma close_shm_empty:
  "descriptor s = -1 \<Longrightarrow> seg_address s = 0 \<Longrightarrow> run_state (close_shm s) w = ((Inr (), s), w)"
  by (simp add: close_shm_def)

lemma run_unlink:
  assumes "run_state (unlink s) w = ((r, s'), w')" and "seg_owner s" and "seg_linked s"
  shows "held w' = held w - (if seg_linked s' then {#} else name_resource s)"
    and "left_behind w w' = (if seg_linked s' then name_resource s else {#})" and "extends w w'" and "length (trace w') = Suc (length (trace w))"
    and "s' = s\<lparr>seg_linked := seg_linked s'\<rparr>" and "r = Inr () \<longleftrightarrow> \<not> seg_linked s'"
    and "r = Inr () \<longleftrightarrow> ret (replies w (length (trace w))) \<noteq> -1 \<or> errno (replies w (length (trace w))) = ENOENT"
  using assms by (auto simp: unlink_def name_resource_def segment_error_def refused_unlink_def split: if_splits)

section \<open>Segments as objects that own resources\<close>

definition open_segment :: "SharedMemorySegment \<Rightarrow> bool" where
  "open_segment s \<longleftrightarrow> descriptor s \<noteq> -1 \<and> seg_address s \<noteq> 0"

lemma grows_segment [grows_intros]:
  "grows (destroy_segment s)" "grows (attach_shm name)" "grows (create_shm name sz)" "grows (unlink s)"
  unfolding destroy_segment_def close_shm_def attach_shm_def create_shm_def unlink_def
    close_descriptor_def clean_up_failed_creation_def
  by (auto intro!: grows_intros)

lemma moves_destroy_segment:
  "open_segment s \<Longrightarrow> moves N (destroy_segment s) (segment_resources s) (\<lambda>_. {#}) (\<lambda>_. True)"
  by (auto simp: moves_under_def grows_intros)
    (auto simp: destroy_segment_def close_shm_def open_segment_def honest_mapping_def
      segment_resources_def split: if_splits)

lemma moves_attach_shm:
  "moves N (attach_shm name) {#} (\<lambda>r. case r of Inl _ \<Rightarrow> {#} | Inr (s, m) \<Rightarrow> segment_resources s)
    (\<lambda>r. \<forall>s m. r = Inr (s, m) \<longrightarrow> open_segment s \<and> \<not> seg_owner s)"
  unfolding moves_under_def
  by (auto simp: grows_intros attach_shm_def close_descriptor_def segment_error_def make_segment_def
      segment_resources_def open_segment_def honest_mapping_def split: if_splits)

lemma moves_create_shm:
  "Shm_name (c_str name) \<in> N \<Longrightarrow> moves N (create_shm name sz) {#}
    (\<lambda>r. case r of Inl _ \<Rightarrow> {#} | Inr (s, m) \<Rightarrow> segment_resources s + name_resource s)
    (\<lambda>r. \<forall>s m. r = Inr (s, m) \<longrightarrow> open_segment s \<and> seg_owner s \<and> seg_linked s \<and> seg_size s = sz
      \<and> seg_name s = name)"
  unfolding moves_under_def
  by (auto simp: grows_intros create_shm_def clean_up_failed_creation_def close_descriptor_def
      segment_error_def make_segment_def segment_resources_def name_resource_def open_segment_def
      honest_mapping_def split: if_splits)

lemma moves_unlink:
  "seg_owner s \<Longrightarrow> seg_linked s \<Longrightarrow> Shm_name (c_str (seg_name s)) \<in> N \<Longrightarrow> moves N (unlink s) (name_resource s) (\<lambda>_. {#})
    (\<lambda>(r, s'). segment_resources s' = segment_resources s \<and> (open_segment s' \<longleftrightarrow> open_segment s))"
  unfolding moves_under_def
  by (auto simp: grows_intros unlink_def name_resource_def segment_error_def segment_resources_def
      open_segment_def split: if_splits)

interpretation segment: owned_object honest_mapping N segment_resources open_segment destroy_segment for N
  by unfold_locales (simp_all add: grows_intros moves_destroy_segment)

text \<open>An attached segment, which is not owned, with the memory it maps.\<close>

interpretation attached_segment: acquired_object honest_mapping N "\<lambda>(s, m). segment_resources s"
    "\<lambda>(s, m). open_segment s \<and> \<not> seg_owner s" "\<lambda>(s, m). destroy_segment s" "attach_shm name" for N name
proof unfold_locales
  show "moves N (attach_shm name) {#} (\<lambda>u. case u of Inl _ \<Rightarrow> {#} | Inr r \<Rightarrow> (\<lambda>(s, m). segment_resources s) r)
      (\<lambda>u. \<forall>r. u = Inr r \<longrightarrow> (\<lambda>(s, m). open_segment s \<and> \<not> seg_owner s) r)"
    by (rule moves_cong [OF moves_attach_shm refl]) auto
qed (auto simp: grows_intros moves_destroy_segment split: prod.splits)

section \<open>Properties\<close>

text \<open>
  C36. Creation and attachment are all or nothing: whatever the system answers, a failing
  \<open>create_shm\<close> or \<open>attach_shm\<close> leaves the process with the descriptors and mappings it had before, and
  with the names too, except that the name of a segment that was created and could not be resized or
  mapped stays exactly when the system refuses the \<open>shm_unlink\<close> of the cleanup, which the code does
  not look at. A success adds exactly the descriptor and the mapping of the returned object, and the
  name when the object was created. Only a creation gives the right to unlink.
\<close>

theorem segment_acquisition_is_all_or_nothing:
  "(case run_state (create_shm name sz) w of
      (Inl err, w') \<Rightarrow> held w' = held w + left_behind w w' \<and> left_behind w w' \<subseteq>#
        (if operation err = Resize \<or> operation err = Map then {#Shm_name (c_str name)#} else {#})
    | (Inr (s, m), w') \<Rightarrow> held w' = held w
        + {#Descriptor (descriptor s), Mapping (seg_address s), Shm_name (c_str name)#}
        \<and> seg_name s = name \<and> seg_size s = sz \<and> seg_owner s)
  \<and> (case run_state (attach_shm name) w of
      (Inl err, w') \<Rightarrow> held w' = held w
    | (Inr (s, m), w') \<Rightarrow> held w' = held w + {#Descriptor (descriptor s), Mapping (seg_address s)#}
        \<and> seg_name s = name \<and> \<not> seg_owner s)"
proof -
  obtain r w' where c: "run_state (create_shm name sz) w = (r, w')" by fastforce
  obtain q v where a: "run_state (attach_shm name) w = (q, v)" by fastforce
  note C = run_create_shm [OF c] and A = run_attach_shm [OF a]
  have "case r of Inl err \<Rightarrow> held w' = held w + left_behind w w' \<and> left_behind w w' \<subseteq>#
        (if operation err = Resize \<or> operation err = Map then {#Shm_name (c_str name)#} else {#})
    | Inr (s, m) \<Rightarrow> held w' = held w
        + {#Descriptor (descriptor s), Mapping (seg_address s), Shm_name (c_str name)#}
        \<and> seg_name s = name \<and> seg_size s = sz \<and> seg_owner s"
    using C by (cases r) (auto simp: segment_resources_def name_resource_def)
  moreover have "case q of Inl err \<Rightarrow> held v = held w
    | Inr (s, m) \<Rightarrow> held v = held w + {#Descriptor (descriptor s), Mapping (seg_address s)#}
        \<and> seg_name s = name \<and> \<not> seg_owner s"
    using A by (auto simp: segment_resources_def split: sum.splits)
  ultimately show ?thesis unfolding c a by (auto split: sum.splits)
qed

lemma destroy_moved_from: "run_state (destroy_segment (moved_from s)) w = ((), w)"
  using close_shm_empty [of "moved_from s" w] by (simp add: destroy_segment_def moved_from_def)

lemma assign_to_empty: "run_state (assign_segment empty_segment s) w = ((s, moved_from s), w)"
  using close_shm_empty [of empty_segment w] by (simp add: assign_segment_def move_segment_def empty_segment_def)

text \<open>
  C35. The life of an owned segment is balanced: create it, unlink it, assign it to an empty segment by
  move and close that one, and the process holds what it held before, provided that the system gave
  a mapping at a non-null address and accepts its munmap. The calls are made once each: a second
  unlink or a second close of the segment reaches the system no more, nor does the destructor of
  the segment that was moved from.
\<close>

theorem segment_life_is_balanced:
  assumes "run_state (create_shm name sz) w = (Inr (s, m), w1)"
    and "run_state (unlink s) w1 = ((Inr u, s1), w2)"
    and "run_state (assign_segment empty_segment s1) w2 = ((t, old), w3)"
    and "run_state (close_shm t) w3 = ((r, s2), w4)"
    and "\<forall>i. answer (replies w i) \<noteq> 0" and "\<forall>i. ret (replies w i) \<noteq> -1"
  shows "held w4 = held w \<and> run_state (unlink s2) w4 = ((Inr (), s2), w4)
    \<and> run_state (close_shm s2) w4 = ((Inr (), s2), w4) \<and> run_state (destroy_segment old) w4 = ((), w4)"
proof (intro conjI)
  note c = run_create_shm [OF assms(1)]
  have s: "seg_owner s" "seg_linked s" "descriptor s \<noteq> -1" "seg_address s \<noteq> 0" "seg_name s = name"
    using c(4) assms(5) by auto
  note u = run_unlink [OF assms(2) s(1,2)]
  have s1: "s1 = s\<lparr>seg_linked := False\<rparr>" using u(5,6) by simp
  have moved: "t = s1" "old = moved_from s1" "w3 = w2" using assms(3) by (auto simp: assign_to_empty)
  have o: "is_open s1" using s by (simp add: s1 is_open_def)
  have "replies w2 = replies w" using c(2) u(3) by (simp add: extends_def)
  then have ok: "ret (replies w2 (length (trace w2))) \<noteq> -1" using assms(6) by simp
  note d = run_close_shm(4) [OF assms(4) [unfolded moved] o ok]
  have res: "segment_resources s1 = segment_resources s" by (simp add: s1 segment_resources_def)
  show "held w4 = held w" using c(1) u(1) d by (simp add: s1 res [unfolded s1])
  have s2: "s2 = s\<lparr>seg_linked := False, seg_address := 0, seg_size := 0, descriptor := -1\<rparr>"
    using d by (simp add: s1)
  then show "run_state (unlink s2) w4 = ((Inr (), s2), w4)" using s by (simp add: unlink_def)
  show "run_state (close_shm s2) w4 = ((Inr (), s2), w4)"
    by (rule close_shm_empty) (simp_all add: s2)
  show "run_state (destroy_segment old) w4 = ((), w4)" unfolding moved by (rule destroy_moved_from)
qed

text \<open>A system that grants everything: descriptor 3, a mapping at the address 4096.\<close>

definition granting :: os where
  "granting = \<lparr>replies = \<lambda>_. \<lparr>ret = 3, errno = 0, answer = 4096, contents = [],
     peer = \<lparr>sin_family = 2, sin_port = 0, sin_addr = 0\<rparr>\<rparr>, trace = []\<rparr>"

theorem segment_life_is_balanced_witness:
  "case run_state (create_shm ''/lle'' 320) granting of (Inr (s, m), w1) \<Rightarrow>
     (case run_state (unlink s) w1 of ((Inr u, s1), w2) \<Rightarrow>
       (case run_state (close_shm s1) w2 of ((r, s2), w3) \<Rightarrow>
         seg_address s = 4096 \<and> held w1 = {#Descriptor 3, Mapping 4096, Shm_name ''/lle''#} \<and> held w3 = {#})
     | _ \<Rightarrow> False) | _ \<Rightarrow> False"
proof -
  have v: "is_shm_name_valid ''/lle''" by code_simp
  obtain s m w1 where c: "run_state (create_shm ''/lle'' 320) granting = (Inr (s, m), w1)"
    and s: "seg_address s = 4096" "seg_owner s" "seg_linked s" "descriptor s = 3"
    and w1: "replies w1 = replies granting"
    by (simp add: create_shm_def v granting_def make_segment_def MAP_FAILED_def)
  obtain u s1 w2 where u: "run_state (unlink s) w1 = ((Inr u, s1), w2)"
    using s w1 by (simp add: unlink_def granting_def)
  obtain r s2 w3 where d: "run_state (close_shm s1) w2 = ((r, s2), w3)"
    by (metis prod.exhaust)
  have g: "held granting = {#}" "\<forall>i. answer (replies granting i) \<noteq> 0" "\<forall>i. ret (replies granting i) \<noteq> -1"
    by (simp_all add: granting_def held_def)
  have "held w3 = {#}" using segment_life_is_balanced [OF c u assign_to_empty d g(2,3)] g(1) by simp
  moreover have "held w1 = {#Descriptor 3, Mapping 4096, Shm_name ''/lle''#}"
    using run_create_shm(1,4) [OF c] valid_name_c_str [OF v] s g
    by (auto simp: segment_resources_def name_resource_def)
  ultimately show ?thesis by (simp add: c u d s)
qed

end
