(* ===== verification/Byte_IO.thy ===== *)
theory Byte_IO
  imports Prelude
begin

text \<open>
  The byte helpers of src/protocol/byte_io.hpp. A pointer \<open>dst + p\<close> is a byte sequence
  and an offset \<open>p\<close>; a write returns the changed sequence. The lemmas relate the helpers
  to the little-endian digits of the value (\<open>le_bytes\<close>) and give the two round trips.
\<close>

section \<open>The helpers\<close>

definition has_bytes :: "size_t \<Rightarrow> size_t \<Rightarrow> size_t \<Rightarrow> bool" where
  "has_bytes sz offset count \<longleftrightarrow> offset \<le> sz \<and> count \<le> sz - offset"

definition write_u16 :: "byte list \<Rightarrow> nat \<Rightarrow> u16 \<Rightarrow> byte list" where
  "write_u16 dst p value = (dst[p := ucast value])[p + 1 := ucast (drop_bit 8 value)]"

definition write_u32 :: "byte list \<Rightarrow> nat \<Rightarrow> u32 \<Rightarrow> byte list" where
  "write_u32 dst p value =
     write_u16 (write_u16 dst p (ucast value)) (p + 2) (ucast (drop_bit 16 value))"

definition write_u64 :: "byte list \<Rightarrow> nat \<Rightarrow> u64 \<Rightarrow> byte list" where
  "write_u64 dst p value =
     write_u32 (write_u32 dst p (ucast value)) (p + 4) (ucast (drop_bit 32 value))"

definition read_u16 :: "byte list \<Rightarrow> nat \<Rightarrow> u16" where
  "read_u16 src p = ucast (src ! p) OR push_bit 8 (ucast (src ! (p + 1)))"

definition read_u32 :: "byte list \<Rightarrow> nat \<Rightarrow> u32" where
  "read_u32 src p = ucast (read_u16 src p) OR push_bit 16 (ucast (read_u16 src (p + 2)))"

definition read_u64 :: "byte list \<Rightarrow> nat \<Rightarrow> u64" where
  "read_u64 src p = ucast (read_u32 src p) OR push_bit 32 (ucast (read_u32 src (p + 4)))"

section \<open>Little-endian digits\<close>

text \<open>The \<open>n\<close> low bytes of a word, least significant first.\<close>

definition le_bytes :: "nat \<Rightarrow> 'a::len word \<Rightarrow> byte list" where
  "le_bytes n w = map (\<lambda>i. ucast (drop_bit (8 * i) w)) [0..<n]"

lemma length_le_bytes [simp]: "length (le_bytes n w) = n"
  by (simp add: le_bytes_def)

lemma bit_nth_le_bytes:
  fixes w :: "'a::len word"
  shows "i < n \<Longrightarrow> bit (le_bytes n w ! i) k \<longleftrightarrow> k < 8 \<and> bit w (8 * i + k)"
  by (auto simp: le_bytes_def bit_simps dest: bit_imp_le_length)

lemma write_u16_bytes: "write_u16 m p v = store_bytes m p (le_bytes 2 v)"
  by (simp add: write_u16_def le_bytes_def numeral_2_eq_2)

lemma store_bytes_append:
  "store_bytes (store_bytes m p as) (p + length as) bs = store_bytes m p (as @ bs)"
  by (induction "as" arbitrary: m p) (simp_all, metis add_Suc)

lemma le_bytes_append:
  fixes w :: "'a::len word"
  assumes "8 * n \<le> LENGTH('b)" and "8 * n' \<le> LENGTH('b)"
  shows "le_bytes n (ucast w :: 'b::len word) @ le_bytes n' (ucast (drop_bit (8 * n) w) :: 'b word) =
    le_bytes (n + n') w"
proof (rule nth_equalityI)
  fix i assume "i < length (le_bytes n (ucast w :: 'b word)
    @ le_bytes n' (ucast (drop_bit (8 * n) w) :: 'b word))"
  then have i: "i < n + n'" by simp
  show "(le_bytes n (ucast w :: 'b word) @ le_bytes n' (ucast (drop_bit (8 * n) w) :: 'b word)) ! i =
    le_bytes (n + n') w ! i"
  proof (rule bit_word_eqI)
    fix k assume k: "k < LENGTH(8)"
    show "bit ((le_bytes n (ucast w :: 'b word)
        @ le_bytes n' (ucast (drop_bit (8 * n) w) :: 'b word)) ! i) k =
      bit (le_bytes (n + n') w ! i) k"
    proof (cases "i < n")
      case True
      then have "8 * i + k < LENGTH('b)" using assms(1) k by simp
      with True i show ?thesis
        by (auto simp: nth_append bit_nth_le_bytes bit_simps dest: bit_imp_le_length)
    next
      case False
      with i have j: "i - n < n'" by simp
      then have "8 * (i - n) + k < LENGTH('b)" using assms(2) k by simp
      moreover have "bit w (8 * n + (8 * (i - n) + k)) = bit w (8 * i + k)"
        using False by (intro arg_cong [where f = "bit w"]) simp
      ultimately show ?thesis
        using False i j k by (simp add: nth_append bit_nth_le_bytes bit_simps)
    qed
  qed
qed simp

lemma write_u32_bytes: "write_u32 m p v = store_bytes m p (le_bytes 4 v)"
  using store_bytes_append [of m p "le_bytes 2 (ucast v :: u16)"]
    le_bytes_append [where 'b = 16, of 2 2 v]
  by (simp add: write_u32_def write_u16_bytes)

lemma write_u64_bytes: "write_u64 m p v = store_bytes m p (le_bytes 8 v)"
  using store_bytes_append [of m p "le_bytes 4 (ucast v :: u32)"]
    le_bytes_append [where 'b = 32, of 4 4 v]
  by (simp add: write_u64_def write_u32_bytes)

lemmas write_bytes = write_u16_bytes write_u32_bytes write_u64_bytes

lemma length_write [simp]:
  "length (write_u16 m p a) = length m"
  "length (write_u32 m p b) = length m"
  "length (write_u64 m p c) = length m"
  by (simp_all add: write_bytes)

section \<open>The bits of a value read\<close>

lemma div_mod_shift: "(8 * j :: nat) \<le> n \<Longrightarrow> n div 8 = j + (n - 8 * j) div 8 \<and> n mod 8 = (n - 8 * j) mod 8"
  by (metis add.commute div_mult_self4 le_add_diff_inverse2 mod_mult_self4 zero_neq_numeral mult.commute)

lemma bit_read_u16: "bit (read_u16 m p) n \<longleftrightarrow> n < 16 \<and> bit (m ! (p + n div 8)) (n mod 8)"
proof (cases "n < 8")
  case True
  then show ?thesis by (auto simp: read_u16_def bit_simps)
next
  case False
  then have s: "n div 8 = 1 + (n - 8) div 8" "n mod 8 = (n - 8) mod 8"
    using div_mod_shift [of 1 n] by auto
  show ?thesis
    using False
    by (cases "n < 16") (auto simp: read_u16_def bit_simps s dest: bit_imp_le_length)
qed

lemma bit_read_u32: "bit (read_u32 m p) n \<longleftrightarrow> n < 32 \<and> bit (m ! (p + n div 8)) (n mod 8)"
proof (cases "n < 16")
  case True
  then show ?thesis by (auto simp: read_u32_def bit_simps bit_read_u16)
next
  case False
  then have s: "n div 8 = 2 + (n - 16) div 8" "n mod 8 = (n - 16) mod 8"
    using div_mod_shift [of 2 n] by auto
  show ?thesis
    using False
    by (cases "n < 32") (auto simp: read_u32_def bit_simps bit_read_u16 s add.assoc)
qed

lemma bit_read_u64: "bit (read_u64 m p) n \<longleftrightarrow> n < 64 \<and> bit (m ! (p + n div 8)) (n mod 8)"
proof (cases "n < 32")
  case True
  then show ?thesis by (auto simp: read_u64_def bit_simps bit_read_u32)
next
  case False
  then have s: "n div 8 = 4 + (n - 32) div 8" "n mod 8 = (n - 32) mod 8"
    using div_mod_shift [of 4 n] by auto
  show ?thesis
    using False
    by (cases "n < 64") (auto simp: read_u64_def bit_simps bit_read_u32 s add.assoc)
qed

section \<open>Round trips\<close>

text \<open>Reads depend on the bytes they cover only.\<close>

lemma read_u16_cong: "(\<And>i. i < 2 \<Longrightarrow> m ! (p + i) = m' ! (p' + i)) \<Longrightarrow> read_u16 m p = read_u16 m' p'"
  by (rule bit_word_eqI) (simp add: bit_read_u16 div_less_iff_less_mult)

lemma read_u32_cong: "(\<And>i. i < 4 \<Longrightarrow> m ! (p + i) = m' ! (p' + i)) \<Longrightarrow> read_u32 m p = read_u32 m' p'"
  by (rule bit_word_eqI) (simp add: bit_read_u32 div_less_iff_less_mult)

lemma read_u64_cong: "(\<And>i. i < 8 \<Longrightarrow> m ! (p + i) = m' ! (p' + i)) \<Longrightarrow> read_u64 m p = read_u64 m' p'"
  by (rule bit_word_eqI) (simp add: bit_read_u64 div_less_iff_less_mult)

lemma read_u16_digits: "(\<And>i. i < 2 \<Longrightarrow> m ! (p + i) = le_bytes 2 (v :: u16) ! i) \<Longrightarrow> read_u16 m p = v"
  by (rule bit_word_eqI) (simp add: bit_read_u16 div_less_iff_less_mult bit_nth_le_bytes)

lemma read_u32_digits: "(\<And>i. i < 4 \<Longrightarrow> m ! (p + i) = le_bytes 4 (v :: u32) ! i) \<Longrightarrow> read_u32 m p = v"
  by (rule bit_word_eqI) (simp add: bit_read_u32 div_less_iff_less_mult bit_nth_le_bytes)

lemma read_u64_digits: "(\<And>i. i < 8 \<Longrightarrow> m ! (p + i) = le_bytes 8 (v :: u64) ! i) \<Longrightarrow> read_u64 m p = v"
  by (rule bit_word_eqI) (simp add: bit_read_u64 div_less_iff_less_mult bit_nth_le_bytes)

lemma digits_read_u16: "i < 2 \<Longrightarrow> le_bytes 2 (read_u16 m p) ! i = m ! (p + i)"
  by (rule bit_word_eqI) (simp add: bit_read_u16 bit_nth_le_bytes)

lemma digits_read_u32: "i < 4 \<Longrightarrow> le_bytes 4 (read_u32 m p) ! i = m ! (p + i)"
  by (rule bit_word_eqI) (simp add: bit_read_u32 bit_nth_le_bytes)

lemma digits_read_u64: "i < 8 \<Longrightarrow> le_bytes 8 (read_u64 m p) ! i = m ! (p + i)"
  by (rule bit_word_eqI) (simp add: bit_read_u64 bit_nth_le_bytes)

lemma le_bytes_read:
  "p + 2 \<le> length m \<Longrightarrow> le_bytes 2 (read_u16 m p) = subspan m p 2"
  "p + 4 \<le> length m \<Longrightarrow> le_bytes 4 (read_u32 m p) = subspan m p 4"
  "p + 8 \<le> length m \<Longrightarrow> le_bytes 8 (read_u64 m p) = subspan m p 8"
  by (rule nth_equalityI;
      simp add: digits_read_u16 digits_read_u32 digits_read_u64 mem_simps)+

lemma read_write_same [mem_simps]:
  "p + 2 \<le> length m \<Longrightarrow> read_u16 (write_u16 m p a) p = a"
  "p + 4 \<le> length m \<Longrightarrow> read_u32 (write_u32 m p b) p = b"
  "p + 8 \<le> length m \<Longrightarrow> read_u64 (write_u64 m p c) p = c"
  by (rule read_u16_digits read_u32_digits read_u64_digits, simp add: write_bytes mem_simps)+

text \<open>Frame rules: a store leaves every read of other bytes as it was.\<close>

lemma read_store_disjoint:
  assumes "p + w \<le> q \<or> q + length bs \<le> p" and "p + w \<le> length m"
  shows "w = 2 \<Longrightarrow> read_u16 (store_bytes m q bs) p = read_u16 m p"
    and "w = 4 \<Longrightarrow> read_u32 (store_bytes m q bs) p = read_u32 m p"
    and "w = 8 \<Longrightarrow> read_u64 (store_bytes m q bs) p = read_u64 m p"
  using assms by (auto intro!: read_u16_cong read_u32_cong read_u64_cong simp: mem_simps)

lemma read_u16_store [mem_simps]:
  "p + 2 \<le> q \<or> q + length bs \<le> p \<Longrightarrow> p + 2 \<le> length m \<Longrightarrow>
     read_u16 (store_bytes m q bs) p = read_u16 m p"
  by (rule read_store_disjoint(1)) auto

lemma read_u32_store [mem_simps]:
  "p + 4 \<le> q \<or> q + length bs \<le> p \<Longrightarrow> p + 4 \<le> length m \<Longrightarrow>
     read_u32 (store_bytes m q bs) p = read_u32 m p"
  by (rule read_store_disjoint(2)) auto

lemma read_u64_store [mem_simps]:
  "p + 8 \<le> q \<or> q + length bs \<le> p \<Longrightarrow> p + 8 \<le> length m \<Longrightarrow>
     read_u64 (store_bytes m q bs) p = read_u64 m p"
  by (rule read_store_disjoint(3)) auto

lemma read_store_digits [mem_simps]:
  "p + 2 \<le> length m \<Longrightarrow> read_u16 (store_bytes m p (le_bytes 2 a)) p = a"
  "p + 4 \<le> length m \<Longrightarrow> read_u32 (store_bytes m p (le_bytes 4 b)) p = b"
  "p + 8 \<le> length m \<Longrightarrow> read_u64 (store_bytes m p (le_bytes 8 c)) p = c"
  using read_write_same [of p m] by (simp_all add: write_bytes)

text \<open>The bounds test has no wrap-around: it is the comparison of the exact sums.\<close>

lemma has_bytes_iff: "has_bytes sz offset count \<longleftrightarrow> unat offset + unat count \<le> unat sz"
  by (auto simp: has_bytes_def word_le_nat_alt unat_sub)

end
