(* ===== verification/Alignment.thy ===== *)
theory Alignment
  imports Prelude
begin

text \<open>
  \<open>lle::detail::align_up\<close> (include/lle/detail/alignment.hpp) on \<open>std::size_t\<close>, with the
  power-of-two facts that the encoder, the decoder and the ring geometry share.
\<close>

definition align_up :: "size_t \<Rightarrow> size_t \<Rightarrow> size_t" where
  "align_up v alignment =
     (let remainder = v AND (alignment - 1)
      in if remainder = 0 then v else v + alignment - remainder)"

section \<open>Powers of two\<close>

text \<open>The bit test for a power of two: \<open>n & (n - 1)\<close> is zero.\<close>

lemma pow2_and_minus_1: "k < LENGTH('a::len) \<Longrightarrow> (2 ^ k :: 'a word) AND (2 ^ k - 1) = 0"
  by (rule bit_word_eqI)
    (auto simp: bit_simps bit_mask_iff simp flip: mask_eq_exp_minus_1)

lemma nat_bit_top: "2 ^ k \<le> (x::nat) \<Longrightarrow> x < 2 ^ Suc k \<Longrightarrow> bit x k"
proof -
  assume "2 ^ k \<le> x" and "x < 2 ^ Suc k"
  then have "x div 2 ^ k = 1"
    by (intro div_nat_eqI) auto
  then show ?thesis by (simp add: bit_iff_odd)
qed

lemma pow2_of_and_minus_1:
  fixes w :: "'a::len word"
  assumes "w \<noteq> 0" and "w AND (w - 1) = 0"
  shows "\<exists>k < LENGTH('a). w = 2 ^ k"
proof -
  from assms(1) have pos: "0 < unat w" by (simp add: unat_gt_0)
  then obtain k where k: "2 ^ k \<le> unat w" "unat w < 2 ^ Suc k"
    using ex_power_ivl1 [of 2 "unat w"] by auto
  have kl: "k < LENGTH('a)"
  proof (rule ccontr)
    assume "\<not> k < LENGTH('a)"
    then have "(2::nat) ^ LENGTH('a) \<le> 2 ^ k" by simp
    with k(1) unsigned_less [of w, where ?'a = nat] show False by linarith
  qed
  have "unat w = 2 ^ k"
  proof (rule ccontr)
    assume "unat w \<noteq> 2 ^ k"
    with k have "2 ^ k \<le> unat w - 1" "unat w - 1 < 2 ^ Suc k" by linarith+
    then have "bit (unat w - 1) k" by (rule nat_bit_top)
    moreover have "bit (unat w) k" using k by (rule nat_bit_top)
    moreover have "unat (w - 1) = unat w - 1"
      using assms(1) by (rule unat_minus_one)
    ultimately have "bit w k" "bit (w - 1) k"
      by (metis bit_unsigned_iff)+
    then have "bit (w AND (w - 1)) k" by (simp add: bit_and_iff)
    with assms(2) show False by simp
  qed
  then have "w = 2 ^ k"
    by (metis of_nat_numeral of_nat_power of_nat_unat ucast_id)
  with kl show ?thesis by blast
qed

lemma pow2_iff:
  fixes w :: "'a::len word"
  assumes "w \<noteq> 0"
  shows "w AND (w - 1) = 0 \<longleftrightarrow> (\<exists>k < LENGTH('a). w = 2 ^ k)"
  using assms pow2_of_and_minus_1 pow2_and_minus_1 by blast

text \<open>Masking with \<open>2 ^ k - 1\<close> is the remainder of a division by \<open>2 ^ k\<close>.\<close>

lemma unat_and_pow2_minus_1 [size_simps]:
  fixes w :: "'a::len word"
  shows "unat (w AND (2 ^ k - 1)) = unat w mod 2 ^ k"
proof -
  have "w AND (2 ^ k - 1) = take_bit k w"
    by (simp add: take_bit_eq_mask mask_eq_exp_minus_1)
  then show ?thesis
    by (simp only: unsigned_take_bit_eq take_bit_nat_def)
qed

lemma unat_pow2 [size_simps]: "k < LENGTH('a::len) \<Longrightarrow> unat (2 ^ k :: 'a word) = 2 ^ k"
  using unat_of_nat [where 'a = 'a, of "2 ^ k"] by simp

section \<open>Rounding up\<close>

text \<open>The rounding on natural numbers that \<open>align_up\<close> implements where it does not wrap.\<close>

definition round_up :: "nat \<Rightarrow> nat \<Rightarrow> nat" where
  "round_up n a = (if n mod a = 0 then n else n + a - n mod a)"

lemma round_up_ge: "0 < a \<Longrightarrow> n \<le> round_up n a"
  by (simp add: round_up_def) (metis le_add_diff mod_le_divisor order.trans le_add1 Nat.add_diff_assoc)

lemma round_up_lt: "0 < a \<Longrightarrow> round_up n a < n + a"
  by (auto simp: round_up_def)

lemma round_up_dvd: "0 < a \<Longrightarrow> a dvd round_up n a"
proof (cases "n mod a = 0")
  case False
  assume "0 < a"
  have "n + a - n mod a = n div a * a + a"
    by (metis add.commute add_diff_cancel_right' div_mult_mod_eq group_cancel.add1)
  with False show ?thesis by (simp add: round_up_def)
qed (auto simp: round_up_def)

lemma round_up_least: "0 < a \<Longrightarrow> a dvd m \<Longrightarrow> n \<le> m \<Longrightarrow> round_up n a \<le> m"
proof -
  assume a: "0 < a" and m: "a dvd m" and nm: "n \<le> m"
  from round_up_dvd [OF a] round_up_lt [OF a] obtain q where q: "round_up n a = a * q"
    and lt: "a * q < n + a" by (metis dvdE)
  from m obtain p where p: "m = a * p" by (metis dvdE)
  with lt nm have "a * q < a * (p + 1)" by simp
  then have "q < p + 1" by (rule mult_less_cancel1 [THEN iffD1, THEN conjunct2])
  with p q show ?thesis by simp
qed

text \<open>
  The refinement: for a power-of-two alignment and a result that fits in \<open>std::size_t\<close>,
  \<open>align_up\<close> rounds up.
\<close>

lemma unat_align_up:
  assumes "k < 64" and "unat v + 2 ^ k < 2 ^ 64 + unat v mod 2 ^ k"
  shows "unat (align_up v (2 ^ k)) = round_up (unat v) (2 ^ k)"
proof -
  let ?r = "v AND (2 ^ k - 1)"
  have r: "unat ?r = unat v mod 2 ^ k" by (simp add: size_simps)
  have p: "unat (2 ^ k :: size_t) = 2 ^ k" using assms(1) by (simp add: unat_pow2)
  have lt: "unat ?r < 2 ^ k" by (simp add: r)
  show ?thesis
  proof (cases "?r = 0")
    case True
    with r show ?thesis by (simp add: align_up_def round_up_def)
  next
    case False
    have eq: "v + 2 ^ k - ?r = v + (2 ^ k - ?r)" by simp
    have d: "unat (2 ^ k - ?r) = 2 ^ k - unat ?r"
      using lt p by (simp add: unat_sub word_le_nat_alt)
    have "unat v + (2 ^ k - unat ?r) < 2 ^ 64" using assms(2) lt r by linarith
    then have "unat (v + (2 ^ k - ?r)) = unat v + (2 ^ k - unat ?r)"
      by (simp add: unat_word_ariths d)
    moreover from False r have "unat v mod 2 ^ k \<noteq> 0" by (metis unat_eq_zero)
    ultimately show ?thesis
      using False lt r by (simp add: align_up_def round_up_def eq)
  qed
qed

end
