(* ===== verification/Protocol_Types.thy ===== *)
theory Protocol_Types
  imports Byte_IO Alignment
begin

text \<open>
  The data of include/lle/event.hpp and include/lle/protocol/types.hpp: events, the LLEP
  version 1 wire constants, the error enumerations and the decoded view. The wire layout of
  docs/protocol.md is stated once, as the byte sequence \<open>packet_of\<close>.
\<close>

section \<open>Events\<close>

text \<open>
  \<open>EventView\<close> refers to its payload through a span. The type parameter is the payload's
  representation: a byte sequence (\<open>event\<close>), or an offset and a length in a shared segment.
\<close>

record 'p event_view =
  stream_id :: u32
  sequence :: u64
  source_timestamp_ns :: u64
  payload :: 'p

type_synonym event = "byte list event_view"

datatype DeliveryMode = BestEffort | ReliableOrdered

datatype PublishResult = Ok | Full | PayloadTooLarge | Closed

section \<open>Wire constants\<close>

definition kMagic :: u8 where "kMagic = 0x4c"
definition kVersion :: u8 where "kVersion = 1"

datatype MessageType = Invalid | Data | Nack

fun message_type_value :: "MessageType \<Rightarrow> u8" where
  "message_type_value Invalid = 0"
| "message_type_value Data = 1"
| "message_type_value Nack = 2"

definition kCommonHeaderBytes :: size_t where "kCommonHeaderBytes = 8"
definition kDataPacketHeaderBytes :: size_t where "kDataPacketHeaderBytes = 16"
definition kDataLevelBytes :: size_t where "kDataLevelBytes = 20"
definition kDataFixedBytes :: size_t where "kDataFixedBytes = 36"
definition kEventFrameHeaderBytes :: size_t where "kEventFrameHeaderBytes = 6"
definition kEventFrameAlignmentBytes :: size_t where "kEventFrameAlignmentBytes = 4"
definition kMaxPacketBytes :: size_t where "kMaxPacketBytes = 1416"
definition kMinDataPacketBytes :: size_t where "kMinDataPacketBytes = 44"
definition kMaxSingleEventPayloadBytes :: size_t where "kMaxSingleEventPayloadBytes = 1374"

lemmas wire_constants =
  kMagic_def kVersion_def kCommonHeaderBytes_def kDataPacketHeaderBytes_def kDataLevelBytes_def
  kDataFixedBytes_def kEventFrameHeaderBytes_def kEventFrameAlignmentBytes_def
  kMaxPacketBytes_def kMinDataPacketBytes_def kMaxSingleEventPayloadBytes_def

section \<open>Errors and decoded views\<close>

datatype EncodeError =
    InvalidSessionId
  | InvalidPacketSequence
  | InvalidEventSequence
  | PayloadTooLarge
  | OutputTooSmall

datatype DecodeError =
    Truncated
  | InvalidMagic
  | UnsupportedVersion
  | UnsupportedType
  | PacketLengthMismatch
  | PacketTooLarge
  | InvalidSessionId
  | InvalidPacketSequence
  | InvalidEventSequence
  | MalformedFrame
  | NonZeroPadding
  | ArithmeticOverflow
  | UnsupportedBatch

record decoded_data_view =
  dd_session_id :: u32
  dd_packet_sequence :: u64
  dd_event :: event

section \<open>The wire layout\<close>

text \<open>The sizes of docs/protocol.md, on natural numbers.\<close>

definition frame_len :: "nat \<Rightarrow> nat" where
  "frame_len n = round_up (6 + n) 4"

definition packet_len :: "nat \<Rightarrow> nat" where
  "packet_len n = 36 + frame_len n"

text \<open>
  The 42 bytes before the payload of a one-event DATA packet, for a packet of \<open>len\<close> bytes
  whose first frame has \<open>n\<close> payload bytes, and the complete padded packet.
\<close>

definition data_header :: "nat \<Rightarrow> u32 \<Rightarrow> u64 \<Rightarrow> event \<Rightarrow> byte list" where
  "data_header len sid seq e =
     [0x4c, 0x11] @ le_bytes 2 (word_of_nat len :: u16) @ le_bytes 4 sid @ le_bytes 8 seq
     @ le_bytes 8 (sequence e) @ le_bytes 8 (source_timestamp_ns e) @ le_bytes 4 (stream_id e)
     @ le_bytes 4 (0 :: u32) @ le_bytes 2 (word_of_nat (length (payload e)) :: u16)"

definition padding_len :: "nat \<Rightarrow> nat" where
  "padding_len n = packet_len n - (42 + n)"

definition first_frame_packet :: "nat \<Rightarrow> u32 \<Rightarrow> u64 \<Rightarrow> event \<Rightarrow> byte list" where
  "first_frame_packet len sid seq e =
     data_header len sid seq e @ payload e @ replicate (padding_len (length (payload e))) 0"

definition packet_of :: "u32 \<Rightarrow> u64 \<Rightarrow> event \<Rightarrow> byte list" where
  "packet_of sid seq e = first_frame_packet (packet_len (length (payload e))) sid seq e"

text \<open>The identities and sizes that version 1 admits.\<close>

definition encodable :: "u32 \<Rightarrow> u64 \<Rightarrow> event \<Rightarrow> bool" where
  "encodable sid seq e \<longleftrightarrow> sid \<noteq> 0 \<and> seq \<noteq> 0 \<and> sequence e \<noteq> 0 \<and> length (payload e) \<le> 1374"

lemma length_data_header [simp]: "length (data_header t sid seq e) = 42"
  by (simp add: data_header_def)

lemma frame_len_bounds: "6 + n \<le> frame_len n" "frame_len n < 10 + n" "4 dvd frame_len n"
  using round_up_ge [of 4 "6 + n"] round_up_lt [of 4 "6 + n"] round_up_dvd [of 4 "6 + n"]
  by (simp_all add: frame_len_def)

lemma packet_len_bounds: "42 + n \<le> packet_len n" "packet_len n < 46 + n" "4 dvd packet_len n"
  using frame_len_bounds [of n] by (auto simp: packet_len_def)

lemma frame_len_max: "n \<le> 1374 \<Longrightarrow> frame_len n \<le> 1380"
  unfolding frame_len_def by (rule round_up_least) auto

lemma packet_len_max: "n \<le> 1374 \<Longrightarrow> packet_len n \<le> 1416"
  using frame_len_max [of n] by (simp add: packet_len_def)

lemma packet_len_min: "44 \<le> packet_len n"
proof -
  from packet_len_bounds(3) obtain q where "packet_len n = 4 * q" by (metis dvdE)
  with packet_len_bounds(1) [of n] show ?thesis by presburger
qed

lemma padding_len: "42 + n + padding_len n = packet_len n" "padding_len n < 4"
  using packet_len_bounds [of n] by (simp_all add: padding_len_def)

lemma length_first_frame_packet [simp]:
  "length (first_frame_packet t sid seq e) = packet_len (length (payload e))"
  using padding_len(1) [of "length (payload e)"] by (simp add: first_frame_packet_def)

lemma length_packet_of [simp]: "length (packet_of sid seq e) = packet_len (length (payload e))"
  by (simp add: packet_of_def)

text \<open>
  The frame size the code computes with \<open>align_up\<close> on \<open>std::size_t\<close> is the layout's; no
  wrap-around happens for the payload sizes the code lets through.
\<close>

lemma unat_align_frame:
  assumes "unat n \<le> 65535"
  shows "unat (align_up (n + 6) 4) = frame_len (unat n)"
proof -
  have "unat (n + 6) = 6 + unat n"
    using assms by (simp add: unat_word_ariths)
  then show ?thesis
    using unat_align_up [of 2 "n + 6"] assms by (simp add: frame_len_def)
qed

lemma frame_sizes:
  fixes ps :: size_t
  assumes "unat ps \<le> 1374"
  shows "unat (align_up (6 + ps) 4) = frame_len (unat ps)"
    and "unat (36 + align_up (6 + ps) 4) = packet_len (unat ps)"
    and "unat (42 + ps) = 42 + unat ps"
    and "unat (36 + align_up (6 + ps) 4 - (42 + ps)) = padding_len (unat ps)"
proof -
  show fs: "unat (align_up (6 + ps) 4) = frame_len (unat ps)"
    using unat_align_frame [of ps] assms by (simp add: add.commute)
  then show e: "unat (36 + align_up (6 + ps) 4) = packet_len (unat ps)"
    using frame_len_max [OF assms] by (simp add: unat_word_ariths packet_len_def)
  show o: "unat (42 + ps) = 42 + unat ps"
    using assms by (simp add: unat_word_ariths)
  have "42 + unat ps \<le> packet_len (unat ps)" by (rule packet_len_bounds)
  then show "unat (36 + align_up (6 + ps) 4 - (42 + ps)) = padding_len (unat ps)"
    using e o by (simp only: unat_sub word_le_nat_alt padding_len_def)
qed

end
