(* ===== verification/Ring_Layout.thy ===== *)
theory Ring_Layout
  imports Protocol_Types
begin

text \<open>
  The shared-memory layout of include/shm/ring_layout.hpp and the geometry of
  \<open>SpscRing::required_bytes\<close>. A mapped segment is its byte sequence; the ring header starts at
  its first byte. Integers in the segment are native; the header asserts a little-endian host, so
  a field is read and written with the little-endian byte functions of Byte_IO at its offset.
\<close>

section \<open>Constants and states\<close>

definition ring_cache_line_bytes :: size_t where "ring_cache_line_bytes = 64"
definition ring_memory_alignment :: size_t where "ring_memory_alignment = 128"
definition ring_layout_version :: u16 where "ring_layout_version = 1"
definition ring_header_bytes :: u16 where "ring_header_bytes = 192"
definition ring_slot_metadata_bytes :: size_t where "ring_slot_metadata_bytes = 32"
definition ring_magic :: "byte list" where "ring_magic = [0x4c, 0x4c, 0x45, 0x31]"

lemmas ring_constants =
  ring_cache_line_bytes_def ring_memory_alignment_def ring_layout_version_def
  ring_header_bytes_def ring_slot_metadata_bytes_def

datatype RingState = Uninitialized | Initializing | Ready | Closed

fun ring_state_value :: "RingState \<Rightarrow> u32" where
  "ring_state_value Uninitialized = 0"
| "ring_state_value Initializing = 1"
| "ring_state_value Ready = 2"
| "ring_state_value RingState.Closed = 3"

section \<open>The fields of a segment\<close>

text \<open>\<open>RingPreamble\<close>, \<open>RingCursor\<close> and \<open>RingHeader\<close>: each field at its asserted offset.\<close>

definition pre_magic :: "byte list \<Rightarrow> byte list" where "pre_magic m = subspan m 0 4"
definition pre_layout_version :: "byte list \<Rightarrow> u16" where "pre_layout_version m = read_u16 m 4"
definition pre_header_bytes :: "byte list \<Rightarrow> u16" where "pre_header_bytes m = read_u16 m 6"
definition pre_segment_bytes :: "byte list \<Rightarrow> u64" where "pre_segment_bytes m = read_u64 m 8"
definition pre_slot_count :: "byte list \<Rightarrow> u32" where "pre_slot_count m = read_u32 m 16"
definition pre_slot_stride :: "byte list \<Rightarrow> u32" where "pre_slot_stride m = read_u32 m 20"
definition pre_slot_payload_capacity :: "byte list \<Rightarrow> u32" where
  "pre_slot_payload_capacity m = read_u32 m 24"
definition pre_reserved :: "byte list \<Rightarrow> u32" where "pre_reserved m = read_u32 m 28"
definition pre_instance_id :: "byte list \<Rightarrow> u64" where "pre_instance_id m = read_u64 m 32"
definition pre_state :: "byte list \<Rightarrow> u32" where "pre_state m = read_u32 m 40"
definition pre_reserved_bytes :: "byte list \<Rightarrow> byte list" where
  "pre_reserved_bytes m = subspan m 44 20"
definition producer_position :: "byte list \<Rightarrow> u64" where "producer_position m = read_u64 m 64"
definition producer_reserved :: "byte list \<Rightarrow> byte list" where
  "producer_reserved m = subspan m 72 56"
definition consumer_position :: "byte list \<Rightarrow> u64" where "consumer_position m = read_u64 m 128"
definition consumer_reserved :: "byte list \<Rightarrow> byte list" where
  "consumer_reserved m = subspan m 136 56"

lemmas preamble_defs = pre_magic_def pre_layout_version_def pre_header_bytes_def
  pre_segment_bytes_def pre_slot_count_def pre_slot_stride_def pre_slot_payload_capacity_def
  pre_reserved_def pre_instance_id_def pre_state_def pre_reserved_bytes_def
  producer_reserved_def consumer_reserved_def

lemmas cursor_defs = producer_position_def consumer_position_def

text \<open>\<open>RingSlotHeader\<close>, at the offset of its slot.\<close>

definition slot_event_sequence :: "byte list \<Rightarrow> nat \<Rightarrow> u64" where
  "slot_event_sequence m s = read_u64 m s"
definition slot_source_timestamp_ns :: "byte list \<Rightarrow> nat \<Rightarrow> u64" where
  "slot_source_timestamp_ns m s = read_u64 m (s + 8)"
definition slot_stream_id :: "byte list \<Rightarrow> nat \<Rightarrow> u32" where
  "slot_stream_id m s = read_u32 m (s + 16)"
definition slot_payload_length :: "byte list \<Rightarrow> nat \<Rightarrow> u32" where
  "slot_payload_length m s = read_u32 m (s + 20)"
definition slot_reserved0 :: "byte list \<Rightarrow> nat \<Rightarrow> u32" where
  "slot_reserved0 m s = read_u32 m (s + 24)"
definition slot_reserved1 :: "byte list \<Rightarrow> nat \<Rightarrow> u32" where
  "slot_reserved1 m s = read_u32 m (s + 28)"

lemmas slot_defs = slot_event_sequence_def slot_source_timestamp_ns_def slot_stream_id_def
  slot_payload_length_def slot_reserved0_def slot_reserved1_def

section \<open>Geometry\<close>

record RingConfig =
  cfg_slot_count :: u32
  cfg_slot_payload_capacity :: u32

datatype RingError = InvalidConfig | SizeOverflow | InvalidMemory | InvalidLayout | NotReady

definition required_bytes :: "RingConfig \<Rightarrow> RingError + size_t" where
  "required_bytes config =
    (let slot_count = cfg_slot_count config
     in if slot_count < 2 \<or> slot_count AND (slot_count - 1) \<noteq> 0 then Inl InvalidConfig
     else
       let max_size = u64_max;
           slot_bytes = ring_slot_metadata_bytes + ucast (cfg_slot_payload_capacity config);
           stride = align_up slot_bytes ring_cache_line_bytes
       in if stride > 4294967295 then Inl SizeOverflow
     else if ucast slot_count > (max_size - ucast ring_header_bytes) div stride
       then Inl SizeOverflow
     else Inr (ucast ring_header_bytes + stride * ucast slot_count))"

text \<open>The stride of docs/memory-model.md, and the slot counts that are allowed.\<close>

definition stride_of :: "nat \<Rightarrow> nat" where
  "stride_of cap = round_up (32 + cap) 64"

definition allowed_count :: "nat \<Rightarrow> bool" where
  "allowed_count n \<longleftrightarrow> (\<exists>k \<in> {1..31}. n = 2 ^ k)"

lemma stride_of_bounds: "32 + cap \<le> stride_of cap" "stride_of cap < 96 + cap" "64 dvd stride_of cap"
  using round_up_ge [of 64 "32 + cap"] round_up_lt [of 64 "32 + cap"] round_up_dvd [of 64 "32 + cap"]
  by (simp_all add: stride_of_def)

lemma allowed_countI: "n = 2 ^ k \<Longrightarrow> 1 \<le> k \<Longrightarrow> k \<le> 31 \<Longrightarrow> allowed_count n"
  by (auto simp: allowed_count_def)

lemma allowed_count_bounds: "allowed_count n \<Longrightarrow> 2 \<le> n \<and> n \<le> 2147483648"
proof -
  assume "allowed_count n"
  then obtain k where k: "1 \<le> k" "k \<le> 31" "n = 2 ^ k" by (auto simp: allowed_count_def)
  have "(2::nat) ^ 1 \<le> 2 ^ k" "(2::nat) ^ k \<le> 2 ^ 31"
    using k by (intro power_increasing; simp)+
  then show ?thesis using k by simp
qed

lemma count_test_iff:
  fixes n :: u32
  shows "\<not> (n < 2 \<or> n AND (n - 1) \<noteq> 0) \<longleftrightarrow> allowed_count (unat n)"
proof
  assume a: "\<not> (n < 2 \<or> n AND (n - 1) \<noteq> 0)"
  then have ge: "2 \<le> unat n" and "n \<noteq> 0" by (auto simp: word_less_nat_alt)
  with a obtain k where k: "k < 32" "n = 2 ^ k" using pow2_iff [of n] by auto
  then have u: "unat n = 2 ^ k" by (simp add: unat_pow2)
  with ge have "k \<noteq> 0" by (intro notI) simp
  with k u show "allowed_count (unat n)" by (intro allowed_countI [of _ k]) auto
next
  assume "allowed_count (unat n)"
  then obtain k where k: "1 \<le> k" "k \<le> 31" "unat n = 2 ^ k" by (auto simp: allowed_count_def)
  then have n: "n = 2 ^ k" using word_of_nat_unat [of n] by simp
  have "2 \<le> unat n" using allowed_count_bounds \<open>allowed_count (unat n)\<close> by blast
  moreover have "n AND (n - 1) = 0"
    unfolding n using k by (intro pow2_and_minus_1) simp
  ultimately show "\<not> (n < 2 \<or> n AND (n - 1) \<noteq> 0)" by (simp add: word_less_nat_alt)
qed

lemma unat_ucast_u32 [size_simps]: "unat (ucast (w :: u32) :: size_t) = unat w"
  using unsigned_less [of w, where ?'a = nat]
  by (simp add: unsigned_ucast_eq take_bit_nat_eq_self_iff)

lemma unat_stride:
  fixes cap :: u32
  shows "unat (align_up (ring_slot_metadata_bytes + ucast cap) ring_cache_line_bytes)
    = stride_of (unat cap)"
proof -
  have lt: "unat cap < 4294967296" using unsigned_less [of cap] by simp
  have u: "unat (ucast cap :: size_t) = unat cap" by (rule unat_ucast_u32)
  have s: "unat (32 + (ucast cap :: size_t)) = 32 + unat cap"
    using lt by (simp add: unat_word_ariths u)
  show ?thesis
    using unat_align_up [of 6 "32 + ucast cap"] lt
    by (simp add: ring_constants s stride_of_def)
qed

text \<open>The size test after the stride test: the product always fits.\<close>

lemma segment_size_fits:
  fixes n st :: nat
  assumes "n \<le> 2147483648" and "st \<le> 4294967295"
  shows "192 + st * n < 2 ^ 64" and "0 < st \<Longrightarrow> n \<le> (18446744073709551615 - 192) div st"
proof -
  have p: "st * n \<le> 4294967295 * 2147483648"
    using assms by (intro mult_le_mono) auto
  then show "192 + st * n < 2 ^ 64" by simp
  assume "0 < st"
  then show "n \<le> (18446744073709551615 - 192) div st"
    using p by (subst less_eq_div_iff_mult_less_eq) (auto simp: mult.commute)
qed

lemma required_bytes_eq:
  "required_bytes config =
    (if \<not> allowed_count (unat (cfg_slot_count config)) then Inl InvalidConfig
     else if 4294967295 < stride_of (unat (cfg_slot_payload_capacity config)) then Inl SizeOverflow
     else Inr (word_of_nat (192 + stride_of (unat (cfg_slot_payload_capacity config))
            * unat (cfg_slot_count config))))"
proof -
  let ?c = "cfg_slot_count config" and ?cap = "cfg_slot_payload_capacity config"
  define st where "st = align_up (ring_slot_metadata_bytes + ucast ?cap) ring_cache_line_bytes"
  have us: "unat st = stride_of (unat ?cap)" unfolding st_def by (rule unat_stride)
  have pos: "0 < unat st" using stride_of_bounds(1) [of "unat ?cap"] us by simp
  have big: "st > 4294967295 \<longleftrightarrow> 4294967295 < stride_of (unat ?cap)"
    by (simp add: word_less_nat_alt us)
  have h: "(ucast ring_header_bytes :: size_t) = 192" by (simp add: ring_constants)
  have fits: "\<not> (ucast ?c > (u64_max - 192) div st)"
    if "allowed_count (unat ?c)" "\<not> st > 4294967295"
    using segment_size_fits(2) [of "unat ?c" "unat st"] allowed_count_bounds [OF that(1)] pos that(2)
    by (simp add: word_less_nat_alt unat_ucast_u32 unat_div)
  have val: "192 + st * ucast ?c = word_of_nat (192 + stride_of (unat ?cap) * unat ?c)"
    by (subst word_of_nat_unat [OF us], subst word_of_nat_unat [OF unat_ucast_u32 [of ?c]]) simp
  show ?thesis
    unfolding required_bytes_def Let_def st_def [symmetric] h
    using count_test_iff [of ?c] fits by (auto simp: big val)
qed

text \<open>
  \<open>required_bytes\<close> accepts exactly the slot counts that are powers of two from 2 to 2^31
  whose stride, 32 metadata bytes plus the payload capacity rounded up to 64, fits 32 bits. The
  size it returns is exactly the header plus one stride per slot: the multiplication never wraps,
  and on a 64-bit host the second overflow test never rejects a configuration the first let through.
\<close>

theorem required_bytes_exact:
  "case required_bytes config of
     Inr sz \<Rightarrow> allowed_count (unat (cfg_slot_count config))
       \<and> stride_of (unat (cfg_slot_payload_capacity config)) < 2 ^ 32
       \<and> unat sz = 192 + unat (cfg_slot_count config)
           * stride_of (unat (cfg_slot_payload_capacity config))
   | Inl InvalidConfig \<Rightarrow> \<not> allowed_count (unat (cfg_slot_count config))
   | Inl SizeOverflow \<Rightarrow> allowed_count (unat (cfg_slot_count config))
       \<and> 2 ^ 32 \<le> stride_of (unat (cfg_slot_payload_capacity config))
   | Inl _ \<Rightarrow> False"
proof -
  let ?n = "unat (cfg_slot_count config)" and ?st = "stride_of (unat (cfg_slot_payload_capacity config))"
  have "unat (word_of_nat (192 + ?st * ?n) :: size_t) = 192 + ?n * ?st"
    if "allowed_count ?n" "\<not> 4294967295 < ?st"
    using segment_size_fits(1) [of ?n ?st] allowed_count_bounds [OF that(1)] that(2)
    by (simp only: unat_of_nat mult.commute [of ?n ?st]) simp
  then show ?thesis by (simp add: required_bytes_eq)
qed

end
