(* ===== verification/Spsc_Ring.thy ===== *)
theory Spsc_Ring
  imports Ring_Layout
begin

text \<open>
  \<open>SpscRing\<close> (include/shm/spsc_ring.hpp, src/shm/spsc_ring.cpp): the handle a process holds on a
  ring and its operations on the shared segment \<open>m\<close>. Each operation takes the segment and the
  handle and returns what it changed. The two pointers of a handle are the flag \<open>has_header\<close>
  (the header pointer is not null, and points to the first byte of the segment) and the offset of
  the slots; the payload span of an acquired event is an offset and a length in the segment.
\<close>

section \<open>The handle\<close>

record SpscRing =
  has_header :: bool
  slots_offset :: nat
  r_slot_count :: u32
  r_slot_stride :: u32
  r_slot_payload_capacity :: u32
  cached_read_position :: u64
  cached_write_position :: u64
  acquired_position :: u64
  acquired :: bool
  initializer :: bool

datatype AcquireError = Empty | Closed | AlreadyAcquired | InvalidSlot

type_synonym slot_view = "(nat \<times> nat) event_view"

text \<open>The private constructor: geometry is copied from the preamble, the rest has defaults.\<close>

definition make_ring :: "byte list \<Rightarrow> bool \<Rightarrow> SpscRing" where
  "make_ring m init =
     \<lparr>has_header = True, slots_offset = unat ring_header_bytes, r_slot_count = pre_slot_count m,
      r_slot_stride = pre_slot_stride m, r_slot_payload_capacity = pre_slot_payload_capacity m,
      cached_read_position = 0, cached_write_position = 0, acquired_position = 0,
      acquired = False, initializer = init\<rparr>"

text \<open>The move constructor: the new handle takes every member, the old one is left empty.\<close>

definition empty_ring :: SpscRing where
  "empty_ring =
     \<lparr>has_header = False, slots_offset = 0, r_slot_count = 0, r_slot_stride = 0,
      r_slot_payload_capacity = 0, cached_read_position = 0, cached_write_position = 0,
      acquired_position = 0, acquired = False, initializer = False\<rparr>"

definition move_ring :: "SpscRing \<Rightarrow> SpscRing \<times> SpscRing" where
  "move_ring other = (other, empty_ring)"

section \<open>Setup\<close>

definition fill_preamble :: "byte list \<Rightarrow> size_t \<Rightarrow> RingConfig \<Rightarrow> u64 \<Rightarrow> byte list" where
  "fill_preamble m sz config instance_id =
    (let m = store_bytes m 0 ring_magic;
         m = write_u16 m 4 ring_layout_version;
         m = write_u16 m 6 ring_header_bytes;
         m = write_u64 m 8 sz;
         m = write_u32 m 16 (cfg_slot_count config);
         m = write_u32 m 20 (ucast ((sz - ucast ring_header_bytes) div ucast (cfg_slot_count config)));
         m = write_u32 m 24 (cfg_slot_payload_capacity config);
         m = write_u32 m 28 0;
         m = write_u64 m 32 instance_id;
         m = fill_bytes m 44 20 0
     in write_u32 m 40 (ring_state_value Initializing))"

text \<open>A span of memory is its address (zero for the null pointer) and its bytes.\<close>

definition invalid_memory :: "u64 \<Rightarrow> byte list \<Rightarrow> bool" where
  "invalid_memory addr m \<longleftrightarrow>
     addr = 0 \<or> span_size m < ucast ring_header_bytes \<or> addr mod ring_memory_alignment \<noteq> 0"

definition invalid_layout :: "byte list \<Rightarrow> bool" where
  "invalid_layout m \<longleftrightarrow>
     pre_magic m \<noteq> ring_magic \<or> pre_layout_version m \<noteq> ring_layout_version
     \<or> pre_header_bytes m \<noteq> ring_header_bytes \<or> pre_instance_id m = 0 \<or> pre_reserved m \<noteq> 0"

definition validate_state :: "u32 \<Rightarrow> RingError + unit" where
  "validate_state state =
    (if state = ring_state_value Uninitialized \<or> state = ring_state_value Initializing
       then Inl NotReady
     else if state \<noteq> ring_state_value Ready \<and> state \<noteq> ring_state_value RingState.Closed
       then Inl InvalidLayout
     else Inr ())"

text \<open>The loop that constructs the slot headers in place, each value-initialized to zero.\<close>

definition init_slots :: "byte list \<Rightarrow> nat \<Rightarrow> byte list" where
  "init_slots m count =
     fold (\<lambda>index m. fill_bytes m (unat ring_header_bytes + index * unat (pre_slot_stride m)) 32 0)
       [0..<count] m"

definition initialize_ring ::
  "u64 \<Rightarrow> byte list \<Rightarrow> RingConfig \<Rightarrow> u64 \<Rightarrow> (RingError + SpscRing) \<times> byte list" where
  "initialize_ring addr m config instance_id =
    (if instance_id = 0 then (Inl InvalidConfig, m)
     else case required_bytes config of
       Inl err \<Rightarrow> (Inl err, m)
     | Inr sz \<Rightarrow>
       if invalid_memory addr m \<or> span_size m \<noteq> sz then (Inl InvalidMemory, m)
       else
         let m = fill_bytes m 0 192 0;
             m = fill_preamble m sz config instance_id;
             m = write_u64 m 64 0;
             m = write_u64 m 128 0;
             m = init_slots m (unat (cfg_slot_count config));
             m = write_u32 m 40 (ring_state_value Ready)
         in (Inr (make_ring m True), m))"

definition attach_ring :: "u64 \<Rightarrow> byte list \<Rightarrow> RingError + SpscRing" where
  "attach_ring addr m =
    (if invalid_memory addr m then Inl InvalidMemory
     else case validate_state (pre_state m) of
       Inl err \<Rightarrow> Inl err
     | Inr _ \<Rightarrow>
       if invalid_layout m then Inl InvalidLayout
       else if \<not> list_all (\<lambda>b. b = 0) (pre_reserved_bytes m)
         \<or> \<not> list_all (\<lambda>b. b = 0) (producer_reserved m)
         \<or> \<not> list_all (\<lambda>b. b = 0) (consumer_reserved m) then Inl InvalidLayout
       else
         let config = \<lparr>cfg_slot_count = pre_slot_count m,
               cfg_slot_payload_capacity = pre_slot_payload_capacity m\<rparr>
         in case required_bytes config of
              Inl _ \<Rightarrow> Inl InvalidLayout
            | Inr sz \<Rightarrow>
              let stride = (sz - ucast ring_header_bytes) div ucast (cfg_slot_count config)
              in if ucast (pre_slot_stride m) \<noteq> stride \<or> pre_segment_bytes m \<noteq> sz
                   then Inl InvalidLayout
                 else if span_size m \<noteq> sz then Inl InvalidMemory
                 else Inr (make_ring m False))"

definition close_publication :: "byte list \<Rightarrow> SpscRing \<Rightarrow> bool \<times> byte list" where
  "close_publication m r =
    (if \<not> initializer r then (False, m)
     else (True, write_u32 m 40 (ring_state_value RingState.Closed)))"

section \<open>The operations of the data path\<close>

definition fill_slot_header :: "byte list \<Rightarrow> nat \<Rightarrow> event \<Rightarrow> byte list" where
  "fill_slot_header m s event =
    (let m = write_u64 m s (sequence event);
         m = write_u64 m (s + 8) (source_timestamp_ns event);
         m = write_u32 m (s + 16) (stream_id event)
     in write_u32 m (s + 20) (ucast (span_size (payload event))))"

definition invalid_slot :: "byte list \<Rightarrow> nat \<Rightarrow> u32 \<Rightarrow> bool" where
  "invalid_slot m s payload_capacity \<longleftrightarrow>
     slot_payload_length m s > payload_capacity \<or> slot_reserved0 m s \<noteq> 0 \<or> slot_reserved1 m s \<noteq> 0"

text \<open>The slot of a logical position.\<close>

definition slot_of :: "SpscRing \<Rightarrow> u64 \<Rightarrow> nat" where
  "slot_of r pos =
     slots_offset r + unat (ucast (r_slot_stride r) * (pos AND ucast (r_slot_count r - 1)))"

text \<open>\<open>try_publish\<close> from the choice of the slot on.\<close>

definition write_slot :: "byte list \<Rightarrow> SpscRing \<Rightarrow> u64 \<Rightarrow> event \<Rightarrow> byte list" where
  "write_slot m r write_pos event =
    (let slot = slot_of r write_pos;
         m = fill_slot_header m slot event;
         m = (if payload event \<noteq> []
              then store_bytes m (slot + unat ring_slot_metadata_bytes) (payload event) else m)
     in write_u64 m 64 (write_pos + 1))"

definition try_publish ::
  "byte list \<Rightarrow> SpscRing \<Rightarrow> event \<Rightarrow> PublishResult \<times> byte list \<times> SpscRing" where
  "try_publish m r event =
    (if \<not> has_header r then (PublishResult.Closed, m, r)
     else if pre_state m \<noteq> ring_state_value Ready then (PublishResult.Closed, m, r)
     else if span_size (payload event) > ucast (r_slot_payload_capacity r)
       then (PublishResult.PayloadTooLarge, m, r)
     else
       let write_pos = producer_position m
       in if write_pos = u64_max then (PublishResult.Closed, m, r)
     else if write_pos - cached_read_position r \<ge> ucast (r_slot_count r) then
       let r = r\<lparr>cached_read_position := consumer_position m\<rparr>
       in if cached_read_position r > write_pos
             \<or> write_pos - cached_read_position r > ucast (r_slot_count r)
            then (PublishResult.Closed, m, r)
          else if write_pos - cached_read_position r = ucast (r_slot_count r) then (Full, m, r)
          else (Ok, write_slot m r write_pos event, r)
     else (Ok, write_slot m r write_pos event, r))"

text \<open>\<open>try_acquire\<close> from the check of the two cursors on.\<close>

definition read_slot ::
  "byte list \<Rightarrow> SpscRing \<Rightarrow> u64 \<Rightarrow> (AcquireError + slot_view) \<times> SpscRing" where
  "read_slot m r read_pos =
    (if read_pos > cached_write_position r
        \<or> cached_write_position r - read_pos > ucast (r_slot_count r) then (Inl InvalidSlot, r)
     else
       let slot = slot_of r read_pos
       in if invalid_slot m slot (r_slot_payload_capacity r) then (Inl InvalidSlot, r)
          else (Inr \<lparr>stream_id = slot_stream_id m slot, sequence = slot_event_sequence m slot,
                  source_timestamp_ns = slot_source_timestamp_ns m slot,
                  payload = (slot + unat ring_slot_metadata_bytes, unat (slot_payload_length m slot))\<rparr>,
                r\<lparr>acquired_position := read_pos, acquired := True\<rparr>))"

definition try_acquire ::
  "byte list \<Rightarrow> SpscRing \<Rightarrow> (AcquireError + slot_view) \<times> SpscRing" where
  "try_acquire m r =
    (if \<not> has_header r then (Inl Closed, r)
     else if acquired r then (Inl AlreadyAcquired, r)
     else
       let read_pos = consumer_position m
       in if read_pos \<ge> cached_write_position r then
            let state = pre_state m;
                r = r\<lparr>cached_write_position := producer_position m\<rparr>
            in if read_pos = cached_write_position r
                 then (Inl (if state = ring_state_value RingState.Closed then Closed else Empty), r)
               else read_slot m r read_pos
          else read_slot m r read_pos)"

definition release :: "byte list \<Rightarrow> SpscRing \<Rightarrow> bool \<times> byte list \<times> SpscRing" where
  "release m r =
    (if \<not> acquired r then (False, m, r)
     else (True, write_u64 m 128 (acquired_position r + 1),
           r\<lparr>acquired := False, acquired_position := 0\<rparr>))"

text \<open>Reading through the view of an acquired event: the bytes its payload span covers now.\<close>

definition deref :: "byte list \<Rightarrow> slot_view \<Rightarrow> event" where
  "deref m v = \<lparr>stream_id = stream_id v, sequence = sequence v,
     source_timestamp_ns = source_timestamp_ns v,
     payload = subspan m (fst (payload v)) (snd (payload v))\<rparr>"

end
