(* ===== verification/Ring_Slots.thy ===== *)
theory Ring_Slots
  imports Spsc_Ring
begin

text \<open>
  Where the slots of a ring lie and what the stores of the data path change. A geometry is a slot
  count, a stride and a payload capacity; the lemmas show that the code's index arithmetic on
  words is the position modulo the slot count, that slots lie in the segment and apart, and that
  \<open>write_slot\<close> writes its own slot and the producer cursor and nothing else.
\<close>

section \<open>Geometry of a segment and its handles\<close>

definition geometry :: "nat \<Rightarrow> nat \<Rightarrow> nat \<Rightarrow> byte list \<Rightarrow> bool" where
  "geometry n st cap m \<longleftrightarrow>
     allowed_count n \<and> st = stride_of cap \<and> st < 2 ^ 32 \<and> length m = 192 + n * st"

definition handle_ok :: "nat \<Rightarrow> nat \<Rightarrow> nat \<Rightarrow> SpscRing \<Rightarrow> bool" where
  "handle_ok n st cap r \<longleftrightarrow>
     has_header r \<and> slots_offset r = 192 \<and> unat (r_slot_count r) = n
     \<and> unat (r_slot_stride r) = st \<and> unat (r_slot_payload_capacity r) = cap"

text \<open>The offset of the slot of a position.\<close>

definition slot_at :: "nat \<Rightarrow> nat \<Rightarrow> nat \<Rightarrow> nat" where
  "slot_at n st i = 192 + st * (i mod n)"

lemma geometryD:
  assumes "geometry n st cap m"
  shows "2 \<le> n" "n \<le> 2147483648" "32 + cap \<le> st" "st < 4294967296" "length m = 192 + n * st"
    and "cap < 4294967296"
  using assms allowed_count_bounds [of n] stride_of_bounds(1) [of cap]
  by (auto simp: geometry_def)

lemma slot_in_segment: "geometry n st cap m \<Longrightarrow> slot_at n st i + st \<le> length m"
proof -
  assume g: "geometry n st cap m"
  have "i mod n + 1 \<le> n" using geometryD(1) [OF g] by (simp add: Suc_le_eq)
  then have "st * (i mod n + 1) \<le> st * n" by (intro mult_le_mono) auto
  then show ?thesis using geometryD(5) [OF g] by (simp add: slot_at_def algebra_simps)
qed

lemma slots_apart:
  "i mod n \<noteq> j mod n \<Longrightarrow> slot_at n st i + st \<le> slot_at n st j \<or> slot_at n st j + st \<le> slot_at n st i"
proof -
  have *: "st * a + st \<le> st * b" if "a < b" for a b :: nat
    using that mult_le_mono2 [of "a + 1" b st] by simp
  assume "i mod n \<noteq> j mod n"
  then consider "i mod n < j mod n" | "j mod n < i mod n" by linarith
  then show ?thesis by cases (auto simp: slot_at_def dest: *)
qed

text \<open>Positions less than one round apart have different slots.\<close>

lemma distinct_slots: "i < j \<Longrightarrow> j < i + n \<Longrightarrow> i mod n \<noteq> j mod (n :: nat)"
  by (metis add_diff_inverse_nat less_diff_conv2 mod_eq_dvd_iff_nat nat_dvd_not_less
      nat_less_le not_less_iff_gr_or_eq zero_less_diff add.commute less_imp_le_nat)

lemma slot_at_ge: "192 \<le> slot_at n st i"
  by (simp add: slot_at_def)

text \<open>The code's index arithmetic.\<close>

lemma unat_index:
  assumes "allowed_count (unat (c :: u32))"
  shows "unat (pos AND ucast (c - 1) :: u64) = unat pos mod unat c"
proof -
  from assms obtain k where k: "1 \<le> k" "k \<le> 31" "unat c = 2 ^ k" by (auto simp: allowed_count_def)
  then have c: "c = 2 ^ k" using word_of_nat_unat [of c] by simp
  have "ucast ((2 :: u32) ^ k - 1) = (2 ^ k - 1 :: u64)"
    using k by (intro bit_word_eqI) (auto simp: bit_simps bit_mask_iff simp flip: mask_eq_exp_minus_1)
  then show ?thesis by (simp add: c unat_and_pow2_minus_1 unat_pow2 k flip: k(3))
qed

lemma slot_of_eq:
  assumes "geometry n st cap m" and "handle_ok n st cap r"
  shows "slot_of r pos = slot_at n st (unat pos)"
proof -
  let ?i = "pos AND ucast (r_slot_count r - 1)" and ?s = "ucast (r_slot_stride r) :: u64"
  have h: "slots_offset r = 192" "unat (r_slot_count r) = n" "unat (r_slot_stride r) = st"
    using assms(2) by (simp_all add: handle_ok_def)
  have i: "unat ?i = unat pos mod n"
    using assms(1) unat_index [of "r_slot_count r" pos] h by (simp add: geometry_def)
  have "unat pos mod n < n" using geometryD(1) [OF assms(1)] by simp
  then have "st * (unat pos mod n) \<le> 4294967296 * 2147483648"
    using geometryD(2,4) [OF assms(1)] by (intro mult_le_mono) auto
  then have "unat (?s * ?i) = st * (unat pos mod n)"
    by (simp add: unat_word_ariths unat_ucast_u32 h i)
  then show ?thesis by (simp add: slot_of_def slot_at_def h)
qed

section \<open>The event in a slot\<close>

definition slot_event :: "byte list \<Rightarrow> nat \<Rightarrow> event" where
  "slot_event m s =
     \<lparr>stream_id = slot_stream_id m s, sequence = slot_event_sequence m s,
      source_timestamp_ns = slot_source_timestamp_ns m s,
      payload = subspan m (s + 32) (unat (slot_payload_length m s))\<rparr>"

text \<open>What a slot holds depends on its own bytes only.\<close>

lemma slot_fields_cong:
  assumes "\<And>j. s \<le> j \<Longrightarrow> j < s + st \<Longrightarrow> m' ! j = m ! j" and "32 \<le> st"
  shows "slot_event_sequence m' s = slot_event_sequence m s"
    and "slot_source_timestamp_ns m' s = slot_source_timestamp_ns m s"
    and "slot_stream_id m' s = slot_stream_id m s"
    and "slot_payload_length m' s = slot_payload_length m s"
    and "slot_reserved0 m' s = slot_reserved0 m s" and "slot_reserved1 m' s = slot_reserved1 m s"
  using assms(2)
  by (auto simp: slot_defs intro!: read_u32_cong read_u64_cong assms(1))

lemma slot_event_cong:
  assumes "\<And>j. s \<le> j \<Longrightarrow> j < s + st \<Longrightarrow> m' ! j = m ! j"
    and "length m' = length m" and "s + st \<le> length m"
    and "32 + unat (slot_payload_length m s) \<le> st"
  shows "slot_event m' s = slot_event m s"
proof -
  have "32 \<le> st" using assms(4) by simp
  note f = slot_fields_cong [OF assms(1) this]
  have "subspan m' (s + 32) (unat (slot_payload_length m s)) =
      subspan m (s + 32) (unat (slot_payload_length m s))"
    using assms by (intro subspan_eqI) auto
  with f show ?thesis by (simp add: slot_event_def)
qed

section \<open>What a publication writes\<close>

lemma length_write_slot [simp]: "length (write_slot m r pos e) = length m"
  by (simp add: write_slot_def fill_slot_header_def Let_def)

text \<open>All writes of a publication are in its slot and in the producer cursor.\<close>

lemma write_slot_frame:
  assumes s: "slot_of r pos = s" and "length (payload e) + 32 \<le> st"
    and "j < length m" and "j < s \<or> s + st \<le> j" and "j < 64 \<or> 72 \<le> j"
  shows "write_slot m r pos e ! j = m ! j"
proof -
  note w = write_slot_def Let_def s fill_slot_header_def write_bytes
  show ?thesis
    using assms(4,5)
    by (elim disjE) (use assms(2,3) in \<open>simp_all add: w nth_store_outside ring_constants\<close>)
qed

lemma write_slot_position:
  "72 \<le> length m \<Longrightarrow> producer_position (write_slot m r pos e) = pos + 1"
  by (simp add: write_slot_def Let_def producer_position_def mem_simps fill_slot_header_def)

text \<open>The slot then holds the event, with the reserved words as before.\<close>

lemma write_slot_event:
  assumes s: "slot_of r pos = s" and "192 \<le> s" and "s + st \<le> length m"
    and "length (payload e) + 32 \<le> st" and "st < 4294967296"
  shows "slot_event (write_slot m r pos e) s = e"
    and "unat (slot_payload_length (write_slot m r pos e) s) = length (payload e)"
    and "slot_reserved0 (write_slot m r pos e) s = slot_reserved0 m s"
    and "slot_reserved1 (write_slot m r pos e) s = slot_reserved1 m s"
proof -
  have pl: "(if payload e \<noteq> [] then store_bytes a b (payload e) else a) = store_bytes a b (payload e)"
    for a b by simp
  note w = write_slot_def Let_def s fill_slot_header_def pl slot_defs write_bytes
  have u: "unat (ucast (span_size (payload e)) :: u32) = length (payload e)"
    using assms(4,5) by (simp add: span_size_def ucast_of_nat unat_of_nat)
  have len: "slot_payload_length (write_slot m r pos e) s = ucast (span_size (payload e))"
    using assms(2-4) by (simp add: w mem_simps ring_constants)
  then show l: "unat (slot_payload_length (write_slot m r pos e) s) = length (payload e)"
    by (simp add: u)
  show "slot_reserved0 (write_slot m r pos e) s = slot_reserved0 m s"
    "slot_reserved1 (write_slot m r pos e) s = slot_reserved1 m s"
    using assms(2-4) by (simp_all add: w mem_simps ring_constants)
  have f: "slot_stream_id (write_slot m r pos e) s = stream_id e"
    "slot_event_sequence (write_slot m r pos e) s = sequence e"
    "slot_source_timestamp_ns (write_slot m r pos e) s = source_timestamp_ns e"
    using assms(2-4) by (simp_all add: w mem_simps ring_constants)
  have "subspan (write_slot m r pos e) (s + 32) (length (payload e)) = payload e"
    using assms(2-4) by (simp add: w mem_simps ring_constants subspan_store_disjoint)
  with f l show "slot_event (write_slot m r pos e) s = e" by (simp add: slot_event_def)
qed

end
