(* ===== verification/Ring_Queue.thy ===== *)
theory Ring_Queue
  imports Ring_Slots
begin

text \<open>
  The ring as a bounded queue of events. The invariant says how the two cursors, the handles and
  the slots fit together; the lemmas decide \<open>try_publish\<close>, \<open>try_acquire\<close> and \<open>release\<close> on every
  branch as operations on the list of events between the cursors.
\<close>

section \<open>The invariant\<close>

definition slot_valid :: "nat \<Rightarrow> byte list \<Rightarrow> nat \<Rightarrow> bool" where
  "slot_valid cap m s \<longleftrightarrow>
     unat (slot_payload_length m s) \<le> cap \<and> slot_reserved0 m s = 0 \<and> slot_reserved1 m s = 0"

definition ring_ok :: "nat \<Rightarrow> nat \<Rightarrow> nat \<Rightarrow> byte list \<Rightarrow> bool" where
  "ring_ok n st cap m \<longleftrightarrow> geometry n st cap m
     \<and> unat (consumer_position m) \<le> unat (producer_position m)
     \<and> unat (producer_position m) \<le> unat (consumer_position m) + n
     \<and> (\<forall>i. slot_valid cap m (slot_at n st i))"

definition producer_ok :: "nat \<Rightarrow> nat \<Rightarrow> nat \<Rightarrow> byte list \<Rightarrow> SpscRing \<Rightarrow> bool" where
  "producer_ok n st cap m p \<longleftrightarrow> handle_ok n st cap p
     \<and> unat (cached_read_position p) \<le> unat (consumer_position m)"

definition consumer_ok :: "nat \<Rightarrow> nat \<Rightarrow> nat \<Rightarrow> byte list \<Rightarrow> SpscRing \<Rightarrow> bool" where
  "consumer_ok n st cap m c \<longleftrightarrow> handle_ok n st cap c
     \<and> unat (cached_write_position c) \<le> unat (producer_position m)
     \<and> (acquired c \<longrightarrow> acquired_position c = consumer_position m
          \<and> unat (consumer_position m) < unat (producer_position m))"

definition ring_items :: "nat \<Rightarrow> nat \<Rightarrow> byte list \<Rightarrow> event list" where
  "ring_items n st m = map (\<lambda>i. slot_event m (slot_at n st i))
     [unat (consumer_position m)..<unat (producer_position m)]"

text \<open>The view \<open>try_acquire\<close> gives of a slot.\<close>

definition view_of :: "byte list \<Rightarrow> nat \<Rightarrow> slot_view" where
  "view_of m s = \<lparr>stream_id = slot_stream_id m s, sequence = slot_event_sequence m s,
     source_timestamp_ns = slot_source_timestamp_ns m s,
     payload = (s + 32, unat (slot_payload_length m s))\<rparr>"

lemma deref_view_of [simp]: "deref m (view_of m s) = slot_event m s"
  by (simp add: deref_def view_of_def slot_event_def)

lemma length_ring_items [simp]:
  "length (ring_items n st m) = unat (producer_position m) - unat (consumer_position m)"
  by (simp add: ring_items_def)

lemma invalid_slot_iff: "invalid_slot m s c \<longleftrightarrow> \<not> slot_valid (unat c) m s"
  by (auto simp: invalid_slot_def slot_valid_def word_less_nat_alt)

lemma slot_valid_cong:
  assumes "\<And>j. s \<le> j \<Longrightarrow> j < s + st \<Longrightarrow> m' ! j = m ! j" and "32 \<le> st"
  shows "slot_valid cap m' s = slot_valid cap m s"
  by (simp add: slot_valid_def slot_fields_cong [OF assms])

text \<open>Segments that agree outside the producer cursor and one slot.\<close>

lemma slot_of_handle_update [simp]:
  "slot_of (r\<lparr>cached_read_position := a\<rparr>) pos = slot_of r pos"
  "slot_of (r\<lparr>cached_write_position := a\<rparr>) pos = slot_of r pos"
  by (simp_all add: slot_of_def)

lemma write_slot_handle_update [simp]:
  "write_slot m (r\<lparr>cached_read_position := a\<rparr>) pos e = write_slot m r pos e"
  by (simp add: write_slot_def Let_def)

lemma handle_ok_update [simp]:
  "handle_ok n st cap (r\<lparr>cached_read_position := a\<rparr>) = handle_ok n st cap r"
  "handle_ok n st cap (r\<lparr>cached_write_position := a\<rparr>) = handle_ok n st cap r"
  "handle_ok n st cap (r\<lparr>acquired := b\<rparr>) = handle_ok n st cap r"
  "handle_ok n st cap (r\<lparr>acquired_position := a\<rparr>) = handle_ok n st cap r"
  by (simp_all add: handle_ok_def)

section \<open>A publication\<close>

text \<open>The conditions under which \<open>try_publish\<close> writes the event.\<close>

definition publishable :: "nat \<Rightarrow> nat \<Rightarrow> nat \<Rightarrow> byte list \<Rightarrow> SpscRing \<Rightarrow> event \<Rightarrow> bool" where
  "publishable n st cap m p e \<longleftrightarrow> ring_ok n st cap m \<and> handle_ok n st cap p
     \<and> producer_position m \<noteq> u64_max
     \<and> unat (producer_position m) < unat (consumer_position m) + n
     \<and> length (payload e) \<le> cap"

text \<open>The segment after the publication, and the slot that it writes.\<close>

definition published_ring :: "byte list \<Rightarrow> SpscRing \<Rightarrow> event \<Rightarrow> byte list" where
  "published_ring m p e = write_slot m p (producer_position m) e"

definition next_slot :: "nat \<Rightarrow> nat \<Rightarrow> byte list \<Rightarrow> nat" where
  "next_slot n st m = slot_at n st (unat (producer_position m))"

lemma publishableD:
  assumes "publishable n st cap m p e"
  shows "ring_ok n st cap m" "handle_ok n st cap p" "geometry n st cap m"
    and "192 \<le> length m" "192 \<le> next_slot n st m" "next_slot n st m + st \<le> length m"
    and "length (payload e) + 32 \<le> st" "32 \<le> st" "st < 4294967296"
    and "slot_of p (producer_position m) = next_slot n st m"
proof -
  show *: "ring_ok n st cap m" "handle_ok n st cap p" "geometry n st cap m"
    using assms by (simp_all add: publishable_def ring_ok_def)
  show "192 \<le> length m" "length (payload e) + 32 \<le> st" "32 \<le> st" "st < 4294967296"
    using geometryD [OF *(3)] assms by (auto simp: publishable_def)
  show "192 \<le> next_slot n st m" "next_slot n st m + st \<le> length m"
    by (auto simp: next_slot_def slot_at_ge intro: slot_in_segment [OF *(3)])
  show "slot_of p (producer_position m) = next_slot n st m"
    unfolding next_slot_def by (rule slot_of_eq [OF *(3,2)])
qed

lemma length_published_ring [simp]: "length (published_ring m p e) = length m"
  by (simp add: published_ring_def)

lemma published_frame:
  assumes "publishable n st cap m p e" and "j < length m"
    and "j < next_slot n st m \<or> next_slot n st m + st \<le> j" and "j < 64 \<or> 72 \<le> j"
  shows "published_ring m p e ! j = m ! j"
  unfolding published_ring_def using assms(2-) publishableD(7,10) [OF assms(1)]
  by (intro write_slot_frame)

lemma cursor_and_state_cong:
  "(\<And>j. 128 \<le> j \<Longrightarrow> j < 136 \<Longrightarrow> m' ! j = m ! j) \<Longrightarrow> consumer_position m' = consumer_position m"
  "(\<And>j. 64 \<le> j \<Longrightarrow> j < 72 \<Longrightarrow> m' ! j = m ! j) \<Longrightarrow> producer_position m' = producer_position m"
  "(\<And>j. 40 \<le> j \<Longrightarrow> j < 44 \<Longrightarrow> m' ! j = m ! j) \<Longrightarrow> pre_state m' = pre_state m"
  by (auto simp: cursor_defs preamble_defs intro!: read_u64_cong read_u32_cong)

lemma published_cursors:
  assumes "publishable n st cap m p e"
  shows "producer_position (published_ring m p e) = producer_position m + 1"
    and "consumer_position (published_ring m p e) = consumer_position m"
    and "pre_state (published_ring m p e) = pre_state m"
  using publishableD(4,5) [OF assms]
  by (auto simp: published_ring_def write_slot_position intro!: cursor_and_state_cong
      published_frame [OF assms, unfolded published_ring_def])

lemma published_position:
  "publishable n st cap m p e \<Longrightarrow>
    unat (producer_position (published_ring m p e)) = unat (producer_position m) + 1"
  using unat_plus_1 [of "producer_position m"]
  by (auto simp: published_cursors(1)) (simp add: publishable_def)

lemma published_other_slot:
  assumes "publishable n st cap m p e" and "i mod n \<noteq> unat (producer_position m) mod n"
    and "slot_at n st i \<le> j" and "j < slot_at n st i + st"
  shows "published_ring m p e ! j = m ! j"
proof (rule published_frame [OF assms(1)])
  show "j < length m"
    using slot_in_segment [OF publishableD(3) [OF assms(1)], of i] assms(4) by simp
  show "j < next_slot n st m \<or> next_slot n st m + st \<le> j"
    using slots_apart [OF assms(2), of st] assms(3,4) by (auto simp: next_slot_def)
  show "j < 64 \<or> 72 \<le> j" using slot_at_ge [of n st i] assms(3) by simp
qed

lemma published_other_event:
  assumes "publishable n st cap m p e" and "i mod n \<noteq> unat (producer_position m) mod n"
  shows "slot_event (published_ring m p e) (slot_at n st i) = slot_event m (slot_at n st i)"
    and "view_of (published_ring m p e) (slot_at n st i) = view_of m (slot_at n st i)"
    and "slot_valid cap (published_ring m p e) (slot_at n st i) = slot_valid cap m (slot_at n st i)"
proof -
  note d = publishableD [OF assms(1)] and same = published_other_slot [OF assms]
  note f = slot_fields_cong [OF same d(8)]
  have v: "slot_valid cap m (slot_at n st i)" using d(1) by (simp add: ring_ok_def)
  show "slot_event (published_ring m p e) (slot_at n st i) = slot_event m (slot_at n st i)"
    using v geometryD(3) [OF d(3)] slot_in_segment [OF d(3), of i]
    by (intro slot_event_cong [OF same]) (auto simp: slot_valid_def)
  show "view_of (published_ring m p e) (slot_at n st i) = view_of m (slot_at n st i)"
    "slot_valid cap (published_ring m p e) (slot_at n st i) = slot_valid cap m (slot_at n st i)"
    using f by (simp_all add: view_of_def slot_valid_def)
qed

lemma published_own_event:
  assumes "publishable n st cap m p e"
  shows "slot_event (published_ring m p e) (next_slot n st m) = e"
    and "slot_valid cap (published_ring m p e) (next_slot n st m)"
proof -
  note d = publishableD [OF assms]
  note w = write_slot_event [OF d(10,5,6,7,9)]
  have "slot_valid cap m (next_slot n st m)" using d(1) by (simp add: ring_ok_def next_slot_def)
  then show "slot_valid cap (published_ring m p e) (next_slot n st m)"
    using w(2-4) assms by (simp add: slot_valid_def published_ring_def publishable_def)
  show "slot_event (published_ring m p e) (next_slot n st m) = e"
    unfolding published_ring_def by (rule w(1))
qed

lemma published_slot_valid:
  assumes "publishable n st cap m p e"
  shows "slot_valid cap (published_ring m p e) (slot_at n st i)"
proof (cases "i mod n = unat (producer_position m) mod n")
  case True
  then have "slot_at n st i = next_slot n st m" by (simp add: slot_at_def next_slot_def)
  then show ?thesis using published_own_event(2) [OF assms] by simp
next
  case False
  then show ?thesis
    using published_other_event(3) [OF assms False] publishableD(1) [OF assms]
    by (simp add: ring_ok_def)
qed

lemma published_ring_ok: "publishable n st cap m p e \<Longrightarrow> ring_ok n st cap (published_ring m p e)"
  by (auto simp: ring_ok_def geometry_def published_position published_cursors(2) published_slot_valid
      dest: publishableD(3))
    (auto simp: publishable_def ring_ok_def)

text \<open>The slots in use are not the one that is written.\<close>

lemma used_slot:
  "publishable n st cap m p e \<Longrightarrow> unat (consumer_position m) \<le> i \<Longrightarrow>
    i < unat (producer_position m) \<Longrightarrow> i mod n \<noteq> unat (producer_position m) mod n"
  by (rule distinct_slots) (auto simp: publishable_def)

lemma published_items:
  assumes "publishable n st cap m p e"
  shows "ring_items n st (published_ring m p e) = ring_items n st m @ [e]"
proof -
  have le: "unat (consumer_position m) \<le> unat (producer_position m)"
    using publishableD(1) [OF assms] by (simp add: ring_ok_def)
  have "map (\<lambda>i. slot_event (published_ring m p e) (slot_at n st i))
        [unat (consumer_position m)..<unat (producer_position m)] = ring_items n st m"
    unfolding ring_items_def
    by (intro map_cong refl published_other_event(1) [OF assms] used_slot [OF assms]) auto
  then show ?thesis
    unfolding ring_items_def [of n st "published_ring m p e"]
    using le published_own_event(1) [OF assms]
    by (simp add: published_position [OF assms] published_cursors(2) [OF assms] next_slot_def)
qed

section \<open>\<open>try_publish\<close>, \<open>try_acquire\<close> and \<open>release\<close> on every branch\<close>

text \<open>The producer's handle after a call: unchanged, or with the read cursor reloaded.\<close>

definition reloaded_read :: "byte list \<Rightarrow> SpscRing \<Rightarrow> SpscRing" where
  "reloaded_read m p =
    (if unat (producer_position m) - unat (cached_read_position p) \<ge> unat (r_slot_count p)
     then p\<lparr>cached_read_position := consumer_position m\<rparr> else p)"

lemma producer_ok_reloaded:
  "producer_ok n st cap m p \<Longrightarrow> producer_ok n st cap m (reloaded_read m p)"
  by (simp add: producer_ok_def reloaded_read_def)

lemma try_publish_cases:
  assumes ok: "ring_ok n st cap m" and pok: "producer_ok n st cap m p"
    and "addressable (payload e)"
  shows "try_publish m p e =
    (if pre_state m \<noteq> ring_state_value Ready then (PublishResult.Closed, m, p)
     else if cap < length (payload e) then (PublishResult.PayloadTooLarge, m, p)
     else if producer_position m = u64_max then (PublishResult.Closed, m, p)
     else if length (ring_items n st m) = n then (Full, m, reloaded_read m p)
     else (Ok, published_ring m p e, reloaded_read m p))"
proof -
  define wp where "wp = producer_position m"
  define rp where "rp = consumer_position m"
  define cr where "cr = cached_read_position p"
  define c where "c = r_slot_count p"
  have h: "has_header p" "unat c = n" "unat (r_slot_payload_capacity p) = cap" "unat cr \<le> unat rp"
    using pok by (simp_all add: producer_ok_def handle_ok_def rp_def cr_def c_def)
  have b: "unat rp \<le> unat wp" "unat wp \<le> unat rp + n"
    using ok by (simp_all add: ring_ok_def rp_def wp_def)
  have big: "span_size (payload e) > ucast (r_slot_payload_capacity p) \<longleftrightarrow> cap < length (payload e)"
    using assms(3) by (simp add: word_less_nat_alt unat_ucast_u32 h unat_span_size)
  have sub: "unat (wp - cr) = unat wp - unat cr" "unat (wp - rp) = unat wp - unat rp"
    using b h by (simp_all add: unat_sub word_le_nat_alt)
  have reload: "wp - cr \<ge> ucast c \<longleftrightarrow> n \<le> unat wp - unat cr"
    by (simp add: word_le_nat_alt sub unat_ucast_u32 h)
  have bad: "\<not> (rp > wp \<or> wp - rp > ucast c)"
    using b by (simp add: word_less_nat_alt sub unat_ucast_u32 h)
  have full: "wp - rp = ucast c \<longleftrightarrow> unat wp - unat rp = n"
    using sub(2) by (metis h(2) unat_ucast_u32 word_eq_iff_unsigned)
  have no_reload: "unat wp - unat rp \<noteq> n" if "\<not> n \<le> unat wp - unat cr"
    using that h by linarith
  show ?thesis
    unfolding try_publish_def Let_def wp_def [symmetric] rp_def [symmetric] cr_def [symmetric]
      c_def [symmetric] big reload length_ring_items reloaded_read_def h(2) published_ring_def
    using bad full no_reload by (simp add: h(1) c_def)
qed

text \<open>The consumer's handle after a call that looked at the write cursor.\<close>

definition reloaded_write :: "byte list \<Rightarrow> SpscRing \<Rightarrow> SpscRing" where
  "reloaded_write m c =
    (if unat (cached_write_position c) \<le> unat (consumer_position m)
     then c\<lparr>cached_write_position := producer_position m\<rparr> else c)"

lemma consumer_ok_reloaded:
  "consumer_ok n st cap m c \<Longrightarrow> consumer_ok n st cap m (reloaded_write m c)"
  by (simp add: consumer_ok_def reloaded_write_def)

definition holding :: "byte list \<Rightarrow> SpscRing \<Rightarrow> SpscRing" where
  "holding m c = (reloaded_write m c)\<lparr>acquired_position := consumer_position m, acquired := True\<rparr>"

lemma read_slot_ok:
  assumes ok: "ring_ok n st cap m" and cok: "consumer_ok n st cap m c"
    and "unat (consumer_position m) < unat (cached_write_position c)"
  shows "read_slot m c (consumer_position m) =
    (Inr (view_of m (slot_at n st (unat (consumer_position m)))),
     c\<lparr>acquired_position := consumer_position m, acquired := True\<rparr>)"
proof -
  define rp where "rp = consumer_position m"
  define cw where "cw = cached_write_position c"
  have g: "geometry n st cap m" and hok: "handle_ok n st cap c"
    using ok cok by (simp_all add: ring_ok_def consumer_ok_def)
  have h: "unat (r_slot_count c) = n" "unat (r_slot_payload_capacity c) = cap"
    using hok by (simp_all add: handle_ok_def)
  have b: "unat rp < unat cw" "unat cw \<le> unat rp + n"
    using ok cok assms(3) by (auto simp: ring_ok_def consumer_ok_def rp_def cw_def)
  have sub: "unat (cw - rp) = unat cw - unat rp" using b by (simp add: unat_sub word_le_nat_alt)
  have "\<not> (rp > cw \<or> cw - rp > ucast (r_slot_count c))"
    using b by (simp add: word_less_nat_alt sub unat_ucast_u32 h)
  moreover have "\<not> invalid_slot m (slot_at n st (unat rp)) (r_slot_payload_capacity c)"
    using ok by (simp add: invalid_slot_iff h ring_ok_def)
  ultimately show ?thesis
    unfolding read_slot_def Let_def slot_of_eq [OF g hok] rp_def [symmetric] cw_def [symmetric]
    by (simp add: view_of_def ring_constants)
qed

lemma try_acquire_cases:
  assumes ok: "ring_ok n st cap m" and cok: "consumer_ok n st cap m c"
  shows "try_acquire m c =
    (if acquired c then (Inl AlreadyAcquired, c)
     else if ring_items n st m = [] then
       (Inl (if pre_state m = ring_state_value RingState.Closed then AcquireError.Closed else Empty),
        reloaded_write m c)
     else (Inr (view_of m (slot_at n st (unat (consumer_position m)))), holding m c))"
proof -
  define rp where "rp = consumer_position m"
  define wp where "wp = producer_position m"
  define cw where "cw = cached_write_position c"
  have hh: "has_header c" and cw: "unat cw \<le> unat wp" and rp: "unat rp \<le> unat wp"
    using ok cok by (simp_all add: consumer_ok_def handle_ok_def ring_ok_def rp_def wp_def cw_def)
  have nil: "ring_items n st m = [] \<longleftrightarrow> rp = wp"
    using rp by (auto simp: ring_items_def rp_def wp_def word_unat_eq_iff)
  have lt: "rp \<noteq> wp \<Longrightarrow> unat rp < unat wp"
    using rp by (metis le_neq_implies_less word_eq_iff_unsigned)
  have stale: "rp \<ge> cw \<longleftrightarrow> unat cw \<le> unat rp"
    by (simp add: word_le_nat_alt)
  have ne: "\<not> unat cw \<le> unat rp \<Longrightarrow> rp \<noteq> wp" using cw by auto
  note rs = read_slot_ok [OF ok consumer_ok_reloaded [OF cok]]
  have read: "read_slot m (reloaded_write m c) rp =
      (Inr (view_of m (slot_at n st (unat rp))), holding m c)" if "rp \<noteq> wp"
    using rs lt [OF that] by (auto simp: reloaded_write_def holding_def rp_def wp_def cw_def)
  show ?thesis
    unfolding try_acquire_def Let_def rp_def [symmetric] wp_def [symmetric] cw_def [symmetric]
      nil stale
    using hh read ne by (auto simp: reloaded_write_def rp_def wp_def cw_def)
qed

section \<open>The invariant is preserved\<close>

lemma ring_ok_items:
  assumes "ring_ok n st cap m"
  shows "length (ring_items n st m) \<le> n"
    and "ring_items n st m = [] \<longleftrightarrow> unat (producer_position m) = unat (consumer_position m)"
  using assms by (auto simp: ring_ok_def ring_items_def)

lemma ring_items_first:
  assumes "unat (consumer_position m) < unat (producer_position m)"
  shows "ring_items n st m = slot_event m (slot_at n st (unat (consumer_position m)))
    # map (\<lambda>i. slot_event m (slot_at n st i)) [Suc (unat (consumer_position m))..<unat (producer_position m)]"
  using assms by (simp add: ring_items_def upt_conv_Cons)

text \<open>When the calls of the producer leave the branches before the write, the slot is free.\<close>

lemma publishableI:
  assumes "ring_ok n st cap m" and "producer_ok n st cap m p" and "length (payload e) \<le> cap"
    and "producer_position m \<noteq> u64_max" and "length (ring_items n st m) \<noteq> n"
  shows "publishable n st cap m p e"
  using assms geometryD(1) [of n st cap m]
  by (auto simp: publishable_def producer_ok_def ring_ok_def)

lemma published_handles:
  assumes "publishable n st cap m p e"
  shows "producer_ok n st cap m q \<Longrightarrow> producer_ok n st cap (published_ring m p e) q"
    and "consumer_ok n st cap m c \<Longrightarrow> consumer_ok n st cap (published_ring m p e) c"
  using published_position [OF assms]
  by (auto simp: producer_ok_def consumer_ok_def published_cursors(2) [OF assms])

text \<open>A release frees the first slot: only the consumer cursor is written.\<close>

definition released_ring :: "byte list \<Rightarrow> byte list" where
  "released_ring m = write_u64 m 128 (consumer_position m + 1)"

lemma length_released_ring [simp]: "length (released_ring m) = length m"
  by (simp add: released_ring_def write_bytes)

lemma released_frame:
  "j < length m \<Longrightarrow> j < 128 \<or> 136 \<le> j \<Longrightarrow> released_ring m ! j = m ! j"
  by (auto simp: released_ring_def write_bytes nth_store_outside)

lemma released_cursors:
  assumes "geometry n st cap m"
  shows "consumer_position (released_ring m) = consumer_position m + 1"
    and "producer_position (released_ring m) = producer_position m"
    and "pre_state (released_ring m) = pre_state m"
  using geometryD(5) [OF assms]
  by (auto intro!: cursor_and_state_cong(2,3) released_frame)
    (simp add: cursor_defs released_ring_def mem_simps)

lemma released_slots:
  assumes "ring_ok n st cap m"
  shows "slot_event (released_ring m) (slot_at n st i) = slot_event m (slot_at n st i)"
    and "slot_valid cap (released_ring m) (slot_at n st i)"
proof -
  have g: "geometry n st cap m" and v: "slot_valid cap m (slot_at n st i)"
    using assms by (simp_all add: ring_ok_def)
  have same: "released_ring m ! j = m ! j" if "slot_at n st i \<le> j" "j < slot_at n st i + st" for j
    using that slot_at_ge [of n st i] slot_in_segment [OF g, of i] by (intro released_frame) auto
  show "slot_event (released_ring m) (slot_at n st i) = slot_event m (slot_at n st i)"
    using v geometryD(3) [OF g] slot_in_segment [OF g, of i]
    by (intro slot_event_cong [OF same]) (auto simp: slot_valid_def)
  show "slot_valid cap (released_ring m) (slot_at n st i)"
    using v slot_valid_cong [OF same] geometryD(3) [OF g] by simp
qed

lemma released_ok:
  assumes ok: "ring_ok n st cap m" and cok: "consumer_ok n st cap m c" and "acquired c"
  shows "release m c = (True, released_ring m, c\<lparr>acquired := False, acquired_position := 0\<rparr>)"
    and "ring_ok n st cap (released_ring m)"
    and "ring_items n st (released_ring m) = tl (ring_items n st m)"
    and "producer_ok n st cap m p \<Longrightarrow> producer_ok n st cap (released_ring m) p"
    and "consumer_ok n st cap (released_ring m) (c\<lparr>acquired := False, acquired_position := 0\<rparr>)"
proof -
  have g: "geometry n st cap m" using ok by (simp add: ring_ok_def)
  note cur = released_cursors [OF g]
  have a: "acquired_position c = consumer_position m"
    and lt: "unat (consumer_position m) < unat (producer_position m)"
    using cok assms(3) by (simp_all add: consumer_ok_def)
  then have "consumer_position m \<noteq> u64_max"
    using unsigned_less [of "producer_position m", where ?'a = nat] by auto
  then have pos: "unat (consumer_position (released_ring m)) = unat (consumer_position m) + 1"
    unfolding cur by (rule unat_plus_1)
  show "release m c = (True, released_ring m, c\<lparr>acquired := False, acquired_position := 0\<rparr>)"
    using assms(3) by (simp add: release_def released_ring_def a)
  show "ring_ok n st cap (released_ring m)"
    using ok lt pos released_slots(2) [OF ok] by (simp add: ring_ok_def geometry_def cur(2))
  show "ring_items n st (released_ring m) = tl (ring_items n st m)"
    unfolding ring_items_first [OF lt] unfolding ring_items_def
    by (simp add: pos cur(2) released_slots(1) [OF ok])
  show "producer_ok n st cap m p \<Longrightarrow> producer_ok n st cap (released_ring m) p"
    by (simp add: producer_ok_def pos)
  show "consumer_ok n st cap (released_ring m) (c\<lparr>acquired := False, acquired_position := 0\<rparr>)"
    using cok by (simp add: consumer_ok_def cur(2))
qed

lemma consumer_ok_holding:
  assumes "ring_ok n st cap m" and "consumer_ok n st cap m c" and "ring_items n st m \<noteq> []"
  shows "consumer_ok n st cap m (holding m c)"
  using assms ring_ok_items(2) [OF assms(1)]
  by (auto simp: consumer_ok_def holding_def reloaded_write_def ring_ok_def handle_ok_def)

end
