(* ===== verification/Event_Queue.thy ===== *)
theory Event_Queue
  imports Protocol_Types
begin

text \<open>
  The interface that the engines and their peers use: a bounded queue of events with one
  producer and one consumer, where the consumer reads an event through a view and hands its
  place back by a release. The locale states what a provider promises; the client lemmas are
  about whole runs of calls: events come out once, unchanged and in the order they went in.
\<close>

section \<open>A client's run of calls\<close>

datatype queue_call = Publish event | Acquire | Release

text \<open>
  The trace of a run: the events that were published with \<open>Ok\<close>, and the events read through the
  view at the moment of their release, both in order. \<open>held\<close> is the view the consumer holds.
\<close>

record ('s, 'v) client =
  queue_state :: 's
  held_view :: "'v option"
  published :: "event list"
  consumed :: "event list"

fun client_step ::
  "('s \<Rightarrow> event \<Rightarrow> PublishResult \<times> 's) \<Rightarrow> ('s \<Rightarrow> ('e + 'v) \<times> 's) \<Rightarrow> ('s \<Rightarrow> bool \<times> 's)
    \<Rightarrow> ('s \<Rightarrow> 'v \<Rightarrow> event) \<Rightarrow> ('s, 'v) client \<Rightarrow> queue_call \<Rightarrow> ('s, 'v) client" where
  "client_step publish acquire release deref c (Publish e) =
    (let (r, s) = publish (queue_state c) e
     in c\<lparr>queue_state := s, published := (if r = Ok then published c @ [e] else published c)\<rparr>)"
| "client_step publish acquire release deref c Acquire =
    (let (r, s) = acquire (queue_state c)
     in c\<lparr>queue_state := s, held_view := (case r of Inr v \<Rightarrow> Some v | Inl _ \<Rightarrow> held_view c)\<rparr>)"
| "client_step publish acquire release deref c Release =
    (let (r, s) = release (queue_state c)
     in c\<lparr>queue_state := s, held_view := None,
          consumed := (case held_view c of
              Some v \<Rightarrow> if r then consumed c @ [deref (queue_state c) v] else consumed c
            | None \<Rightarrow> consumed c)\<rparr>)"

definition client_run ::
  "('s \<Rightarrow> event \<Rightarrow> PublishResult \<times> 's) \<Rightarrow> ('s \<Rightarrow> ('e + 'v) \<times> 's) \<Rightarrow> ('s \<Rightarrow> bool \<times> 's)
    \<Rightarrow> ('s \<Rightarrow> 'v \<Rightarrow> event) \<Rightarrow> ('s, 'v) client \<Rightarrow> queue_call list \<Rightarrow> ('s, 'v) client" where
  "client_run publish acquire release deref c calls =
     foldl (client_step publish acquire release deref) c calls"

definition new_client :: "'s \<Rightarrow> ('s, 'v) client" where
  "new_client s = \<lparr>queue_state = s, held_view = None, published = [], consumed = []\<rparr>"

section \<open>The interface\<close>

locale event_queue =
  fixes publish :: "'s \<Rightarrow> event \<Rightarrow> PublishResult \<times> 's"
    and acquire :: "'s \<Rightarrow> ('e + 'v) \<times> 's"
    and release :: "'s \<Rightarrow> bool \<times> 's"
    and deref :: "'s \<Rightarrow> 'v \<Rightarrow> event"
    and inv :: "'s \<Rightarrow> bool"
    and items :: "'s \<Rightarrow> event list"
    and view :: "'s \<Rightarrow> 'v option"
    and capacity :: "'s \<Rightarrow> nat"
    and admits :: "event \<Rightarrow> bool"
  assumes bounded: "inv s \<Longrightarrow> length (items s) \<le> capacity s"
    and publish_ok: "inv s \<Longrightarrow> admits e \<Longrightarrow> publish s e = (Ok, s') \<Longrightarrow>
      inv s' \<and> items s' = items s @ [e] \<and> view s' = view s \<and> capacity s' = capacity s"
    and publish_refused: "inv s \<Longrightarrow> admits e \<Longrightarrow> publish s e = (r, s') \<Longrightarrow> r \<noteq> Ok \<Longrightarrow>
      inv s' \<and> items s' = items s \<and> view s' = view s \<and> capacity s' = capacity s"
    and acquire_view: "inv s \<Longrightarrow> acquire s = (Inr v, s') \<Longrightarrow>
      inv s' \<and> items s' = items s \<and> view s = None \<and> view s' = Some v \<and> capacity s' = capacity s"
    and acquire_refused: "inv s \<Longrightarrow> acquire s = (Inl err, s') \<Longrightarrow>
      inv s' \<and> items s' = items s \<and> view s' = view s \<and> capacity s' = capacity s"
    and acquire_ready: "inv s \<Longrightarrow> view s = None \<Longrightarrow> items s \<noteq> [] \<Longrightarrow> \<exists>v s'. acquire s = (Inr v, s')"
    and view_first: "inv s \<Longrightarrow> view s = Some v \<Longrightarrow> items s \<noteq> [] \<and> deref s v = hd (items s)"
    and release_held: "inv s \<Longrightarrow> view s = Some v \<Longrightarrow> \<exists>s'. release s = (True, s') \<and>
      inv s' \<and> items s' = tl (items s) \<and> view s' = None \<and> capacity s' = capacity s"
    and release_none: "inv s \<Longrightarrow> view s = None \<Longrightarrow> release s = (False, s)"
begin

definition client_inv :: "('s, 'v) client \<Rightarrow> bool" where
  "client_inv c \<longleftrightarrow> inv (queue_state c) \<and> held_view c = view (queue_state c)
     \<and> published c = consumed c @ items (queue_state c)"

definition call_ok :: "queue_call \<Rightarrow> bool" where
  "call_ok k \<longleftrightarrow> (case k of Publish e \<Rightarrow> admits e | _ \<Rightarrow> True)"

lemma client_inv_publish:
  assumes "client_inv c" and "admits e"
  shows "client_inv (client_step publish acquire release deref c (Publish e))"
proof -
  obtain r s where p: "publish (queue_state c) e = (r, s)" by fastforce
  with assms publish_ok [of "queue_state c" e s] publish_refused [of "queue_state c" e r s]
  show ?thesis by (cases "r = Ok") (auto simp: client_inv_def)
qed

lemma client_inv_acquire:
  assumes "client_inv c"
  shows "client_inv (client_step publish acquire release deref c Acquire)"
proof -
  obtain r s where a: "acquire (queue_state c) = (r, s)" by fastforce
  with assms acquire_view [of "queue_state c" _ s] acquire_refused [of "queue_state c" _ s]
  show ?thesis by (cases r) (auto simp: client_inv_def)
qed

lemma client_inv_release:
  assumes "client_inv c"
  shows "client_inv (client_step publish acquire release deref c Release)"
proof (cases "view (queue_state c)")
  case None
  with assms release_none [of "queue_state c"] show ?thesis by (auto simp: client_inv_def)
next
  case (Some v)
  with assms view_first [of "queue_state c" v] release_held [of "queue_state c" v]
  show ?thesis by (auto simp: client_inv_def)
qed

lemma client_inv_step:
  "client_inv c \<Longrightarrow> call_ok k \<Longrightarrow> client_inv (client_step publish acquire release deref c k)"
  by (cases k) (simp_all add: call_ok_def client_inv_publish client_inv_acquire client_inv_release
      del: client_step.simps)

lemma capacity_step:
  assumes "client_inv c" and "call_ok k"
  shows "capacity (queue_state (client_step publish acquire release deref c k)) = capacity (queue_state c)"
proof (cases k)
  case (Publish e)
  obtain r s where p: "publish (queue_state c) e = (r, s)" by fastforce
  with assms Publish publish_ok [of "queue_state c" e s] publish_refused [of "queue_state c" e r s]
  show ?thesis by (cases "r = Ok") (auto simp: client_inv_def call_ok_def)
next
  case Acquire
  obtain r s where a: "acquire (queue_state c) = (r, s)" by fastforce
  with assms Acquire acquire_view [of "queue_state c" _ s] acquire_refused [of "queue_state c" _ s]
  show ?thesis by (cases r) (auto simp: client_inv_def)
next
  case Release
  with assms release_none [of "queue_state c"] release_held [of "queue_state c"]
  show ?thesis by (cases "view (queue_state c)") (fastforce simp: client_inv_def)+
qed

lemma client_inv_run:
  "client_inv c \<Longrightarrow> list_all call_ok calls \<Longrightarrow>
    client_inv (client_run publish acquire release deref c calls)"
  by (induction calls arbitrary: c) (simp_all add: client_run_def client_inv_step)

lemma capacity_run:
  "client_inv c \<Longrightarrow> list_all call_ok calls \<Longrightarrow>
    capacity (queue_state (client_run publish acquire release deref c calls)) = capacity (queue_state c)"
  by (induction calls arbitrary: c) (simp_all add: client_run_def client_inv_step capacity_step)

lemma client_inv_new: "inv s \<Longrightarrow> view s = None \<Longrightarrow> items s = [] \<Longrightarrow> client_inv (new_client s)"
  by (simp add: client_inv_def new_client_def)

text \<open>A held view reads the same event however many events are published behind it.\<close>

lemma publish_keeps_view:
  assumes "inv s" and "admits e" and "view s = Some v"
  shows "inv (snd (publish s e))" and "view (snd (publish s e)) = Some v"
    and "deref (snd (publish s e)) v = deref s v"
proof -
  obtain r s' where p: "publish s e = (r, s')" by fastforce
  have "inv s' \<and> view s' = Some v \<and> hd (items s') = hd (items s)"
    using publish_ok [of s e s'] publish_refused [of s e r s'] assms p view_first [of s v]
    by (cases "r = Ok") auto
  then show "inv (snd (publish s e))" "view (snd (publish s e)) = Some v"
    "deref (snd (publish s e)) v = deref s v"
    using view_first [of s v] view_first [of s' v] assms p by auto
qed

lemma publishes_keep_view:
  assumes "inv s" and "list_all admits es" and "view s = Some v"
  shows "view (foldl (\<lambda>s e. snd (publish s e)) s es) = Some v"
    and "deref (foldl (\<lambda>s e. snd (publish s e)) s es) v = deref s v"
  using assms by (induction es arbitrary: s) (simp_all add: publish_keeps_view)

text \<open>A consumer that acquires and releases in turn empties the queue in order.\<close>

lemma acquire_release:
  assumes "client_inv c" and "held_view c = None" and "items (queue_state c) = e # es"
    and "c' = client_run publish acquire release deref c [Acquire, Release]"
  shows "client_inv c'" and "held_view c' = None" and "items (queue_state c') = es"
    and "consumed c' = consumed c @ [e]" and "published c' = published c"
proof -
  have i: "inv (queue_state c)" "view (queue_state c) = None"
    using assms by (simp_all add: client_inv_def)
  obtain v s where a: "acquire (queue_state c) = (Inr v, s)"
    using acquire_ready [OF i] assms(3) by auto
  note s = acquire_view [OF i(1) a]
  obtain s' where r: "release s = (True, s')" "items s' = es"
    using release_held [of s v] s assms(3) by auto
  have d: "deref s v = e" using view_first [of s v] s assms(3) by simp
  show "client_inv c'"
    unfolding assms(4) using assms(1) by (rule client_inv_run) (simp add: call_ok_def)
  show "held_view c' = None" "items (queue_state c') = es" "consumed c' = consumed c @ [e]"
    "published c' = published c"
    using a r d by (simp_all add: assms(4) client_run_def)
qed

lemma run_drain:
  assumes "client_inv c" and "held_view c = None"
    and "c' = client_run publish acquire release deref c
      (concat (replicate (length (items (queue_state c))) [Acquire, Release]))"
  shows "consumed c' = consumed c @ items (queue_state c)" and "items (queue_state c') = []"
    and "inv (queue_state c')" and "view (queue_state c') = None"
proof -
  have "consumed c' = consumed c @ es \<and> items (queue_state c') = [] \<and> client_inv c' \<and> held_view c' = None"
    if "client_inv c" "held_view c = None" "items (queue_state c) = es"
      "c' = client_run publish acquire release deref c (concat (replicate (length es) [Acquire, Release]))"
    for c es
    using that
  proof (induction es arbitrary: c)
    case Nil
    then show ?case by (simp add: client_run_def)
  next
    case (Cons e es)
    note step = acquire_release [OF Cons.prems(1-3) refl]
    show ?case
      using Cons.IH [OF step(1-3)] Cons.prems(4) step(4) by (simp add: client_run_def)
  qed
  from this [OF assms(1,2) refl assms(3)] show
    "consumed c' = consumed c @ items (queue_state c)" "items (queue_state c') = []"
    "inv (queue_state c')" "view (queue_state c') = None"
    by (auto simp: client_inv_def)
qed

text \<open>Whole runs on a queue that starts empty: first in, first out, and never over capacity.\<close>

lemma run_fifo:
  assumes "inv s" and "view s = None" and "items s = []" and "list_all call_ok calls"
    and "c = client_run publish acquire release deref (new_client s) calls"
  shows "published c = consumed c @ items (queue_state c)"
    and "length (items (queue_state c)) \<le> capacity s"
  using client_inv_run [OF client_inv_new [OF assms(1-3)] assms(4)] bounded [of "queue_state c"]
    capacity_run [OF client_inv_new [OF assms(1-3)] assms(4)]
  by (auto simp: client_inv_def assms(5) new_client_def)

end

end
