(* ===== verification/Ring_System.thy ===== *)
theory Ring_System
  imports Ring_Queue Event_Queue
begin

text \<open>
  A ring in use: one segment, the producer's and the consumer's handle. The code's operations on
  it discharge the interface of Event_Queue, and the properties of the ring as a queue are stated:
  what a call decides on each branch, first in first out over whole runs, that a held view is
  never overwritten, that closing loses nothing, and that no content of the segment leads a call
  outside it.
\<close>

section \<open>The state and its operations\<close>

record ring_system =
  segment :: "byte list"
  producer :: SpscRing
  consumer :: SpscRing

definition system_ok :: "nat \<Rightarrow> nat \<Rightarrow> nat \<Rightarrow> ring_system \<Rightarrow> bool" where
  "system_ok n st cap s \<longleftrightarrow> ring_ok n st cap (segment s)
     \<and> producer_ok n st cap (segment s) (producer s) \<and> consumer_ok n st cap (segment s) (consumer s)"

definition sys_publish :: "ring_system \<Rightarrow> event \<Rightarrow> PublishResult \<times> ring_system" where
  "sys_publish s e = (let (r, m, p) = try_publish (segment s) (producer s) e
     in (r, s\<lparr>segment := m, producer := p\<rparr>))"

definition sys_acquire :: "ring_system \<Rightarrow> (AcquireError + slot_view) \<times> ring_system" where
  "sys_acquire s = (let (r, c) = try_acquire (segment s) (consumer s) in (r, s\<lparr>consumer := c\<rparr>))"

definition sys_release :: "ring_system \<Rightarrow> bool \<times> ring_system" where
  "sys_release s = (let (r, m, c) = release (segment s) (consumer s)
     in (r, s\<lparr>segment := m, consumer := c\<rparr>))"

text \<open>The geometry of a ring is in its handles.\<close>

definition sys_count :: "ring_system \<Rightarrow> nat" where
  "sys_count s = unat (r_slot_count (producer s))"
definition sys_stride :: "ring_system \<Rightarrow> nat" where
  "sys_stride s = unat (r_slot_stride (producer s))"
definition sys_cap :: "ring_system \<Rightarrow> nat" where
  "sys_cap s = unat (r_slot_payload_capacity (producer s))"

definition sys_inv :: "ring_system \<Rightarrow> bool" where
  "sys_inv s \<longleftrightarrow> system_ok (sys_count s) (sys_stride s) (sys_cap s) s"

definition sys_items :: "ring_system \<Rightarrow> event list" where
  "sys_items s = ring_items (sys_count s) (sys_stride s) (segment s)"

definition sys_view :: "ring_system \<Rightarrow> slot_view option" where
  "sys_view s = (if acquired (consumer s)
     then Some (view_of (segment s)
       (slot_at (sys_count s) (sys_stride s) (unat (consumer_position (segment s)))))
     else None)"

definition sys_deref :: "ring_system \<Rightarrow> slot_view \<Rightarrow> event" where
  "sys_deref s v = deref (segment s) v"

definition sys_admits :: "event \<Rightarrow> bool" where
  "sys_admits e \<longleftrightarrow> addressable (payload e)"

lemma sys_geometry:
  assumes "system_ok n st cap s"
  shows "sys_count s = n" "sys_stride s = st" "sys_cap s = cap"
  using assms by (simp_all add: system_ok_def producer_ok_def handle_ok_def sys_count_def
      sys_stride_def sys_cap_def)

lemma sys_inv_iff: "sys_inv s \<longleftrightarrow> (\<exists>n st cap. system_ok n st cap s)"
  by (metis sys_inv_def sys_geometry)

lemma sys_eqs:
  assumes "system_ok n st cap s"
  shows "sys_items s = ring_items n st (segment s)"
    and "sys_view s = (if acquired (consumer s)
      then Some (view_of (segment s) (slot_at n st (unat (consumer_position (segment s))))) else None)"
    and "sys_inv s"
  using assms by (auto simp: sys_items_def sys_view_def sys_geometry [OF assms] sys_inv_iff)

text \<open>A call of the producer on a well-formed ring.\<close>

lemma sys_publish_cases:
  assumes ok: "system_ok n st cap s" and "sys_admits e"
  obtains (refused) r p where "sys_publish s e = (r, s\<lparr>producer := p\<rparr>)" "r \<noteq> Ok"
      "system_ok n st cap (s\<lparr>producer := p\<rparr>)"
  | (published) p where "sys_publish s e =
      (Ok, s\<lparr>segment := published_ring (segment s) (producer s) e, producer := p\<rparr>)"
      "publishable n st cap (segment s) (producer s) e"
      "system_ok n st cap (s\<lparr>segment := published_ring (segment s) (producer s) e, producer := p\<rparr>)"
proof -
  let ?m = "segment s" and ?p = "producer s"
  note d = ok [unfolded system_ok_def]
  have p: "producer_ok n st cap ?m (reloaded_read ?m ?p)"
    using d by (simp add: producer_ok_reloaded)
  have same: "system_ok n st cap (s\<lparr>producer := reloaded_read ?m ?p\<rparr>)"
    using d p by (simp add: system_ok_def)
  note cases = try_publish_cases [of n st cap ?m ?p e]
  have c: "try_publish ?m ?p e = (if pre_state ?m \<noteq> ring_state_value Ready then (PublishResult.Closed, ?m, ?p)
     else if cap < length (payload e) then (PublishResult.PayloadTooLarge, ?m, ?p)
     else if producer_position ?m = u64_max then (PublishResult.Closed, ?m, ?p)
     else if length (ring_items n st ?m) = n then (Full, ?m, reloaded_read ?m ?p)
     else (Ok, published_ring ?m ?p e, reloaded_read ?m ?p))"
    using d assms(2) by (intro cases) (auto simp: sys_admits_def)
  show thesis
  proof (cases "pre_state ?m = ring_state_value Ready \<and> length (payload e) \<le> cap
      \<and> producer_position ?m \<noteq> u64_max \<and> length (ring_items n st ?m) \<noteq> n")
    case True
    then have pub: "publishable n st cap ?m ?p e" using d by (intro publishableI) auto
    note h = published_handles [OF pub] published_ring_ok [OF pub]
    have "sys_publish s e = (Ok, s\<lparr>segment := published_ring ?m ?p e, producer := reloaded_read ?m ?p\<rparr>)"
      using True by (simp add: sys_publish_def c del: length_ring_items)
    moreover have "system_ok n st cap
        (s\<lparr>segment := published_ring ?m ?p e, producer := reloaded_read ?m ?p\<rparr>)"
      using d h(1) [OF p] h(2,3) by (simp add: system_ok_def)
    ultimately show thesis using pub published by blast
  next
    case False
    then have "\<exists>r q. try_publish ?m ?p e = (r, ?m, q) \<and> r \<noteq> Ok \<and> (q = ?p \<or> q = reloaded_read ?m ?p)"
      unfolding c by (auto simp del: length_ring_items)
    then obtain r q where "try_publish ?m ?p e = (r, ?m, q)" "r \<noteq> Ok"
      "q = ?p \<or> q = reloaded_read ?m ?p" by blast
    then show thesis using ok same by (intro refused [of r q]) (auto simp: sys_publish_def)
  qed
qed

text \<open>A call of the consumer.\<close>

lemma sys_acquire_cases:
  assumes ok: "system_ok n st cap s"
  obtains (refused) err c where "sys_acquire s = (Inl err, s\<lparr>consumer := c\<rparr>)"
      "acquired c = acquired (consumer s)" "system_ok n st cap (s\<lparr>consumer := c\<rparr>)"
      "acquired (consumer s) \<or> sys_items s = []"
  | (acquired) v where "sys_acquire s = (Inr v, s\<lparr>consumer := holding (segment s) (consumer s)\<rparr>)"
      "\<not> acquired (consumer s)" "sys_items s \<noteq> []"
      "v = view_of (segment s) (slot_at n st (unat (consumer_position (segment s))))"
      "system_ok n st cap (s\<lparr>consumer := holding (segment s) (consumer s)\<rparr>)"
proof -
  let ?m = "segment s" and ?c = "consumer s"
  note d = ok [unfolded system_ok_def]
  have c: "ring_ok n st cap ?m" "consumer_ok n st cap ?m ?c" using d by simp_all
  note t = try_acquire_cases [OF c]
  consider "acquired ?c" | "\<not> acquired ?c" "ring_items n st ?m = []"
    | "\<not> acquired ?c" "ring_items n st ?m \<noteq> []" by blast
  then show thesis
  proof cases
    case 1
    then show thesis using ok by (intro refused [of _ ?c]) (auto simp: sys_acquire_def t)
  next
    case 2
    have "system_ok n st cap (s\<lparr>consumer := reloaded_write ?m ?c\<rparr>)"
      using d by (simp add: system_ok_def consumer_ok_reloaded)
    with 2 show thesis
      by (intro refused [of _ "reloaded_write ?m ?c"])
        (auto simp: sys_acquire_def t sys_eqs [OF ok] reloaded_write_def)
  next
    case 3
    have "system_ok n st cap (s\<lparr>consumer := holding ?m ?c\<rparr>)"
      using d consumer_ok_holding [OF c 3(2)] by (simp add: system_ok_def)
    with 3 show thesis by (intro acquired) (auto simp: sys_acquire_def t sys_eqs [OF ok])
  qed
qed

text \<open>The laws of the interface, each for a system of any geometry.\<close>

lemma sys_publish_keeps:
  assumes "system_ok n st cap s" and "sys_admits e" and "sys_publish s e = (r, s')"
  shows "system_ok n st cap s'" and "sys_view s' = sys_view s"
    and "sys_items s' = (if r = Ok then sys_items s @ [e] else sys_items s)"
proof -
  have *: "system_ok n st cap s' \<and> sys_view s' = sys_view s
      \<and> sys_items s' = (if r = Ok then sys_items s @ [e] else sys_items s)"
  proof (rule sys_publish_cases [OF assms(1,2)])
    fix r' p assume a: "sys_publish s e = (r', s\<lparr>producer := p\<rparr>)" "r' \<noteq> Ok"
      "system_ok n st cap (s\<lparr>producer := p\<rparr>)"
    then show ?thesis using sys_eqs [OF assms(1)] sys_eqs [OF a(3)] assms(3) by auto
  next
    let ?m = "segment s" and ?m' = "published_ring (segment s) (producer s) e"
    fix p assume a: "sys_publish s e = (Ok, s\<lparr>segment := ?m', producer := p\<rparr>)"
      "publishable n st cap ?m (producer s) e"
      "system_ok n st cap (s\<lparr>segment := ?m', producer := p\<rparr>)"
    have "view_of ?m' (slot_at n st (unat (consumer_position ?m)))
        = view_of ?m (slot_at n st (unat (consumer_position ?m)))" if "acquired (consumer s)"
      using that assms(1) used_slot [OF a(2)]
      by (intro published_other_event(2) [OF a(2)]) (auto simp: system_ok_def consumer_ok_def)
    then show ?thesis
      using a sys_eqs [OF assms(1)] sys_eqs [OF a(3)] assms(3)
      by (auto simp: published_items [OF a(2)] published_cursors(2) [OF a(2)])
  qed
  then show "system_ok n st cap s'" "sys_view s' = sys_view s"
    "sys_items s' = (if r = Ok then sys_items s @ [e] else sys_items s)" by auto
qed

lemma sys_acquire_keeps:
  assumes "system_ok n st cap s" and "sys_acquire s = (r, s')"
  shows "system_ok n st cap s'" and "sys_items s' = sys_items s"
    and "case r of Inr v \<Rightarrow> sys_view s = None \<and> sys_view s' = Some v | Inl _ \<Rightarrow> sys_view s' = sys_view s"
proof -
  have *: "system_ok n st cap s' \<and> sys_items s' = sys_items s
    \<and> (case r of Inr v \<Rightarrow> sys_view s = None \<and> sys_view s' = Some v | Inl _ \<Rightarrow> sys_view s' = sys_view s)"
  proof (rule sys_acquire_cases [OF assms(1)])
    fix err c assume a: "sys_acquire s = (Inl err, s\<lparr>consumer := c\<rparr>)"
      "acquired c = acquired (consumer s)" "system_ok n st cap (s\<lparr>consumer := c\<rparr>)"
    then show ?thesis using sys_eqs [OF assms(1)] sys_eqs [OF a(3)] assms(2) by auto
  next
    let ?h = "holding (segment s) (consumer s)"
    fix v assume a: "sys_acquire s = (Inr v, s\<lparr>consumer := ?h\<rparr>)" "\<not> acquired (consumer s)"
      "v = view_of (segment s) (slot_at n st (unat (consumer_position (segment s))))"
      "system_ok n st cap (s\<lparr>consumer := ?h\<rparr>)"
    then show ?thesis using sys_eqs [OF assms(1)] sys_eqs [OF a(4)] assms(2)
      by (auto simp: holding_def)
  qed
  then show "system_ok n st cap s'" "sys_items s' = sys_items s"
    "case r of Inr v \<Rightarrow> sys_view s = None \<and> sys_view s' = Some v | Inl _ \<Rightarrow> sys_view s' = sys_view s"
    by auto
qed

lemma sys_release_keeps:
  assumes "system_ok n st cap s" and "acquired (consumer s)"
  shows "\<exists>s'. sys_release s = (True, s') \<and> system_ok n st cap s' \<and> sys_items s' = tl (sys_items s)
    \<and> sys_view s' = None"
proof -
  let ?m = "segment s" and ?c = "consumer s"
  let ?s' = "s\<lparr>segment := released_ring ?m, consumer := ?c\<lparr>acquired := False, acquired_position := 0\<rparr>\<rparr>"
  have d: "ring_ok n st cap ?m" "consumer_ok n st cap ?m ?c" "producer_ok n st cap ?m (producer s)"
    using assms(1) by (simp_all add: system_ok_def)
  note r = released_ok [OF d(1,2) assms(2)]
  have "sys_release s = (True, ?s')" by (simp add: sys_release_def r(1))
  moreover have ok: "system_ok n st cap ?s'" using r(2) r(4) [OF d(3)] r(5) by (simp add: system_ok_def)
  ultimately show ?thesis using sys_eqs [OF assms(1)] sys_eqs [OF ok] by (simp add: r(3))
qed

lemma sys_view_first:
  assumes "system_ok n st cap s" and "sys_view s = Some v"
  shows "acquired (consumer s)" and "sys_items s \<noteq> [] \<and> sys_deref s v = hd (sys_items s)"
proof -
  show a: "acquired (consumer s)" using assms(2) by (simp add: sys_view_def split: if_splits)
  have "unat (consumer_position (segment s)) < unat (producer_position (segment s))"
    using a assms(1) by (simp add: system_ok_def consumer_ok_def)
  then show "sys_items s \<noteq> [] \<and> sys_deref s v = hd (sys_items s)"
    using assms(2) a by (auto simp: sys_eqs [OF assms(1)] ring_items_first sys_deref_def)
qed

lemma sys_bounded: "system_ok n st cap s \<Longrightarrow> length (sys_items s) \<le> n"
  using ring_ok_items(1) [of n st cap "segment s"] sys_eqs(1) [of n st cap s]
  by (simp add: system_ok_def)

interpretation ring: event_queue sys_publish sys_acquire sys_release sys_deref sys_inv sys_items
  sys_view sys_count sys_admits
proof
  fix s assume "sys_inv s"
  then obtain n st cap where ok: "system_ok n st cap s" by (auto simp: sys_inv_iff)
  note geo = sys_geometry(1) [OF ok] and ok_inv = sys_eqs(3)
  show "length (sys_items s) \<le> sys_count s" using sys_bounded [OF ok] geo by simp
  show "sys_inv s' \<and> sys_items s' = sys_items s @ [e] \<and> sys_view s' = sys_view s \<and> sys_count s' = sys_count s"
    if "sys_admits e" "sys_publish s e = (Ok, s')" for e s'
    using sys_publish_keeps [OF ok that] sys_geometry(1) [of n st cap s'] geo ok_inv by auto
  show "sys_inv s' \<and> sys_items s' = sys_items s \<and> sys_view s' = sys_view s \<and> sys_count s' = sys_count s"
    if "sys_admits e" "sys_publish s e = (r, s')" "r \<noteq> Ok" for e r s'
    using sys_publish_keeps [OF ok that(1,2)] that(3) sys_geometry(1) [of n st cap s'] geo ok_inv by auto
  show "sys_inv s' \<and> sys_items s' = sys_items s \<and> sys_view s = None \<and> sys_view s' = Some v
      \<and> sys_count s' = sys_count s" if "sys_acquire s = (Inr v, s')" for v s'
    using sys_acquire_keeps [OF ok that] sys_geometry(1) [of n st cap s'] geo ok_inv by auto
  show "sys_inv s' \<and> sys_items s' = sys_items s \<and> sys_view s' = sys_view s \<and> sys_count s' = sys_count s"
    if "sys_acquire s = (Inl err, s')" for err s'
    using sys_acquire_keeps [OF ok that] sys_geometry(1) [of n st cap s'] geo ok_inv by auto
  show "\<exists>v s'. sys_acquire s = (Inr v, s')" if "sys_view s = None" "sys_items s \<noteq> []"
    using that sys_acquire_cases [OF ok] by (metis option.distinct(1) sys_eqs(2) [OF ok])
  show "sys_items s \<noteq> [] \<and> sys_deref s v = hd (sys_items s)" if "sys_view s = Some v" for v
    by (rule sys_view_first(2) [OF ok that])
  show "\<exists>s'. sys_release s = (True, s') \<and> sys_inv s' \<and> sys_items s' = tl (sys_items s)
      \<and> sys_view s' = None \<and> sys_count s' = sys_count s" if "sys_view s = Some v" for v
    using sys_release_keeps [OF ok sys_view_first(1) [OF ok that]] geo sys_geometry(1) ok_inv by metis
  show "sys_release s = (False, s)" if "sys_view s = None"
    using that by (simp add: sys_release_def release_def sys_view_def split: if_splits)
qed

section \<open>Closing\<close>

lemma closed_frame:
  assumes "geometry n st cap m" and "m' = write_u32 m 40 x"
  shows "pre_state m' = x" and "consumer_position m' = consumer_position m"
    and "producer_position m' = producer_position m" and "length m' = length m"
    and "192 \<le> j \<Longrightarrow> j < length m \<Longrightarrow> m' ! j = m ! j"
proof -
  have len: "192 \<le> length m" using geometryD(5) [OF assms(1)] by simp
  then show "pre_state m' = x" by (simp add: assms(2) preamble_defs mem_simps)
  have b: "m' ! j = m ! j" if "44 \<le> j" "j < length m" for j
    using that by (simp add: assms(2) write_bytes nth_store_outside)
  show "consumer_position m' = consumer_position m" "producer_position m' = producer_position m"
    using len by (auto intro!: cursor_and_state_cong b)
  show "length m' = length m" by (simp add: assms(2))
  show "192 \<le> j \<Longrightarrow> j < length m \<Longrightarrow> m' ! j = m ! j" by (simp add: b)
qed

lemma closed_slots:
  assumes "ring_ok n st cap m" and "m' = write_u32 m 40 x"
  shows "slot_event m' (slot_at n st i) = slot_event m (slot_at n st i)"
    and "slot_valid cap m' (slot_at n st i)"
    and "view_of m' (slot_at n st i) = view_of m (slot_at n st i)"
proof -
  have g: "geometry n st cap m" and v: "slot_valid cap m (slot_at n st i)"
    using assms(1) by (simp_all add: ring_ok_def)
  have same: "m' ! j = m ! j" if "slot_at n st i \<le> j" "j < slot_at n st i + st" for j
    using that slot_at_ge [of n st i] slot_in_segment [OF g, of i]
    by (intro closed_frame(5) [OF g assms(2)]) auto
  have st: "32 \<le> st" using geometryD(3) [OF g] by simp
  show "slot_event m' (slot_at n st i) = slot_event m (slot_at n st i)"
    using v geometryD(3) [OF g] slot_in_segment [OF g, of i] closed_frame(4) [OF g assms(2)]
    by (intro slot_event_cong [OF same]) (auto simp: slot_valid_def)
  show "slot_valid cap m' (slot_at n st i)" using v slot_valid_cong [OF same st] by simp
  show "view_of m' (slot_at n st i) = view_of m (slot_at n st i)"
    using slot_fields_cong [OF same st] by (simp add: view_of_def)
qed

lemma closed_system:
  assumes "system_ok n st cap s" and "s' = s\<lparr>segment := write_u32 (segment s) 40 x\<rparr>"
  shows "system_ok n st cap s'" and "sys_items s' = sys_items s" and "sys_view s' = sys_view s"
    and "pre_state (segment s') = x"
proof -
  have r: "ring_ok n st cap (segment s)" using assms(1) by (simp add: system_ok_def)
  then have g: "geometry n st cap (segment s)" by (simp add: ring_ok_def)
  note f = closed_frame [OF g refl, where x = x] and sl = closed_slots [OF r refl, where x = x]
  show ok: "system_ok n st cap s'"
    using assms(1) f sl
    by (auto simp: assms(2) system_ok_def ring_ok_def producer_ok_def consumer_ok_def geometry_def)
  show "sys_items s' = sys_items s" "sys_view s' = sys_view s" "pre_state (segment s') = x"
    using f sl by (simp_all add: sys_eqs(1,2) [OF ok] sys_eqs(1,2) [OF assms(1)] ring_items_def)
      (simp_all add: assms(2))
qed

text \<open>After closing, calls leave the state word alone and every publication is refused.\<close>

lemma sys_publish_closed:
  "pre_state (segment s) \<noteq> ring_state_value Ready \<Longrightarrow> sys_publish s e = (PublishResult.Closed, s)"
  by (auto simp: sys_publish_def try_publish_def)

lemma closed_step:
  assumes "ring.client_inv c" and "pre_state (segment (queue_state c)) = 3"
    and "c' = client_step sys_publish sys_acquire sys_release sys_deref c k"
  shows "pre_state (segment (queue_state c')) = 3 \<and> published c' = published c"
proof (cases k)
  case (Publish e)
  then show ?thesis using assms(2,3) sys_publish_closed [of "queue_state c" e] by simp
next
  case Acquire
  then show ?thesis using assms(2,3) by (simp add: sys_acquire_def split: prod.splits)
next
  case Release
  have "192 \<le> length (segment (queue_state c))"
    using assms(1) by (auto simp: ring.client_inv_def sys_inv_iff system_ok_def ring_ok_def
        dest: geometryD(5))
  then have "pre_state (fst (snd (release (segment (queue_state c)) r))) = 3" for r
    using assms(2) by (simp add: release_def preamble_defs write_bytes mem_simps)
  then show ?thesis using assms(3) Release by (simp add: sys_release_def split: prod.splits)
      (metis fst_conv snd_conv)
qed

lemma closed_run:
  assumes "ring.client_inv c" and "pre_state (segment (queue_state c)) = 3"
    and "list_all ring.call_ok calls"
  shows "pre_state (segment (queue_state
      (client_run sys_publish sys_acquire sys_release sys_deref c calls))) = 3"
  using assms
proof (induction calls arbitrary: c)
  case (Cons k calls)
  then show ?case
    using closed_step [OF Cons.prems(1,2) refl, of k] ring.client_inv_step [of c k]
    by (simp add: client_run_def)
qed (simp add: client_run_def)

lemma acquire_closed:
  assumes "sys_inv s" and "sys_view s = None" and "sys_items s = []" and "pre_state (segment s) = 3"
  shows "fst (sys_acquire s) = Inl Closed"
proof -
  obtain n st cap where ok: "system_ok n st cap s" using assms(1) by (auto simp: sys_inv_iff)
  have "\<not> acquired (consumer s)" using assms(2) by (simp add: sys_view_def split: if_splits)
  then show ?thesis
    using assms(3,4) ok try_acquire_cases [of n st cap "segment s" "consumer s"] sys_eqs(1) [OF ok]
    by (simp add: sys_acquire_def system_ok_def)
qed

text \<open>Where a call writes and which spans it hands out, for any content of the segment.\<close>

lemma publish_in_slot:
  assumes "geometry n st cap m" and "handle_ok n st cap h" and "addressable (payload e)"
    and "try_publish m h e = (r, m', h')"
  shows "length m' = length m"
    and "r = Ok \<Longrightarrow> slot_of h (producer_position m) + 32 + length (payload e) \<le> length m"
    and "j < length m \<Longrightarrow> j < 64 \<or> 72 \<le> j \<and> j < slot_of h (producer_position m)
      \<or> slot_of h (producer_position m) + st \<le> j \<Longrightarrow> m' ! j = m ! j"
proof -
  have cap: "unat (r_slot_payload_capacity h) = cap" using assms(2) by (simp add: handle_ok_def)
  note s = slot_of_eq [OF assms(1,2), of "producer_position m"]
  note g = geometryD(3) [OF assms(1)] slot_in_segment [OF assms(1), of "unat (producer_position m)"]
    slot_at_ge [of n st "unat (producer_position m)"]
  have fits: "length (payload e) \<le> cap" if "r = Ok"
    using that assms(3,4) cap by (auto simp: try_publish_def Let_def word_less_nat_alt unat_ucast_u32
        unat_span_size split: if_splits)
  have w: "r = Ok \<and> m' = write_slot m h (producer_position m) e \<or> m' = m \<and> r \<noteq> Ok"
    using assms(4) by (auto simp: try_publish_def Let_def split: if_splits)
  then show "length m' = length m" by auto
  show "r = Ok \<Longrightarrow> slot_of h (producer_position m) + 32 + length (payload e) \<le> length m"
    using fits g s by simp
  assume j: "j < length m" "j < 64 \<or> 72 \<le> j \<and> j < slot_of h (producer_position m)
      \<or> slot_of h (producer_position m) + st \<le> j"
  from w show "m' ! j = m ! j"
  proof
    assume "r = Ok \<and> m' = write_slot m h (producer_position m) e"
    then show ?thesis
      using j fits g s by (auto intro!: write_slot_frame [OF refl, where st = st])
  qed simp
qed

lemma acquire_in_slot:
  assumes "geometry n st cap m" and "handle_ok n st cap h" and "try_acquire m h = (Inr v, h')"
  shows "snd (payload v) \<le> cap \<and> (\<exists>i < n. fst (payload v) = 192 + st * i + 32
      \<and> fst (payload v) + snd (payload v) \<le> 192 + st * (i + 1) \<and> 192 + st * (i + 1) \<le> length m)"
proof -
  have cap: "unat (r_slot_payload_capacity h) = cap" using assms(2) by (simp add: handle_ok_def)
  note s = slot_of_eq [OF assms(1,2)] slot_in_segment [OF assms(1)] geometryD(1,3) [OF assms(1)]
  obtain h'' where "read_slot m h'' (consumer_position m) = (Inr v, h')"
    and "h'' = h \<or> h'' = h\<lparr>cached_write_position := producer_position m\<rparr>"
    using assms(3) by (auto simp: try_acquire_def Let_def split: if_splits)
  then have v: "payload v = (slot_of h (consumer_position m) + 32,
      unat (slot_payload_length m (slot_of h (consumer_position m))))"
    "\<not> invalid_slot m (slot_of h (consumer_position m)) (r_slot_payload_capacity h)"
    by (auto simp: read_slot_def Let_def ring_constants split: if_splits)
  define i where "i = unat (consumer_position m) mod n"
  have "i < n" using s(3) by (simp add: i_def)
  moreover have "slot_of h (consumer_position m) = 192 + st * i" by (simp add: s(1) slot_at_def i_def)
  ultimately show ?thesis
    using v s(2) [of "unat (consumer_position m)"] s(1,4) cap
    by (intro conjI exI [of _ i]) (auto simp: invalid_slot_iff slot_valid_def)
qed

section \<open>Properties of the queue\<close>

text \<open>
  C27. \<open>try_publish\<close> on a well-formed ring decides in the code's order: a ring that is not Ready is
  Closed, a payload over the slot capacity is PayloadTooLarge, an exhausted write cursor is Closed,
  a ring that holds \<open>slot_count\<close> events is Full, whatever the cached read cursor says; otherwise
  the event is appended behind the queued ones. A refused event changes no byte of the segment,
  and the ring and both handles stay well formed.
\<close>

theorem try_publish_decides:
  assumes "ring_ok n st cap m" and "producer_ok n st cap m p" and "consumer_ok n st cap m c"
    and "addressable (payload e)" and "try_publish m p e = (r, m', p')"
  shows "r = (if pre_state m \<noteq> ring_state_value Ready then PublishResult.Closed
      else if cap < length (payload e) then PublishResult.PayloadTooLarge
      else if unat (producer_position m) = 2 ^ 64 - 1 then PublishResult.Closed
      else if length (ring_items n st m) = n then Full else Ok)
    \<and> (r \<noteq> Ok \<longrightarrow> m' = m)
    \<and> (r = Ok \<longrightarrow> ring_items n st m' = ring_items n st m @ [e]
        \<and> consumer_position m' = consumer_position m \<and> pre_state m' = pre_state m)
    \<and> ring_ok n st cap m' \<and> producer_ok n st cap m' p' \<and> consumer_ok n st cap m' c"
proof -
  note t = try_publish_cases [OF assms(1,2,4), unfolded assms(5)]
  note p = producer_ok_reloaded [OF assms(2)]
  have max: "unat (producer_position m) = 18446744073709551615 \<longleftrightarrow> producer_position m = u64_max"
    by (simp add: word_unat_eq_iff)
  show ?thesis
  proof (cases "r = Ok")
    case True
    then have pub: "publishable n st cap m p e"
      using t by (intro publishableI assms) (auto split: if_splits)
    show ?thesis
      using t True published_handles [OF pub] published_cursors(2,3) [OF pub] assms(2,3) p
      by (auto simp: max published_items [OF pub] published_ring_ok [OF pub]
          simp del: length_ring_items split: if_splits)
  next
    case False
    then show ?thesis
      using t assms p by (auto simp: max simp del: length_ring_items split: if_splits)
  qed
qed

text \<open>
  C28. \<open>try_acquire\<close> on a well-formed ring: AlreadyAcquired while an event is held; on an empty ring
  Closed if the state word says so and Empty otherwise; else a view whose fields and payload bytes
  are the oldest event of the queue, which \<open>release\<close> then removes. InvalidSlot never happens, and
  the segment is not written by an acquisition.
\<close>

theorem try_acquire_decides:
  assumes "ring_ok n st cap m" and "consumer_ok n st cap m c" and "try_acquire m c = (r, c')"
  shows "(case r of
      Inl AlreadyAcquired \<Rightarrow> acquired c
    | Inl Empty \<Rightarrow> \<not> acquired c \<and> ring_items n st m = [] \<and> pre_state m \<noteq> 3
    | Inl Closed \<Rightarrow> \<not> acquired c \<and> ring_items n st m = [] \<and> pre_state m = 3
    | Inl InvalidSlot \<Rightarrow> False
    | Inr v \<Rightarrow> \<not> acquired c \<and> acquired c' \<and> (\<exists>rest m' c''. ring_items n st m = deref m v # rest
        \<and> release m c' = (True, m', c'') \<and> \<not> acquired c'' \<and> ring_items n st m' = rest
        \<and> ring_ok n st cap m' \<and> consumer_ok n st cap m' c''))
    \<and> consumer_ok n st cap m c'"
proof -
  have *: "acquired c \<Longrightarrow> r = Inl AlreadyAcquired \<and> c' = c"
    "\<not> acquired c \<Longrightarrow> ring_items n st m = [] \<Longrightarrow>
       r = Inl (if pre_state m = 3 then Closed else Empty) \<and> c' = reloaded_write m c"
    "\<not> acquired c \<Longrightarrow> ring_items n st m \<noteq> [] \<Longrightarrow>
       r = Inr (view_of m (slot_at n st (unat (consumer_position m)))) \<and> c' = holding m c"
    using assms(3) by (simp_all add: try_acquire_cases [OF assms(1,2)])
  note h = consumer_ok_holding [OF assms(1,2)]
  have "consumer_ok n st cap m c'"
    using * h consumer_ok_reloaded [OF assms(2)] assms(2) by metis
  moreover have "\<exists>rest m' c''. ring_items n st m = slot_event m (slot_at n st (unat (consumer_position m))) # rest
      \<and> release m (holding m c) = (True, m', c'') \<and> \<not> acquired c'' \<and> ring_items n st m' = rest
      \<and> ring_ok n st cap m' \<and> consumer_ok n st cap m' c''" if ne: "ring_items n st m \<noteq> []"
  proof -
    have lt: "unat (consumer_position m) < unat (producer_position m)"
      using ne ring_ok_items(2) [OF assms(1)] assms(1) by (auto simp: ring_ok_def)
    have "acquired (holding m c)" by (simp add: holding_def)
    note r = released_ok [OF assms(1) h [OF ne] this]
    show ?thesis
      using r(1-3,5) ring_items_first [OF lt, of n st] by (intro exI conjI) auto
  qed
  moreover have "acquired (holding m c)" by (simp add: holding_def)
  ultimately show ?thesis
    using * by (cases "acquired c"; cases "ring_items n st m = []") (simp_all add: deref_view_of)
qed

text \<open>
  A held event is never overwritten: however many events the producer publishes while the
  consumer holds a view, up to filling the ring many times over, the view still reads the same
  event through the shared payload span.
\<close>

theorem held_view_is_stable:
  assumes "sys_inv s" and "sys_view s = Some v" and "list_all (\<lambda>e. addressable (payload e)) es"
    and "s' = foldl (\<lambda>s e. snd (sys_publish s e)) s es"
  shows "sys_deref s' v = sys_deref s v \<and> sys_view s' = Some v"
  using ring.publishes_keep_view [OF assms(1) _ assms(2), of es] assms(3,4)
  by (simp add: list.pred_mono_strong sys_admits_def [abs_def])

text \<open>
  C39. No content of the segment leads a call outside it: with a handle whose geometry was
  validated, but cursors and slots that may hold anything, \<open>try_publish\<close> writes only the producer
  cursor and the bytes of one slot that lies in the segment, and \<open>try_acquire\<close> only hands out
  payload spans that lie in one slot of the segment and are no longer than the slot capacity.
\<close>

theorem data_path_stays_in_segment:
  assumes "geometry n st cap m" and "handle_ok n st cap h" and "addressable (payload e)"
  shows "(case try_publish m h e of (r, m', _) \<Rightarrow> length m' = length m
      \<and> (r = Ok \<longrightarrow> slot_of h (producer_position m) + 32 + length (payload e) \<le> length m)
      \<and> (\<forall>j < length m. j < 64 \<or> 72 \<le> j \<and> j < slot_of h (producer_position m)
          \<or> slot_of h (producer_position m) + st \<le> j \<longrightarrow> m' ! j = m ! j))
    \<and> (case fst (try_acquire m h) of Inr v \<Rightarrow> snd (payload v) \<le> cap
      \<and> (\<exists>i < n. fst (payload v) = 192 + st * i + 32 \<and> fst (payload v) + snd (payload v) \<le> 192 + st * (i + 1)
          \<and> 192 + st * (i + 1) \<le> length m)
      | Inl _ \<Rightarrow> True)"
proof -
  obtain r m' h' where t: "try_publish m h e = (r, m', h')" by (metis prod_cases3)
  have "snd (payload v) \<le> cap \<and> (\<exists>i < n. fst (payload v) = 192 + st * i + 32
      \<and> fst (payload v) + snd (payload v) \<le> 192 + st * (i + 1) \<and> 192 + st * (i + 1) \<le> length m)"
    if "fst (try_acquire m h) = Inr v" for v
    using acquire_in_slot [OF assms(1,2), of v "snd (try_acquire m h)"] that by (metis prod.collapse)
  then show ?thesis
    using publish_in_slot [OF assms t] t by (auto split: sum.splits)
qed

text \<open>
  Closing loses nothing: after \<open>close_publication\<close> no publication succeeds any more, a consumer
  that acquires and releases in turn still gets every queued event, in order and unchanged, and only
  then, with the queue empty, does \<open>try_acquire\<close> answer Closed.
\<close>

theorem closing_loses_nothing:
  assumes "sys_inv s" and "sys_view s = None" and "close_publication (segment s) h = (True, m')"
    and "s' = s\<lparr>segment := m'\<rparr>"
    and "c = client_run sys_publish sys_acquire sys_release sys_deref
      ((new_client s')\<lparr>published := sys_items s\<rparr>)
      (concat (replicate (length (sys_items s)) [Acquire, Release]))"
  shows "fst (sys_publish s' e) = PublishResult.Closed \<and> consumed c = sys_items s
    \<and> fst (sys_acquire (queue_state c)) = Inl Closed
    \<and> fst (sys_publish (queue_state c) e) = PublishResult.Closed"
proof -
  obtain n st cap where ok: "system_ok n st cap s" using assms(1) by (auto simp: sys_inv_iff)
  have "s' = s\<lparr>segment := write_u32 (segment s) 40 3\<rparr>"
    using assms(3,4) by (auto simp: close_publication_def split: if_splits)
  note cl = closed_system [OF ok this]
  define c0 :: "(ring_system, slot_view) client" where "c0 = (new_client s')\<lparr>published := sys_items s\<rparr>"
  have i: "ring.client_inv c0" "held_view c0 = None" "queue_state c0 = s'" "consumed c0 = []"
    using cl sys_eqs(3) [OF cl(1)] assms(2) by (auto simp: c0_def new_client_def ring.client_inv_def)
  note d = ring.run_drain [OF i(1,2), of c]
  have c: "c = client_run sys_publish sys_acquire sys_release sys_deref c0
      (concat (replicate (length (sys_items (queue_state c0))) [Acquire, Release]))"
    using assms(5) cl(2) i(3) by (simp add: c0_def)
  have "list_all ring.call_ok (concat (replicate (length (sys_items (queue_state c0))) [Acquire, Release]))"
    by (auto simp: list_all_iff ring.call_ok_def)
  then have st: "pre_state (segment (queue_state c)) = 3"
    using closed_run [OF i(1)] cl(4) c by (simp add: i(3))
  show ?thesis
    using d [OF c] acquire_closed st cl sys_publish_closed [of s' e] sys_publish_closed [of "queue_state c" e]
    by (simp add: i)
qed

end
