(* ===== verification/Engine_Types.thy ===== *)
theory Engine_Types
  imports Udp_Transport Shm_Segment Ring_System
begin

text \<open>
  What the two engines share: include/lle/config.hpp, init_error.hpp and stats.hpp, and the retry
  loop around \<open>getrandom\<close> that both \<open>initialize\<close> functions contain.
\<close>

section \<open>Configuration\<close>

record Endpoint =
  address :: string
  port :: u16

record SenderConfig =
  ingress_shm_name :: string
  receivers :: "Endpoint list"
  max_datagram_bytes :: u32
  retransmit_window_packets :: u32
  tx_delivery_mode :: DeliveryMode
  tx_cpu :: int
  busy_spin_ingress :: bool

record ReceiverConfig =
  listen :: Endpoint
  nack_target :: Endpoint
  egress_shm_name :: string
  egress_ring :: RingConfig
  rx_delivery_mode :: DeliveryMode
  reorder_window_packets :: u32
  recovery_timeout_us :: u32
  rx_cpu :: int
  busy_poll_us :: int

datatype InitError = InvalidConfig | SharedMemory | Ring | AddressResolution | Socket | SessionId

section \<open>Statistics\<close>

record EngineStats =
  events_in :: u64
  events_out :: u64
  packets_sent :: u64
  packets_received :: u64
  gaps_detected :: u64
  packets_missed :: u64
  duplicate_or_old_packets :: u64
  wrong_session_packets :: u64
  nack_sent :: u64
  retransmitted :: u64
  recovered :: u64
  unrecovered :: u64
  ingress_full :: u64
  malformed_packets :: u64
  events_dropped :: u64
  encode_errors :: u64
  send_errors :: u64
  ingress_errors :: u64
  receive_errors :: u64
  egress_full :: u64
  egress_errors :: u64

definition zero_stats :: EngineStats where
  "zero_stats = \<lparr>events_in = 0, events_out = 0, packets_sent = 0, packets_received = 0,
     gaps_detected = 0, packets_missed = 0, duplicate_or_old_packets = 0, wrong_session_packets = 0,
     nack_sent = 0, retransmitted = 0, recovered = 0, unrecovered = 0, ingress_full = 0,
     malformed_packets = 0, events_dropped = 0, encode_errors = 0, send_errors = 0,
     ingress_errors = 0, receive_errors = 0, egress_full = 0, egress_errors = 0\<rparr>"

text \<open>How a pass through an engine's loop ends: the next pass follows, or the loop is left.\<close>

datatype flow = Continue | Break

section \<open>A random number that is not zero\<close>

text \<open>
  The loop \<open>while (id == 0)\<close> around \<open>getrandom\<close>: it starts again when a signal interrupts the call
  or the number is zero, and gives up when the call fails otherwise or delivers fewer bytes. It has
  no bound of its own, so a call that never returns is the value None; \<open>bytes\<close> is the size of the
  number.
\<close>

partial_function (option) nonzero_random :: "nat \<Rightarrow> os \<Rightarrow> (u64 option \<times> os) option" where
  "nonzero_random bytes w =
    (let (r, w1) = run_state (call (Getrandom_call bytes)) w
     in if ret r < 0 \<and> errno r = EINTR then nonzero_random bytes w1
        else if ret r \<noteq> int bytes then Some (None, w1)
        else if take_bit (8 * bytes) (answer r) = 0 then nonzero_random bytes w1
        else Some (Some (take_bit (8 * bytes) (answer r)), w1))"

text \<open>The replies after which the loop tries again, and the number of the first other one.\<close>

definition tries_again :: "nat \<Rightarrow> reply \<Rightarrow> bool" where
  "tries_again bytes r \<longleftrightarrow> ret r < 0 \<and> errno r = EINTR
     \<or> ret r = int bytes \<and> take_bit (8 * bytes) (answer r) = 0"

lemma nonzero_random_step:
  "nonzero_random bytes w =
    (let r = replies w (length (trace w));
         w1 = w\<lparr>trace := trace w @ [(Getrandom_call bytes, r)]\<rparr>
     in if tries_again bytes r then nonzero_random bytes w1
        else Some (if ret r = int bytes then Some (take_bit (8 * bytes) (answer r)) else None, w1))"
  by (subst nonzero_random.simps) (auto simp: Let_def tries_again_def)

lemma keeps_getrandom [simp]: "keeps w (w\<lparr>trace := trace w @ [(Getrandom_call b, r)]\<rparr>)"
  by (simp add: keeps_call)

text \<open>The loop ends as soon as the system once does not ask it to try again.\<close>

lemma nonzero_random_ends:
  assumes "\<not> tries_again bytes (replies w (length (trace w) + k))"
  shows "\<exists>v w'. nonzero_random bytes w = Some (v, w')"
  using assms
proof (induction k arbitrary: w)
  case 0
  then show ?case by (subst nonzero_random_step) (simp add: Let_def)
next
  case (Suc k)
  let ?r = "replies w (length (trace w))"
  let ?w = "w\<lparr>trace := trace w @ [(Getrandom_call bytes, ?r)]\<rparr>"
  have "\<exists>v w'. nonzero_random bytes ?w = Some (v, w')"
    using Suc.prems by (intro Suc.IH) simp
  then show ?case by (subst nonzero_random_step) (simp add: Let_def)
qed

text \<open>What it delivers is not zero, and it takes no resource.\<close>

lemma retry_cases:
  "(if c then a else if d then Some x else if z then a else Some y) = Some r \<Longrightarrow>
    a = Some r \<or> r = x \<or> r = y \<and> \<not> z"
  by (auto split: if_splits)

lemma nonzero_random_result:
  assumes "nonzero_random bytes w = Some r"
  shows "keeps w (snd r) \<and> (\<forall>x. fst r = Some x \<longrightarrow> x \<noteq> 0 \<and> take_bit (8 * bytes) x = x)"
proof (rule nonzero_random.raw_induct [OF _ assms])
  fix nr bytes w r
  assume ih: "\<And>b w r. nr b w = Some r \<Longrightarrow>
      keeps w (snd r) \<and> (\<forall>x. fst r = Some x \<longrightarrow> x \<noteq> 0 \<and> take_bit (8 * b) x = x)"
    and body: "(let (r, w1) = run_state (call (Getrandom_call bytes)) w
     in if ret r < 0 \<and> errno r = EINTR then nr bytes w1
        else if ret r \<noteq> int bytes then Some (None, w1)
        else if take_bit (8 * bytes) (answer r) = 0 then nr bytes w1
        else Some (Some (take_bit (8 * bytes) (answer r)), w1)) = Some r"
  let ?r = "replies w (length (trace w))"
  let ?w = "w\<lparr>trace := trace w @ [(Getrandom_call bytes, ?r)]\<rparr>"
  let ?x = "take_bit (8 * bytes) (answer ?r)"
  let ?c = "ret ?r < 0 \<and> errno ?r = EINTR" and ?d = "ret ?r \<noteq> int bytes"
  have e: "(if ?c then nr bytes ?w else if ?d then Some (None, ?w)
      else if ?x = 0 then nr bytes ?w else Some (Some ?x, ?w)) = Some r"
    using body unfolding run_call Let_def prod.case .
  consider "nr bytes ?w = Some r" | "r = (None, ?w)" | "r = (Some ?x, ?w)" "?x \<noteq> 0"
    using retry_cases [OF e] by blast
  then show "keeps w (snd r) \<and> (\<forall>x. fst r = Some x \<longrightarrow> x \<noteq> 0 \<and> take_bit (8 * bytes) x = x)"
  proof cases
    case 1
    note h = ih [OF this]
    have "keeps w (snd r)" by (rule keeps_trans [OF keeps_getrandom conjunct1 [OF h]])
    then show ?thesis using conjunct2 [OF h] by blast
  next
    case 2
    show ?thesis unfolding 2 by simp
  next
    case 3
    have "keeps w ?w" by (rule keeps_getrandom)
    moreover have "take_bit (8 * bytes) ?x = ?x" by simp
    ultimately show ?thesis unfolding 3(1) fst_conv snd_conv using 3(2) by blast
  qed
qed

end
