(* ===== verification/Encoder.thy ===== *)
theory Encoder
  imports Protocol_Types
begin

text \<open>
  \<open>encode_data\<close> (src/protocol/encoder.cpp). The caller's buffer is passed in and out, so
  what a failing call leaves in it is part of the result. The lemmas show which calls succeed,
  that a success writes exactly the layout \<open>packet_of\<close> and touches no byte after it, and
  that a failure changes nothing.
\<close>

definition encode_data ::
  "event \<Rightarrow> u32 \<Rightarrow> u64 \<Rightarrow> byte list \<Rightarrow> (EncodeError + size_t) \<times> byte list" where
  "encode_data event session_id packet_sequence output =
    (if session_id = 0 then (Inl EncodeError.InvalidSessionId, output)
     else if packet_sequence = 0 then (Inl EncodeError.InvalidPacketSequence, output)
     else if sequence event = 0 then (Inl EncodeError.InvalidEventSequence, output)
     else if span_size (payload event) > kMaxSingleEventPayloadBytes
       then (Inl EncodeError.PayloadTooLarge, output)
     else
       let payload_size = span_size (payload event);
           frame_size =
             align_up (payload_size + kEventFrameHeaderBytes) kEventFrameAlignmentBytes;
           packet_size = frame_size + kDataFixedBytes
       in if packet_size > span_size output then (Inl OutputTooSmall, output)
          else
            let o1 = output[0 := kMagic];
                o2 = o1[1 := push_bit 4 kVersion OR message_type_value Data];
                o3 = write_u16 o2 2 (ucast packet_size);
                o4 = write_u32 o3 4 session_id;
                o5 = write_u64 o4 8 packet_sequence;
                o6 = write_u64 o5 16 (sequence event);
                o7 = write_u64 o6 24 (source_timestamp_ns event);
                o8 = write_u32 o7 32 (stream_id event);
                o9 = write_u32 o8 36 0;
                o10 = write_u16 o9 40 (ucast payload_size);
                o11 = store_bytes o10 42 (payload event);
                o12 = fill_bytes o11 (42 + unat payload_size)
                        (unat packet_size - (42 + unat payload_size)) 0
            in (Inr packet_size, o12))"

section \<open>Sizes\<close>

text \<open>The packet size of the code for an admitted payload, and its comparison with the buffer.\<close>

abbreviation (input) code_packet_size :: "event \<Rightarrow> size_t" where
  "code_packet_size e \<equiv>
     align_up (span_size (payload e) + kEventFrameHeaderBytes) kEventFrameAlignmentBytes
     + kDataFixedBytes"

lemma unat_code_packet_size:
  assumes "length (payload e) \<le> 1374"
  shows "unat (code_packet_size e) = packet_len (length (payload e))"
proof -
  have s: "unat (span_size (payload e)) = length (payload e)"
    using assms by (intro unat_span_size addressable_smallI) simp
  have "unat (align_up (span_size (payload e) + 6) 4) = frame_len (length (payload e))"
    using unat_align_frame [of "span_size (payload e)"] assms s by simp
  moreover have "frame_len (length (payload e)) \<le> 1380"
    using assms by (rule frame_len_max)
  ultimately show ?thesis
    by (simp add: wire_constants unat_word_ariths packet_len_def)
qed

lemma payload_check_iff:
  "addressable (payload e) \<Longrightarrow>
     span_size (payload e) > kMaxSingleEventPayloadBytes \<longleftrightarrow> 1374 < length (payload e)"
  by (simp add: word_less_nat_alt size_simps wire_constants)

lemma output_check_iff:
  assumes "length (payload e) \<le> 1374" and "addressable out"
  shows "code_packet_size e > span_size out \<longleftrightarrow> length out < packet_len (length (payload e))"
  using assms by (simp only: word_less_nat_alt unat_code_packet_size unat_span_size)

section \<open>What a successful call writes\<close>

text \<open>The run of assignments is one store of the whole packet.\<close>

lemma store_bytes_at:
  "q = p + length as \<Longrightarrow> store_bytes (store_bytes m p as) q bs = store_bytes m p (as @ bs)"
  by (simp add: store_bytes_append)

lemma encode_stores_packet:
  assumes ok: "encodable sid seq e" and small: "length (payload e) \<le> 1374"
    and room: "packet_len (length (payload e)) \<le> length out" and "addressable out"
  shows "encode_data e sid seq out =
    (Inr (word_of_nat (packet_len (length (payload e)))), store_bytes out 0 (packet_of sid seq e))"
proof -
  let ?n = "length (payload e)" and ?s = "code_packet_size e"
  have n: "unat (span_size (payload e)) = ?n"
    using small by (intro unat_span_size addressable_smallI) simp
  have s: "unat ?s = packet_len ?n" using small by (rule unat_code_packet_size)
  then have sw: "?s = word_of_nat (packet_len ?n)"
    by (rule word_of_nat_unat)
  have pc: "\<not> span_size (payload e) > kMaxSingleEventPayloadBytes"
    using payload_check_iff [of e] small by (simp add: addressable_def)
  have oc: "\<not> ?s > span_size out"
    using output_check_iff [OF small assms(4)] room by simp
  have pad: "packet_len ?n - (42 + ?n) = padding_len ?n" by (simp add: padding_len_def)
  have first_two: "(out[0 := kMagic])[1 := push_bit 4 kVersion OR message_type_value Data] =
      store_bytes out 0 [0x4c, 0x11]"
    by (simp add: wire_constants)
  have z: "ucast ?s = (word_of_nat (packet_len ?n) :: u16)"
    "ucast (span_size (payload e)) = (word_of_nat ?n :: u16)"
    by (subst sw, rule ucast_of_nat, simp) (unfold span_size_def, rule ucast_of_nat, simp)
  show ?thesis
    using ok pc oc
    unfolding encode_data_def Let_def first_two
    by (simp add: encodable_def n s z pad write_bytes fill_bytes_def store_bytes_at
        packet_of_def first_frame_packet_def data_header_def sw [symmetric] wire_constants(1)
        del: store_bytes.simps)
qed

section \<open>Which calls succeed\<close>

lemma encode_rejects:
  assumes "addressable (payload e)" and "addressable out"
    and "\<not> (encodable sid seq e \<and> packet_len (length (payload e)) \<le> length out)"
  shows "\<exists>err. encode_data e sid seq out = (Inl err, out)"
proof (cases "sid = 0 \<or> seq = 0 \<or> sequence e = 0 \<or> 1374 < length (payload e)")
  case True
  then show ?thesis
    using payload_check_iff [OF assms(1)] by (auto simp: encode_data_def)
next
  case False
  then have small: "length (payload e) \<le> 1374" by simp
  have "length out < packet_len (length (payload e))"
    using assms(3) False by (auto simp: encodable_def)
  then have "code_packet_size e > span_size out"
    using output_check_iff [OF small assms(2)] by simp
  then show ?thesis by (auto simp: encode_data_def Let_def)
qed

lemma encode_cases:
  assumes "addressable (payload e)" and "addressable out"
  obtains (stored) "encodable sid seq e" and "packet_len (length (payload e)) \<le> length out"
      and "encode_data e sid seq out =
        (Inr (word_of_nat (packet_len (length (payload e)))),
         store_bytes out 0 (packet_of sid seq e))"
    | (rejected) err where "encode_data e sid seq out = (Inl err, out)"
      and "\<not> (encodable sid seq e \<and> packet_len (length (payload e)) \<le> length out)"
proof (cases "encodable sid seq e \<and> packet_len (length (payload e)) \<le> length out")
  case True
  then show ?thesis
    using encode_stores_packet [of sid seq e out] assms(2) stored by (simp add: encodable_def)
next
  case False
  then show ?thesis using encode_rejects [OF assms] rejected by blast
qed

lemma unat_packet_len: "n \<le> 1374 \<Longrightarrow> unat (word_of_nat (packet_len n) :: size_t) = packet_len n"
  using packet_len_max [of n] by (simp add: unat_of_nat)

text \<open>
  C37. Encoding succeeds exactly when the session, packet and event sequence are nonzero, the
  payload is within the limit of 1374 bytes and the padded packet fits the buffer. A success
  writes exactly the version 1 layout of docs/protocol.md at the front of the buffer, reports
  its size, and leaves every later byte of the buffer alone; a failure leaves the whole buffer
  alone.
\<close>

theorem encode_data_implements_layout:
  assumes "addressable (payload e)" and "addressable out"
  shows "case encode_data e sid seq out of
      (Inr n, out') \<Rightarrow>
        encodable sid seq e \<and> packet_len (length (payload e)) \<le> length out
        \<and> unat n = packet_len (length (payload e))
        \<and> take (unat n) out' = packet_of sid seq e \<and> drop (unat n) out' = drop (unat n) out
    | (Inl err, out') \<Rightarrow>
        out' = out \<and> \<not> (encodable sid seq e \<and> packet_len (length (payload e)) \<le> length out)"
proof (rule encode_cases [OF assms, of sid seq])
  assume ok: "encodable sid seq e" and room: "packet_len (length (payload e)) \<le> length out"
    and eq: "encode_data e sid seq out =
      (Inr (word_of_nat (packet_len (length (payload e)))), store_bytes out 0 (packet_of sid seq e))"
  have "unat (word_of_nat (packet_len (length (payload e))) :: size_t)
      = packet_len (length (payload e))"
    using ok by (intro unat_packet_len) (simp add: encodable_def)
  with ok room eq take_store_0 [of "packet_of sid seq e" out]
    drop_store_0 [of "packet_of sid seq e" "packet_len (length (payload e))" out]
  show ?thesis by simp
qed simp

text \<open>The packet of the encoder's own unit test: three payload bytes in a buffer of 50.\<close>

definition sample_event :: event where
  "sample_event = \<lparr>stream_id = 0x31323334, sequence = 0x1112131415161718,
     source_timestamp_ns = 0x2122232425262728, payload = [0xDE, 0xAD, 0xBE]\<rparr>"

theorem encode_data_implements_layout_witness:
  "(case encode_data sample_event 0x01020304 0x0102030405060708 (replicate 50 7) of
      (Inr n, out') \<Rightarrow>
        unat n = 48 \<and> take 48 out' = packet_of 0x01020304 0x0102030405060708 sample_event
        \<and> drop 48 out' = replicate 2 7
    | (Inl err, out') \<Rightarrow> False)"
proof -
  let ?r = "encode_data sample_event 0x01020304 0x0102030405060708 (replicate 50 7)"
  have "addressable (payload sample_event)" and "addressable (replicate 50 (7 :: byte))"
    by (simp_all add: addressable_def sample_event_def)
  note app = encode_data_implements_layout [OF this, of "0x01020304" "0x0102030405060708"]
  have len: "packet_len (length (payload sample_event)) = 48"
    by (simp add: sample_event_def packet_len_def frame_len_def round_up_def)
  have "encodable 0x01020304 0x0102030405060708 sample_event"
    by (simp add: encodable_def sample_event_def)
  with app len show ?thesis
    by (auto split: prod.splits sum.splits)
qed

end
