(* ===== verification/Sender_Engine.thy ===== *)
theory Sender_Engine
  imports Engine_Types Encoder
begin

text \<open>
  The sender engine (include/lle/sender.hpp, src/sender/sender.cpp). \<open>sender_pass\<close> is one pass
  through the loop of \<open>run()\<close> with its packet buffer and the shared segment passed along; the
  system around it, the application that publishes on the ring and the thread that requests the
  stop, is the step function \<open>sender_step\<close> on a world, so a list of actions is an interleaving.
\<close>

section \<open>The engine\<close>

record Sender =
  s_config :: SenderConfig
  s_segment :: SharedMemorySegment
  s_ingress :: SpscRing
  s_udp :: UdpSender
  s_destinations :: "UdpAddress list"
  s_session_id :: u32
  s_packet_sequence :: u64
  s_stop_requested :: bool
  s_stats :: EngineStats

definition make_sender :: "SenderConfig \<Rightarrow> SharedMemorySegment \<Rightarrow> SpscRing \<Rightarrow> UdpSender
    \<Rightarrow> UdpAddress list \<Rightarrow> u32 \<Rightarrow> Sender" where
  "make_sender config seg ingress udp destinations session_id =
     \<lparr>s_config = config, s_segment = seg, s_ingress = ingress, s_udp = udp,
      s_destinations = destinations, s_session_id = session_id, s_packet_sequence = 1,
      s_stop_requested = False, s_stats = zero_stats\<rparr>"

definition sender_request_stop :: "Sender \<Rightarrow> Sender" where
  "sender_request_stop s = s\<lparr>s_stop_requested := True\<rparr>"

text \<open>\<open>stats()\<close> copies the counters, which the engine goes on to change.\<close>

definition sender_stats :: "Sender \<Rightarrow> EngineStats" where
  [simp]: "sender_stats s = s_stats s"

text \<open>The move constructor: the old engine is emptied and told to stop.\<close>

definition move_sender_engine :: "Sender \<Rightarrow> Sender \<times> Sender" where
  "move_sender_engine other =
     (other, sender_request_stop (other\<lparr>s_segment := moved_from (s_segment other),
        s_ingress := empty_ring, s_udp := \<lparr>tx_fd = -1\<rparr>, s_destinations := []\<rparr>))"

section \<open>Initialization\<close>

fun resolve_receivers :: "Endpoint list \<Rightarrow> (os, UdpAddress list option) state" where
  "resolve_receivers [] = State_Monad.return (Some [])"
| "resolve_receivers (endpoint # endpoints) = do {
     destination \<leftarrow> ipv4 (address endpoint) (port endpoint);
     case destination of
       Inl _ \<Rightarrow> State_Monad.return None
     | Inr d \<Rightarrow> do {
         ds \<leftarrow> resolve_receivers endpoints;
         State_Monad.return (map_option (\<lambda>ds. d # ds) ds)
       }
   }"

definition bad_sender_config :: "SenderConfig \<Rightarrow> bool" where
  "bad_sender_config config \<longleftrightarrow>
     ingress_shm_name config = [] \<or> receivers config = []
     \<or> ucast (max_datagram_bytes config) < kMinDataPacketBytes
     \<or> ucast (max_datagram_bytes config) > kMaxPacketBytes
     \<or> tx_delivery_mode config \<noteq> BestEffort \<or> tx_cpu config \<noteq> -1"

text \<open>The part before the session id; an early return destroys what was opened.\<close>

definition sender_prepare :: "SenderConfig \<Rightarrow> (os, InitError
    + SharedMemorySegment \<times> byte list \<times> SpscRing \<times> UdpSender \<times> UdpAddress list) state" where
  "sender_prepare config =
    (if bad_sender_config config then State_Monad.return (Inl InvalidConfig)
     else do {
       ds \<leftarrow> resolve_receivers (receivers config);
       case ds of
         None \<Rightarrow> State_Monad.return (Inl AddressResolution)
       | Some destinations \<Rightarrow> do {
           sg \<leftarrow> attach_shm (ingress_shm_name config);
           case sg of
             Inl _ \<Rightarrow> State_Monad.return (Inl SharedMemory)
           | Inr (seg, m) \<Rightarrow>
               (case attach_ring (seg_address seg) m of
                  Inl _ \<Rightarrow> do { _ \<leftarrow> destroy_segment seg; State_Monad.return (Inl Ring) }
                | Inr ingress \<Rightarrow> do {
                    u \<leftarrow> open_sender;
                    case u of
                      Inl _ \<Rightarrow> do { _ \<leftarrow> destroy_segment seg; State_Monad.return (Inl InitError.Socket) }
                    | Inr udp \<Rightarrow> State_Monad.return (Inr (seg, m, ingress, udp, destinations))
                  })
         }
     })"

definition sender_initialize ::
  "SenderConfig \<Rightarrow> os \<Rightarrow> ((InitError + Sender \<times> byte list) \<times> os) option" where
  "sender_initialize config w =
    (case run_state (sender_prepare config) w of
       (Inl err, w) \<Rightarrow> Some (Inl err, w)
     | (Inr (seg, m, ingress, udp, destinations), w) \<Rightarrow>
         (case nonzero_random 4 w of
            None \<Rightarrow> None
          | Some (None, w) \<Rightarrow>
              let (_, w) = run_state (destroy_sender udp) w;
                  (_, w) = run_state (destroy_segment seg) w
              in Some (Inl SessionId, w)
          | Some (Some session_id, w) \<Rightarrow>
              Some (Inr (make_sender config seg ingress udp destinations (ucast session_id), m), w)))"

text \<open>The destructor: the socket, then the segment; the ring handle holds nothing.\<close>

definition destroy_sender_engine :: "Sender \<Rightarrow> (os, unit) state" where
  "destroy_sender_engine s = do { _ \<leftarrow> destroy_sender (s_udp s); destroy_segment (s_segment s) }"

section \<open>The loop\<close>

fun send_all :: "UdpSender \<Rightarrow> byte list \<Rightarrow> UdpAddress list \<Rightarrow> bool \<times> EngineStats
    \<Rightarrow> (os, bool \<times> EngineStats) state" where
  "send_all udp datagram [] acc = State_Monad.return acc"
| "send_all udp datagram (destination # destinations) (sent_to_any, stats) = do {
     r \<leftarrow> send_to udp datagram destination;
     send_all udp datagram destinations
       (case r of
          Inr _ \<Rightarrow> (True, stats\<lparr>packets_sent := packets_sent stats + 1\<rparr>)
        | Inl _ \<Rightarrow> (sent_to_any, stats\<lparr>send_errors := send_errors stats + 1\<rparr>))
   }"

text \<open>What happens to an event after it was encoded and its slot released.\<close>

definition transmit :: "Sender \<Rightarrow> byte list \<Rightarrow> EncodeError + size_t \<Rightarrow> EngineStats
    \<Rightarrow> (os, EngineStats) state" where
  "transmit s output encoded stats =
    (case encoded of
       Inl _ \<Rightarrow> State_Monad.return (stats\<lparr>encode_errors := encode_errors stats + 1,
           events_dropped := events_dropped stats + 1\<rparr>)
     | Inr sz \<Rightarrow> do {
         (sent_to_any, stats) \<leftarrow>
           send_all (s_udp s) (subspan output 0 (unat sz)) (s_destinations s) (False, stats);
         State_Monad.return
           (if sent_to_any then stats\<lparr>events_out := events_out stats + 1\<rparr>
            else stats\<lparr>events_dropped := events_dropped stats + 1\<rparr>)
       })"

definition advance_sequence :: "Sender \<Rightarrow> EncodeError + size_t \<Rightarrow> flow \<times> Sender" where
  "advance_sequence s encoded =
    (case encoded of
       Inl _ \<Rightarrow> (Continue, s)
     | Inr _ \<Rightarrow> if s_packet_sequence s = u64_max then (Break, sender_request_stop s)
         else (Continue, s\<lparr>s_packet_sequence := s_packet_sequence s + 1\<rparr>))"

definition sender_pass :: "byte list \<Rightarrow> byte list \<Rightarrow> Sender
    \<Rightarrow> (os, flow \<times> byte list \<times> byte list \<times> Sender) state" where
  "sender_pass m packet s =
    (case try_acquire m (s_ingress s) of
       (Inl err, ingress) \<Rightarrow>
         let s = s\<lparr>s_ingress := ingress\<rparr>
         in if err = Empty then do {
              _ \<leftarrow> (if \<not> busy_spin_ingress (s_config s)
                then do { _ \<leftarrow> call (Sleep_call 1); State_Monad.return () }
                else State_Monad.return ());
              State_Monad.return (Continue, m, packet, s)
            } else State_Monad.return (Break, m, packet,
                if err \<noteq> AcquireError.Closed
                then s\<lparr>s_stats := (s_stats s)\<lparr>ingress_errors := ingress_errors (s_stats s) + 1\<rparr>\<rparr>
                else s)
     | (Inr event, ingress) \<Rightarrow>
         let stats = (s_stats s)\<lparr>events_in := events_in (s_stats s) + 1\<rparr>;
             n = unat (max_datagram_bytes (s_config s));
             (encoded, output) =
               encode_data (deref m event) (s_session_id s) (s_packet_sequence s) (subspan packet 0 n);
             packet = output @ drop n packet;
             (_, m, ingress) = release m ingress
         in do {
           stats \<leftarrow> transmit s output encoded stats;
           let (flow, s) = advance_sequence (s\<lparr>s_ingress := ingress, s_stats := stats\<rparr>) encoded;
           State_Monad.return (flow, m, packet, s)
         })"

section \<open>The engine among other threads\<close>

text \<open>
  The world of a running sender: the shared segment, the loop's packet buffer, the engine, the
  application's handle on the ring and the system. \<open>published\<close> and \<open>handled\<close> record the events
  the application published with Ok and those the loop took from the ring.
\<close>

record sender_world =
  sw_memory :: "byte list"
  sw_packet :: "byte list"
  sw_sender :: Sender
  sw_app :: SpscRing
  sw_os :: os
  sw_running :: bool
  sw_published :: "event list"
  sw_handled :: "event list"

datatype sender_action = App_publish event | App_close | Stop_sender | Sender_pass

fun sender_step :: "sender_world \<Rightarrow> sender_action \<Rightarrow> sender_world" where
  "sender_step w (App_publish e) =
    (let (r, m, app) = try_publish (sw_memory w) (sw_app w) e
     in w\<lparr>sw_memory := m, sw_app := app,
          sw_published := (if r = Ok then sw_published w @ [e] else sw_published w)\<rparr>)"
| "sender_step w App_close =
    (let (_, m) = close_publication (sw_memory w) (sw_app w) in w\<lparr>sw_memory := m\<rparr>)"
| "sender_step w Stop_sender = w\<lparr>sw_sender := sender_request_stop (sw_sender w)\<rparr>"
| "sender_step w Sender_pass =
    (if \<not> sw_running w then w
     else if s_stop_requested (sw_sender w) then w\<lparr>sw_running := False\<rparr>
     else
       let ((flow, m, packet, s), os) =
             run_state (sender_pass (sw_memory w) (sw_packet w) (sw_sender w)) (sw_os w);
           handled = (case fst (try_acquire (sw_memory w) (s_ingress (sw_sender w))) of
               Inr v \<Rightarrow> sw_handled w @ [deref (sw_memory w) v] | Inl _ \<Rightarrow> sw_handled w)
       in w\<lparr>sw_memory := m, sw_packet := packet, sw_sender := s, sw_os := os,
            sw_running := (flow = Continue), sw_handled := handled\<rparr>)"

definition sender_run :: "sender_world \<Rightarrow> sender_action list \<Rightarrow> sender_world" where
  "sender_run w actions = foldl sender_step w actions"

text \<open>\<open>run()\<close> starts with a zeroed packet buffer.\<close>

definition start_sender :: "Sender \<Rightarrow> byte list \<Rightarrow> SpscRing \<Rightarrow> os \<Rightarrow> sender_world" where
  "start_sender s m app w = \<lparr>sw_memory = m, sw_packet = replicate (unat kMaxPacketBytes) 0,
     sw_sender = s, sw_app = app, sw_os = w, sw_running = True, sw_published = [], sw_handled = []\<rparr>"

end
