(* ===== verification/Ring_Setup.thy ===== *)
theory Ring_Setup
  imports Ring_System
begin

text \<open>
  Creation of a ring: what \<open>initialize\<close> leaves in the segment, which segments \<open>attach\<close> takes, and
  the properties of a freshly created ring in use by its creator and one attached peer.
\<close>

section \<open>The slot loop\<close>

lemma init_slots_Suc: "init_slots m (Suc k) =
    fill_bytes (init_slots m k) (192 + k * unat (pre_slot_stride (init_slots m k))) 32 0"
  by (simp add: init_slots_def ring_constants)

lemma init_slots_frame:
  assumes "192 \<le> length m"
  shows "length (init_slots m k) = length m \<and> (\<forall>j < 192. init_slots m k ! j = m ! j)
    \<and> pre_slot_stride (init_slots m k) = pre_slot_stride m"
proof (induction k)
  case 0
  then show ?case by (simp add: init_slots_def)
next
  case (Suc k)
  have b: "init_slots m (Suc k) ! j = m ! j" if "j < 192" for j
    using Suc that assms by (simp add: init_slots_Suc mem_simps)
  then have "pre_slot_stride (init_slots m (Suc k)) = pre_slot_stride m"
    unfolding preamble_defs by (intro read_u32_cong) simp
  with b Suc show ?case by (simp add: init_slots_Suc)
qed

lemma init_slots_zero:
  assumes "st = unat (pre_slot_stride m)" and "32 \<le> st" and "192 + k * st \<le> length m"
    and "i < k" and "192 + st * i \<le> j" and "j < 192 + st * i + 32"
  shows "init_slots m k ! j = 0"
  using assms(3,4)
proof (induction k)
  case (Suc k)
  have len: "length (init_slots m k) = length m" "unat (pre_slot_stride (init_slots m k)) = st"
    using init_slots_frame [of m k] Suc.prems assms(1) by auto
  show ?case
  proof (cases "i = k")
    case True
    then show ?thesis
      using assms(2,5,6) Suc.prems by (simp add: init_slots_Suc len mem_simps mult.commute)
  next
    case False
    then have "i < k" using Suc.prems by simp
    then have "j < 192 + k * st"
      using assms(2,6) mult_le_mono2 [of "i + 1" k st] by (simp add: algebra_simps)
    then show ?thesis
      using Suc.IH \<open>i < k\<close> Suc.prems by (simp add: init_slots_Suc len mem_simps)
  qed
qed simp

section \<open>What \<open>initialize\<close> leaves\<close>

text \<open>The header it writes, and the segment it leaves.\<close>

definition ring_header :: "byte list \<Rightarrow> size_t \<Rightarrow> RingConfig \<Rightarrow> u64 \<Rightarrow> byte list" where
  "ring_header m sz config instance_id =
     write_u64 (write_u64 (fill_preamble (fill_bytes m 0 192 0) sz config instance_id) 64 0) 128 0"

definition initialized_ring :: "byte list \<Rightarrow> size_t \<Rightarrow> RingConfig \<Rightarrow> u64 \<Rightarrow> byte list" where
  "initialized_ring m sz config instance_id =
     write_u32 (init_slots (ring_header m sz config instance_id) (unat (cfg_slot_count config))) 40
       (ring_state_value Ready)"

lemma length_ring_header [simp]: "length (ring_header m sz config instance_id) = length m"
  by (simp add: ring_header_def fill_preamble_def Let_def write_bytes)

lemma ring_header_fields:
  assumes "192 \<le> length m" and "h = ring_header m sz config instance_id"
  shows "pre_magic h = ring_magic" "pre_layout_version h = 1" "pre_header_bytes h = 192"
    and "pre_segment_bytes h = sz" "pre_slot_count h = cfg_slot_count config"
    and "pre_slot_stride h = ucast ((sz - 192) div ucast (cfg_slot_count config))"
    and "pre_slot_payload_capacity h = cfg_slot_payload_capacity config"
    and "pre_reserved h = 0" "pre_instance_id h = instance_id"
    and "producer_position h = 0" "consumer_position h = 0"
proof -
  have magic: "length ring_magic = 4" by (simp add: ring_magic_def)
  have sub: "subspan (store_bytes x 0 ring_magic) 0 4 = ring_magic" if "4 \<le> length x" for x
    using subspan_store_same [of 0 ring_magic x] that by (simp add: magic)
  note h = assms(2) ring_header_def fill_preamble_def Let_def preamble_defs cursor_defs
    ring_constants write_bytes fill_bytes_def
  show "pre_magic h = ring_magic"
    using assms(1) by (simp add: h subspan_store_disjoint magic sub)
  show "pre_layout_version h = 1" "pre_header_bytes h = 192" "pre_segment_bytes h = sz"
    "pre_slot_count h = cfg_slot_count config"
    "pre_slot_stride h = ucast ((sz - 192) div ucast (cfg_slot_count config))"
    "pre_slot_payload_capacity h = cfg_slot_payload_capacity config"
    "pre_reserved h = 0" "pre_instance_id h = instance_id"
    "producer_position h = 0" "consumer_position h = 0"
    using assms(1) by (simp_all add: h magic mem_simps)
qed

lemma ring_header_zero:
  assumes "192 \<le> length m" and "h = ring_header m sz config instance_id"
    and "44 \<le> j \<and> j < 64 \<or> 72 \<le> j \<and> j < 128 \<or> 136 \<le> j \<and> j < 192"
  shows "h ! j = 0"
  using assms by (auto simp: ring_header_def fill_preamble_def Let_def
      ring_constants ring_magic_def write_bytes mem_simps)

text \<open>The final segment has this header, with the state Ready, and slot headers of zeros.\<close>

definition setup_ok :: "nat \<Rightarrow> nat \<Rightarrow> size_t \<Rightarrow> RingConfig \<Rightarrow> byte list \<Rightarrow> bool" where
  "setup_ok n st sz config m \<longleftrightarrow> n = unat (cfg_slot_count config)
     \<and> st = stride_of (unat (cfg_slot_payload_capacity config))
     \<and> required_bytes config = Inr sz \<and> length m = unat sz"

lemma setup_okD:
  assumes "setup_ok n st sz config m"
  shows "geometry n st (unat (cfg_slot_payload_capacity config)) m"
    and "unat (ucast ((sz - 192) div ucast (cfg_slot_count config)) :: u32) = st"
    and "ucast (word_of_nat st :: u32) = (sz - 192) div ucast (cfg_slot_count config)"
    and "unat sz = 192 + n * st"
proof -
  have a: "allowed_count n" "st < 4294967296" "sz = word_of_nat (192 + st * n)"
    "n = unat (cfg_slot_count config)"
    using assms by (auto simp: setup_ok_def required_bytes_eq split: if_splits)
  have n: "2 \<le> n" "n \<le> 2147483648" using allowed_count_bounds [OF a(1)] by auto
  show u: "unat sz = 192 + n * st"
    using segment_size_fits(1) [of n st] n a(2) by (simp only: a(3) unat_of_nat) (simp add: mult.commute)
  then show "geometry n st (unat (cfg_slot_payload_capacity config)) m"
    using a assms by (simp add: geometry_def setup_ok_def)
  have "unat (sz - 192) = n * st" using u by (simp add: unat_sub word_le_nat_alt)
  then have "unat ((sz - 192) div ucast (cfg_slot_count config)) = st"
    using n by (simp add: unat_div unat_ucast_u32 flip: a(4))
  then have d: "(sz - 192) div ucast (cfg_slot_count config) = word_of_nat st"
    by (rule word_of_nat_unat)
  show "unat (ucast ((sz - 192) div ucast (cfg_slot_count config)) :: u32) = st"
    using a(2) by (simp add: d ucast_of_nat unat_of_nat)
  have "unat (ucast (word_of_nat st :: u32) :: u64) = unat (word_of_nat st :: u64)"
    using a(2) by (simp add: unat_ucast_u32 unat_of_nat)
  then show "ucast (word_of_nat st :: u32) = (sz - 192) div ucast (cfg_slot_count config)"
    unfolding d by (simp only: word_unat_eq_iff)
qed

lemma length_initialized_ring [simp]:
  "192 \<le> length m \<Longrightarrow> length (initialized_ring m sz config instance_id) = length m"
  using init_slots_frame [of "ring_header m sz config instance_id"] by (simp add: initialized_ring_def)

lemma initialized_header:
  assumes "192 \<le> length m" and "j < 192" and "j < 40 \<or> 44 \<le> j"
  shows "initialized_ring m sz config instance_id ! j = ring_header m sz config instance_id ! j"
proof -
  let ?h = "ring_header m sz config instance_id" and ?n = "unat (cfg_slot_count config)"
  have i: "length (init_slots ?h ?n) = length m" "init_slots ?h ?n ! j = ?h ! j"
    using init_slots_frame [of ?h ?n] assms by auto
  show ?thesis
    using assms i by (auto simp: initialized_ring_def write_bytes nth_store_outside)
qed

lemma initialized_fields:
  assumes "192 \<le> length m" and "i = initialized_ring m sz config instance_id"
  shows "pre_magic i = ring_magic" "pre_layout_version i = 1" "pre_header_bytes i = 192"
    and "pre_segment_bytes i = sz" "pre_slot_count i = cfg_slot_count config"
    and "pre_slot_stride i = ucast ((sz - 192) div ucast (cfg_slot_count config))"
    and "pre_slot_payload_capacity i = cfg_slot_payload_capacity config"
    and "pre_reserved i = 0" "pre_instance_id i = instance_id"
    and "producer_position i = 0" "consumer_position i = 0" and "pre_state i = 2"
proof -
  define h where "h = ring_header m sz config instance_id"
  note f = ring_header_fields [OF assms(1) h_def]
  have same: "i ! j = h ! j" if "j < 192" "j < 40 \<or> 44 \<le> j" for j
    unfolding assms(2) h_def using initialized_header [OF assms(1) that] .
  have len: "length i = length h" "192 \<le> length h" using assms by (simp_all add: h_def)
  have "pre_magic i = pre_magic h" "pre_layout_version i = pre_layout_version h"
    "pre_header_bytes i = pre_header_bytes h" "pre_segment_bytes i = pre_segment_bytes h"
    "pre_slot_count i = pre_slot_count h" "pre_slot_stride i = pre_slot_stride h"
    "pre_slot_payload_capacity i = pre_slot_payload_capacity h" "pre_reserved i = pre_reserved h"
    "pre_instance_id i = pre_instance_id h" "producer_position i = producer_position h"
    "consumer_position i = consumer_position h"
    unfolding preamble_defs cursor_defs using len
    by (auto intro!: subspan_eqI read_u16_cong read_u32_cong read_u64_cong same)
  then show "pre_magic i = ring_magic" "pre_layout_version i = 1" "pre_header_bytes i = 192"
    "pre_segment_bytes i = sz" "pre_slot_count i = cfg_slot_count config"
    "pre_slot_stride i = ucast ((sz - 192) div ucast (cfg_slot_count config))"
    "pre_slot_payload_capacity i = cfg_slot_payload_capacity config"
    "pre_reserved i = 0" "pre_instance_id i = instance_id"
    "producer_position i = 0" "consumer_position i = 0"
    using f by simp_all
  have "44 \<le> length (init_slots h (unat (cfg_slot_count config)))"
    using init_slots_frame [of h] len by simp
  then show "pre_state i = 2"
    by (simp add: assms(2) initialized_ring_def preamble_defs mem_simps h_def)
qed

lemma nth_le_bytes_zero: "i < n \<Longrightarrow> le_bytes n (0 :: 'a::len word) ! i = 0"
  by (simp add: le_bytes_def)

lemma initialized_slot_valid:
  assumes "setup_ok n st sz config m"
  shows "slot_valid (unat (cfg_slot_payload_capacity config))
    (initialized_ring m sz config instance_id) (slot_at n st k)"
proof -
  note g = geometryD [OF setup_okD(1) [OF assms]]
  define h where "h = ring_header m sz config instance_id"
  have len: "192 \<le> length m" using g(5) by simp
  have st: "st = unat (pre_slot_stride h)"
    using ring_header_fields(6) [OF len h_def] setup_okD(2) [OF assms] by simp
  have n: "n = unat (cfg_slot_count config)" using assms by (simp add: setup_ok_def)
  have "initialized_ring m sz config instance_id ! j = 0"
    if "slot_at n st k \<le> j" "j < slot_at n st k + 32" for j
  proof -
    have "init_slots h n ! j = 0"
      using that g(1,3,5) by (intro init_slots_zero [OF st, where i = "k mod n"])
        (auto simp: slot_at_def h_def)
    moreover have "j < length (init_slots h n)"
      using that slot_in_segment [OF setup_okD(1) [OF assms], of k] g(3) init_slots_frame [of h n] len
      by (simp add: h_def)
    ultimately show ?thesis
      using that slot_at_ge [of n st k]
      by (simp add: initialized_ring_def write_bytes nth_store_outside n h_def)
  qed
  then have "slot_payload_length (initialized_ring m sz config instance_id) (slot_at n st k) = 0"
    "slot_reserved0 (initialized_ring m sz config instance_id) (slot_at n st k) = 0"
    "slot_reserved1 (initialized_ring m sz config instance_id) (slot_at n st k) = 0"
    by (auto simp: slot_defs intro!: read_u32_digits simp: nth_le_bytes_zero)
  then show ?thesis by (simp add: slot_valid_def)
qed

section \<open>\<open>initialize\<close> and \<open>attach\<close>\<close>

text \<open>Memory that the checks on its address and its smallest size let through.\<close>

definition good_address :: "u64 \<Rightarrow> bool" where
  "good_address addr \<longleftrightarrow> addr \<noteq> 0 \<and> unat addr mod 128 = 0"

lemma invalid_memory_iff:
  "addressable m \<Longrightarrow> invalid_memory addr m \<longleftrightarrow> \<not> (good_address addr \<and> 192 \<le> length m)"
  by (auto simp: invalid_memory_def good_address_def ring_constants word_less_nat_alt unat_span_size
      word_unat_eq_iff unat_mod)

lemma initialize_ring_eq:
  assumes "addressable m"
  shows "initialize_ring addr m config instance_id =
    (if instance_id = 0 then (Inl InvalidConfig, m)
     else case required_bytes config of
       Inl err \<Rightarrow> (Inl err, m)
     | Inr sz \<Rightarrow> if good_address addr \<and> length m = unat sz
         then (Inr (make_ring (initialized_ring m sz config instance_id) True),
               initialized_ring m sz config instance_id)
         else (Inl InvalidMemory, m))"
proof (cases "required_bytes config")
  case (Inr sz)
  have "192 \<le> unat sz" if "length m = unat sz"
    using setup_okD(4) [of "unat (cfg_slot_count config)" _ sz config m] Inr that
    by (simp add: setup_ok_def)
  moreover have "span_size m = sz \<longleftrightarrow> length m = unat sz"
    by (simp add: word_unat_eq_iff unat_span_size [OF assms])
  ultimately show ?thesis
    using Inr by (auto simp: initialize_ring_def Let_def invalid_memory_iff [OF assms]
        initialized_ring_def ring_header_def)
qed (simp add: initialize_ring_def)

lemma initialized_ring_ok:
  assumes "setup_ok n st sz config m" and "m' = initialized_ring m sz config instance_id"
  shows "ring_ok n st (unat (cfg_slot_payload_capacity config)) m'"
    and "handle_ok n st (unat (cfg_slot_payload_capacity config)) (make_ring m' b)"
    and "ring_items n st m' = []"
proof -
  note g = setup_okD(1) [OF assms(1)]
  have len: "192 \<le> length m" using geometryD(5) [OF g] by simp
  note f = initialized_fields [OF len assms(2)]
  show "ring_ok n st (unat (cfg_slot_payload_capacity config)) m'"
    using g f initialized_slot_valid [OF assms(1)] len
    by (simp add: ring_ok_def geometry_def assms(2))
  show "handle_ok n st (unat (cfg_slot_payload_capacity config)) (make_ring m' b)"
    using setup_okD(2) [OF assms(1)] assms(1) f
    by (simp add: handle_ok_def make_ring_def ring_constants setup_ok_def)
  show "ring_items n st m' = []" using f by (simp add: ring_items_def)
qed

text \<open>\<open>attach\<close> in terms of the fields and the exact sizes.\<close>

definition attachable :: "byte list \<Rightarrow> bool" where
  "attachable m \<longleftrightarrow> (pre_state m = 2 \<or> pre_state m = 3)
     \<and> pre_magic m = ring_magic \<and> pre_layout_version m = 1 \<and> pre_header_bytes m = 192
     \<and> pre_instance_id m \<noteq> 0 \<and> pre_reserved m = 0
     \<and> (\<forall>j < 192. 44 \<le> j \<and> j < 64 \<or> 72 \<le> j \<and> j < 128 \<or> 136 \<le> j \<longrightarrow> m ! j = 0)
     \<and> unat (pre_segment_bytes m) = length m
     \<and> geometry (unat (pre_slot_count m)) (unat (pre_slot_stride m))
         (unat (pre_slot_payload_capacity m)) m"

lemma zero_span_iff:
  "off + k \<le> length m \<Longrightarrow>
    list_all (\<lambda>b. b = 0) (subspan m off k) \<longleftrightarrow> (\<forall>j. off \<le> j \<and> j < off + k \<longrightarrow> m ! j = 0)"
  by (auto simp: list_all_length mem_simps) (metis add_diff_inverse_nat nat_add_left_cancel_less not_le)

text \<open>The tests of the geometry, which compute what \<open>initialize\<close> would have written.\<close>

lemma attached_geometry:
  assumes "addressable m" and cfg_def: "cfg = \<lparr>cfg_slot_count = pre_slot_count m,
      cfg_slot_payload_capacity = pre_slot_payload_capacity m\<rparr>"
    and n_def: "n = unat (pre_slot_count m)"
  shows "(case required_bytes cfg of Inl _ \<Rightarrow> False
      | Inr sz \<Rightarrow> ucast (pre_slot_stride m) = (sz - 192) div ucast (pre_slot_count m)
          \<and> pre_segment_bytes m = sz \<and> span_size m = sz) \<longleftrightarrow>
    unat (pre_segment_bytes m) = length m \<and> geometry n (unat (pre_slot_stride m))
         (unat (pre_slot_payload_capacity m)) m"
proof -
  define st where "st = stride_of (unat (pre_slot_payload_capacity m))"
  show ?thesis
  proof (cases "required_bytes cfg")
    case (Inl err)
    then have "\<not> (allowed_count n \<and> st < 4294967296)"
      by (auto simp: required_bytes_eq cfg_def n_def st_def split: if_splits)
    then show ?thesis by (auto simp: Inl geometry_def st_def)
  next
    case (Inr sz)
    then have ok: "setup_ok n st sz cfg (replicate (unat sz) 0)"
      by (simp add: setup_ok_def cfg_def n_def st_def)
    note d = setup_okD [OF ok]
    have a: "allowed_count n" "st < 4294967296" using d(1) by (simp_all add: geometry_def)
    have "ucast (pre_slot_stride m) = (sz - 192) div ucast (pre_slot_count m) \<longleftrightarrow>
        unat (pre_slot_stride m) = st"
    proof -
      have "(sz - 192) div ucast (pre_slot_count m) = ucast (word_of_nat st :: u32)"
        using d(3) by (simp add: cfg_def)
      then show ?thesis
        using a(2) by (simp add: word_unat_eq_iff unat_ucast_u32 unat_of_nat)
    qed
    then show ?thesis
      using a d(4) by (auto simp: Inr geometry_def st_def word_unat_eq_iff unat_span_size [OF assms(1)])
  qed
qed

lemma attach_ring_iff:
  assumes "addressable m"
  shows "attach_ring addr m = Inr r \<longleftrightarrow> good_address addr \<and> attachable m \<and> r = make_ring m False"
proof (cases "invalid_memory addr m")
  case True
  then have "\<not> (good_address addr \<and> attachable m)"
    by (auto simp: invalid_memory_iff [OF assms] attachable_def dest: geometryD(5))
  with True show ?thesis by (auto simp: attach_ring_def)
next
  case False
  define cfg where "cfg = \<lparr>cfg_slot_count = pre_slot_count m,
    cfg_slot_payload_capacity = pre_slot_payload_capacity m\<rparr>"
  define n where "n = unat (pre_slot_count m)"
  have len: "192 \<le> length m" and addr: "good_address addr"
    using False by (auto simp: invalid_memory_iff [OF assms])
  have zero: "\<not> (\<not> list_all (\<lambda>b. b = 0) (pre_reserved_bytes m) \<or> \<not> list_all (\<lambda>b. b = 0) (producer_reserved m)
      \<or> \<not> list_all (\<lambda>b. b = 0) (consumer_reserved m)) \<longleftrightarrow>
      (\<forall>j < 192. 44 \<le> j \<and> j < 64 \<or> 72 \<le> j \<and> j < 128 \<or> 136 \<le> j \<longrightarrow> m ! j = 0)"
    using len by (auto simp: preamble_defs zero_span_iff)
  note geo = attached_geometry [OF assms cfg_def n_def]
  have state: "(case validate_state (pre_state m) of Inl _ \<Rightarrow> False | Inr _ \<Rightarrow> True) \<longleftrightarrow>
      pre_state m = 2 \<or> pre_state m = 3"
    by (auto simp: validate_state_def)
  have "attach_ring addr m = Inr r \<longleftrightarrow> (pre_state m = 2 \<or> pre_state m = 3) \<and> \<not> invalid_layout m
      \<and> (\<forall>j < 192. 44 \<le> j \<and> j < 64 \<or> 72 \<le> j \<and> j < 128 \<or> 136 \<le> j \<longrightarrow> m ! j = 0)
      \<and> (case required_bytes cfg of Inl _ \<Rightarrow> False
        | Inr sz \<Rightarrow> ucast (pre_slot_stride m) = (sz - 192) div ucast (pre_slot_count m)
            \<and> pre_segment_bytes m = sz \<and> span_size m = sz) \<and> r = make_ring m False"
    unfolding attach_ring_def zero [symmetric] state [symmetric] Let_def
    using False by (auto simp: cfg_def ring_constants split: sum.splits)
  then show ?thesis
    unfolding geo using addr by (auto simp: attachable_def invalid_layout_def ring_constants n_def)
qed

lemma attach_initialized:
  assumes "addressable m" and "initialize_ring addr m config instance_id = (Inr h, m')"
  shows "\<exists>n st. ring_ok n st (unat (cfg_slot_payload_capacity config)) m'
      \<and> handle_ok n st (unat (cfg_slot_payload_capacity config)) h
      \<and> handle_ok n st (unat (cfg_slot_payload_capacity config)) (make_ring m' False)
      \<and> n = unat (cfg_slot_count config) \<and> ring_items n st m' = []"
    and "h = make_ring m' True" and "attach_ring addr m' = Inr (make_ring m' False)"
    and "length m' = length m" and "pre_state m' = 2"
proof -
  obtain sz where r: "required_bytes config = Inr sz" "instance_id \<noteq> 0" "good_address addr"
    "length m = unat sz" and m': "m' = initialized_ring m sz config instance_id"
    and h: "h = make_ring m' True"
    using assms by (auto simp: initialize_ring_eq split: sum.splits if_splits)
  define n where "n = unat (cfg_slot_count config)"
  define st where "st = stride_of (unat (cfg_slot_payload_capacity config))"
  have s: "setup_ok n st sz config m" using r by (simp add: setup_ok_def n_def st_def)
  note ok = initialized_ring_ok [OF s m'] and g = setup_okD [OF s]
  have len: "192 \<le> length m" using r(4) g(4) by simp
  note f = initialized_fields [OF len m']
  show "\<exists>n st. ring_ok n st (unat (cfg_slot_payload_capacity config)) m'
      \<and> handle_ok n st (unat (cfg_slot_payload_capacity config)) h
      \<and> handle_ok n st (unat (cfg_slot_payload_capacity config)) (make_ring m' False)
      \<and> n = unat (cfg_slot_count config) \<and> ring_items n st m' = []"
    using ok unfolding h n_def by blast
  show "h = make_ring m' True" "pre_state m' = 2" by (fact h, fact f)
  show l: "length m' = length m" using len by (simp add: m')
  have "geometry n st (unat (cfg_slot_payload_capacity config)) m'"
    using ok(1) by (simp add: ring_ok_def)
  moreover have "m' ! j = 0" if "j < 192" "44 \<le> j \<and> j < 64 \<or> 72 \<le> j \<and> j < 128 \<or> 136 \<le> j" for j
    using that initialized_header [OF len, of j] ring_header_zero [OF len refl, of j] by (auto simp: m')
  ultimately have "attachable m'"
    using f r g(2,4) l by (auto simp: attachable_def n_def)
  then show "attach_ring addr m' = Inr (make_ring m' False)"
    using attach_ring_iff [of m' addr] r(3) assms(1) l by (simp add: addressable_def)
qed

text \<open>A freshly made handle has no event and stale cursors that are zero.\<close>

lemma make_ring_handles:
  assumes "ring_ok n st cap m" and "handle_ok n st cap (make_ring m b)"
  shows "producer_ok n st cap m (make_ring m b)" and "consumer_ok n st cap m (make_ring m b)"
    and "\<not> acquired (make_ring m b)"
  using assms(2) by (auto simp: producer_ok_def consumer_ok_def make_ring_def)

section \<open>Properties of a ring from its creation on\<close>

text \<open>
  C34. \<open>attach\<close> takes exactly the segments that \<open>initialize\<close> could have made and that were not
  damaged since in the parts it checks: an aligned address, the state Ready or Closed, the magic,
  version, header size and a non-zero instance id, zeros in every reserved byte of the header, and
  a geometry that is allowed and accounts for exactly the length of the mapping and the size the
  preamble records. The handle then has this geometry, no acquired event, and no right to close.
\<close>

theorem attach_accepts_exactly:
  assumes "addressable m"
  shows "attach_ring addr m = Inr r \<longleftrightarrow> addr \<noteq> 0 \<and> unat addr mod 128 = 0
    \<and> pre_state m \<in> {2, 3} \<and> pre_magic m = [0x4c, 0x4c, 0x45, 0x31]
    \<and> pre_layout_version m = 1 \<and> pre_header_bytes m = 192 \<and> pre_instance_id m \<noteq> 0
    \<and> pre_reserved m = 0
    \<and> (\<forall>j < 192. 44 \<le> j \<and> j < 64 \<or> 72 \<le> j \<and> j < 128 \<or> 136 \<le> j \<longrightarrow> m ! j = 0)
    \<and> allowed_count (unat (pre_slot_count m))
    \<and> unat (pre_slot_stride m) = stride_of (unat (pre_slot_payload_capacity m))
    \<and> length m = 192 + unat (pre_slot_count m) * unat (pre_slot_stride m)
    \<and> unat (pre_segment_bytes m) = length m
    \<and> r = make_ring m False"
  using unsigned_less [of "pre_slot_stride m", where ?'a = nat]
  by (auto simp: attach_ring_iff [OF assms] attachable_def good_address_def geometry_def ring_magic_def)

text \<open>
  C11. A ring that \<open>initialize\<close> made is attached at once, and from then on any sequence of
  publications, acquisitions and releases through the two handles, whichever of them produces, is a
  first-in-first-out queue: the events read at their release are, in order and unchanged, the ones
  published with Ok, and those not yet released are at most \<open>slot_count\<close>.
\<close>

theorem created_ring_is_fifo:
  assumes "addressable m" and "initialize_ring addr m config instance_id = (Inr h, m')"
    and "attach_ring addr m' = Inr a"
    and "s = \<lparr>segment = m', producer = h, consumer = a\<rparr> \<or> s = \<lparr>segment = m', producer = a, consumer = h\<rparr>"
    and "\<forall>e. Publish e \<in> set calls \<longrightarrow> addressable (payload e)"
    and "c = client_run sys_publish sys_acquire sys_release sys_deref (new_client s) calls"
  shows "\<exists>queued. published c = consumed c @ queued \<and> length queued \<le> unat (cfg_slot_count config)
    \<and> queued = sys_items (queue_state c)"
proof -
  note i = attach_initialized [OF assms(1,2)]
  obtain n st where r: "ring_ok n st (unat (cfg_slot_payload_capacity config)) m'"
    "handle_ok n st (unat (cfg_slot_payload_capacity config)) h"
    "handle_ok n st (unat (cfg_slot_payload_capacity config)) a"
    "n = unat (cfg_slot_count config)" "ring_items n st m' = []"
    using i(1,3) assms(3) by auto
  have a: "a = make_ring m' False" using i(3) assms(3) by simp
  note mk = make_ring_handles [OF r(1)]
  have ok: "system_ok n st (unat (cfg_slot_payload_capacity config)) s"
    using assms(4) r mk i(2) a by (auto simp: system_ok_def)
  have view: "sys_view s = None" using assms(4) i(2) a by (auto simp: sys_view_def make_ring_def)
  have "list_all ring.call_ok calls"
    using assms(5) by (auto simp: list_all_iff ring.call_ok_def sys_admits_def split: queue_call.splits)
  moreover have "sys_items s = []" using assms(4) r(5) sys_eqs(1) [OF ok] by auto
  ultimately show ?thesis
    using ring.run_fifo [OF sys_eqs(3) [OF ok] view _ _ assms(6)] sys_geometry(1) [OF ok] r(4) by auto
qed

end
