(* ===== verification/Sender_Run.thy ===== *)
theory Sender_Run
  imports Sender_Engine Ring_Setup
begin

text \<open>
  What a running sender does, for every interleaving with the application and every behaviour of the
  system: the datagrams it hands to the system are exactly the encodings of the published events,
  in order, numbered from one, to every destination; the counters count what became of each event
  and of each send.
\<close>

section \<open>Sending to every destination\<close>

lemma sent_datagrams_append [simp]:
  "sent_datagrams (w\<lparr>trace := trace w @ [(Sendto_call fd d a, r)]\<rparr>) = sent_datagrams w @ [(d, a)]"
  "sent_datagrams (w\<lparr>trace := trace w @ [(Sleep_call k, r)]\<rparr>) = sent_datagrams w"
  "send_outcomes (w\<lparr>trace := trace w @ [(Sleep_call k, r)]\<rparr>) = send_outcomes w"
  by (simp_all add: sent_datagrams_def send_outcomes_def)

text \<open>The successful and the failed sends are counted apart, and the flag tells whether one succeeded.\<close>

lemma run_send_all:
  "run_state (send_all udp dg ds (any, st)) w = ((any', st'), w') \<Longrightarrow>
    sent_datagrams w' = sent_datagrams w @ map (\<lambda>d. (dg, native d)) ds \<and> extends w w'
    \<and> (\<exists>outs. send_outcomes w' = send_outcomes w @ outs \<and> length outs = length ds
        \<and> any' = (any \<or> True \<in> set outs)
        \<and> st' = st\<lparr>packets_sent := packets_sent st + of_nat (count_list outs True),
                  send_errors := send_errors st + of_nat (count_list outs False)\<rparr>)"
proof (induction ds arbitrary: any st w)
  case Nil
  then show ?case by simp
next
  case (Cons d ds)
  obtain r w1 where s: "run_state (send_to udp dg d) w = (r, w1)" by fastforce
  define any1 where "any1 = (any \<or> \<not> isl r)"
  define st1 where "st1 = (case r of Inr _ \<Rightarrow> st\<lparr>packets_sent := packets_sent st + 1\<rparr>
      | Inl _ \<Rightarrow> st\<lparr>send_errors := send_errors st + 1\<rparr>)"
  have acc: "(case r of Inr _ \<Rightarrow> (True, st\<lparr>packets_sent := packets_sent st + 1\<rparr>)
      | Inl _ \<Rightarrow> (any, st\<lparr>send_errors := send_errors st + 1\<rparr>)) = (any1, st1)"
    by (cases r) (simp_all add: st1_def any1_def)
  have w1: "w1 = w\<lparr>trace := trace w @ [(Sendto_call (tx_fd udp) dg (native d), replies w (length (trace w)))]\<rparr>"
    and out: "send_outcomes w1 = send_outcomes w @ [\<not> isl r]"
    using run_send_to [OF s] by blast+
  have "run_state (send_all udp dg ds (any1, st1)) w1 = ((any', st'), w')"
    using Cons.prems by (simp add: s acc)
  note ih = Cons.IH [OF this]
  then obtain outs where outs: "send_outcomes w' = send_outcomes w1 @ outs" "length outs = length ds"
    "any' = (any1 \<or> True \<in> set outs)"
    "st' = st1\<lparr>packets_sent := packets_sent st1 + of_nat (count_list outs True),
        send_errors := send_errors st1 + of_nat (count_list outs False)\<rparr>" by blast
  have "extends w w'" using ih by (auto simp: w1 intro: extends_trans [OF extends_call])
  moreover have "sent_datagrams w' = sent_datagrams w @ map (\<lambda>d. (dg, native d)) (d # ds)"
    using ih by (simp add: w1)
  moreover have "st' = st\<lparr>packets_sent := packets_sent st + of_nat (count_list ((\<not> isl r) # outs) True),
      send_errors := send_errors st + of_nat (count_list ((\<not> isl r) # outs) False)\<rparr>"
    unfolding outs(4) by (cases r) (simp_all add: st1_def)
  moreover have "any' = (any \<or> True \<in> set ((\<not> isl r) # outs))" by (auto simp: outs(3) any1_def)
  moreover have "send_outcomes w' = send_outcomes w @ (\<not> isl r) # outs" by (simp add: outs(1) out)
  moreover have "length ((\<not> isl r) # outs) = length (d # ds)" using outs(2) by simp
  ultimately show ?case by blast
qed

section \<open>One pass\<close>

text \<open>The events that the encoder takes in a buffer of the configured size.\<close>

definition sendable :: "u32 \<Rightarrow> event \<Rightarrow> bool" where
  "sendable limit e \<longleftrightarrow> sequence e \<noteq> 0 \<and> length (payload e) \<le> 1374
     \<and> packet_len (length (payload e)) \<le> unat limit"

definition datagrams_for :: "u32 \<Rightarrow> u64 \<Rightarrow> UdpAddress list \<Rightarrow> event \<Rightarrow> (byte list \<times> sockaddr_in) list" where
  "datagrams_for sid seq ds e = map (\<lambda>d. (packet_of sid seq e, native d)) ds"

text \<open>
  How the counters of a pass that took an event move, when \<open>outs\<close> are the outcomes of its sends: every
  send counts as a success or as a failure, and the event as out when one of its sends succeeded and
  as dropped otherwise.
\<close>

definition counted :: "EngineStats \<Rightarrow> nat \<Rightarrow> bool list \<Rightarrow> bool \<Rightarrow> EngineStats \<Rightarrow> bool" where
  "counted st d outs sent st' \<longleftrightarrow> length outs = (if sent then d else 0)
     \<and> events_in st' = events_in st + 1
     \<and> events_out st' = events_out st + (if True \<in> set outs then 1 else 0)
     \<and> events_dropped st' = events_dropped st + (if True \<in> set outs then 0 else 1)
     \<and> encode_errors st' = encode_errors st + (if sent then 0 else 1)
     \<and> packets_sent st' = packets_sent st + of_nat (count_list outs True)
     \<and> send_errors st' = send_errors st + of_nat (count_list outs False)
     \<and> ingress_errors st' = ingress_errors st"

lemma run_transmit:
  assumes "run_state (transmit s output encoded (st\<lparr>events_in := events_in st + 1\<rparr>)) w = (st', w')"
  shows "encoded = Inl err \<Longrightarrow> sent_datagrams w' = sent_datagrams w \<and> extends w w'
      \<and> (\<exists>outs. send_outcomes w' = send_outcomes w @ outs \<and> counted st (length (s_destinations s)) outs False st')"
    and "encoded = Inr n \<Longrightarrow> sent_datagrams w' =
        sent_datagrams w @ map (\<lambda>d. (subspan output 0 (unat n), native d)) (s_destinations s)
      \<and> extends w w'
      \<and> (\<exists>outs. send_outcomes w' = send_outcomes w @ outs \<and> counted st (length (s_destinations s)) outs True st')"
proof -
  show "encoded = Inl err \<Longrightarrow> sent_datagrams w' = sent_datagrams w \<and> extends w w'
      \<and> (\<exists>outs. send_outcomes w' = send_outcomes w @ outs \<and> counted st (length (s_destinations s)) outs False st')"
    using assms by (auto simp: transmit_def counted_def)
  assume e: "encoded = Inr n"
  obtain any st1 w1 where a: "run_state (send_all (s_udp s) (subspan output 0 (unat n)) (s_destinations s)
      (False, st\<lparr>events_in := events_in st + 1\<rparr>)) w = ((any, st1), w1)"
    by (rule run_pair)
  note r = run_send_all [OF a]
  have "w' = w1" and st': "st' = (if any then st1\<lparr>events_out := events_out st1 + 1\<rparr>
      else st1\<lparr>events_dropped := events_dropped st1 + 1\<rparr>)"
    using assms by (simp_all add: transmit_def e a)
  obtain outs where outs: "send_outcomes w1 = send_outcomes w @ outs" "length outs = length (s_destinations s)"
    "any = (True \<in> set outs)"
    "st1 = st\<lparr>events_in := events_in st + 1, packets_sent := packets_sent st + of_nat (count_list outs True),
        send_errors := send_errors st + of_nat (count_list outs False)\<rparr>" using r by auto
  have "counted st (length (s_destinations s)) outs True st'"
    unfolding st' outs(4) counted_def using outs(2,3) by (cases any) simp_all
  then show "sent_datagrams w' =
        sent_datagrams w @ map (\<lambda>d. (subspan output 0 (unat n), native d)) (s_destinations s)
      \<and> extends w w'
      \<and> (\<exists>outs. send_outcomes w' = send_outcomes w @ outs \<and> counted st (length (s_destinations s)) outs True st')"
    using r outs(1) \<open>w' = w1\<close> by blast
qed

text \<open>A pass on an empty ring, and one that takes the first event of the ring.\<close>

definition sender_system :: "byte list \<Rightarrow> SpscRing \<Rightarrow> Sender \<Rightarrow> ring_system" where
  "sender_system m app s = \<lparr>segment = m, producer = app, consumer = s_ingress s\<rparr>"

lemma run_pass_empty:
  assumes ok: "system_ok n st cap (sender_system m app s)" and "\<not> acquired (s_ingress s)"
    and "sys_items (sender_system m app s) = []"
    and run: "run_state (sender_pass m packet s) w = ((flow, m', packet', s'), w')"
  shows "m' = m" "packet' = packet" "sent_datagrams w' = sent_datagrams w" "extends w w'"
    and "system_ok n st cap (sender_system m app s')" "\<not> acquired (s_ingress s')"
    and "s_session_id s' = s_session_id s" "s_destinations s' = s_destinations s"
      "s_config s' = s_config s" "s_stats s' = s_stats s" "s_packet_sequence s' = s_packet_sequence s"
    and "sys_items (sender_system m app s') = []"
    and "\<exists>err. fst (try_acquire m (s_ingress s)) = Inl err"
    and "flow = Break \<longleftrightarrow> pre_state m = ring_state_value RingState.Closed"
    and "send_outcomes w' = send_outcomes w"
proof -
  have i: "ring_ok n st cap m" "consumer_ok n st cap m (s_ingress s)" "producer_ok n st cap m app"
    "ring_items n st m = []"
    using ok assms(3) sys_eqs(1) [OF ok] by (simp_all add: system_ok_def sender_system_def)
  have acq: "try_acquire m (s_ingress s) =
      (Inl (if pre_state m = ring_state_value RingState.Closed then AcquireError.Closed else Empty),
       reloaded_write m (s_ingress s))"
    using try_acquire_cases [OF i(1,2)] assms(2) i(4) by simp
  have s': "s' = s\<lparr>s_ingress := reloaded_write m (s_ingress s)\<rparr>" "m' = m" "packet' = packet"
    "flow = Break \<longleftrightarrow> pre_state m = ring_state_value RingState.Closed"
    "sent_datagrams w' = sent_datagrams w" "extends w w'" "send_outcomes w' = send_outcomes w"
    using run unfolding sender_pass_def acq
    by (auto split: if_splits)
  then show "m' = m" "packet' = packet" "sent_datagrams w' = sent_datagrams w" "extends w w'"
    "flow = Break \<longleftrightarrow> pre_state m = ring_state_value RingState.Closed" "send_outcomes w' = send_outcomes w"
    "s_session_id s' = s_session_id s" "s_destinations s' = s_destinations s"
    "s_config s' = s_config s" "s_stats s' = s_stats s" "s_packet_sequence s' = s_packet_sequence s"
    by simp_all
  show "\<exists>err. fst (try_acquire m (s_ingress s)) = Inl err" by (simp add: acq)
  show ok': "system_ok n st cap (sender_system m app s')"
    using i consumer_ok_reloaded [OF i(2)] by (simp add: s' system_ok_def sender_system_def)
  show "sys_items (sender_system m app s') = []"
    using i(4) sys_eqs(1) [OF ok'] by (simp add: sender_system_def)
  show "\<not> acquired (s_ingress s')"
    using assms(2) by (simp add: s' reloaded_write_def)
qed

text \<open>The encoding step of a pass.\<close>

lemma encode_step:
  assumes "addressable (payload e)" and "sid \<noteq> 0" and "seq \<noteq> 0"
    and "length packet = unat kMaxPacketBytes" and "unat limit \<le> unat kMaxPacketBytes"
    and "encode_data e sid seq (subspan packet 0 (unat limit)) = (encoded, outp)"
  shows "length (outp @ drop (unat limit) packet) = unat kMaxPacketBytes"
    and "sendable limit e \<Longrightarrow> \<exists>sz. encoded = Inr sz \<and> subspan outp 0 (unat sz) = packet_of sid seq e"
    and "\<not> sendable limit e \<Longrightarrow> \<exists>err. encoded = Inl err"
proof -
  have len: "length (subspan packet 0 (unat limit)) = unat limit" using assms(4,5) by simp
  have a: "addressable (subspan packet 0 (unat limit))"
    using assms(4) by (intro addressable_smallI) (simp add: kMaxPacketBytes_def)
  have *: "length outp = unat limit
      \<and> (sendable limit e \<longrightarrow> (\<exists>sz. encoded = Inr sz \<and> subspan outp 0 (unat sz) = packet_of sid seq e))
      \<and> (\<not> sendable limit e \<longrightarrow> (\<exists>err. encoded = Inl err))"
  proof (rule encode_cases [OF assms(1) a, of sid seq])
    assume e: "encodable sid seq e" "packet_len (length (payload e)) \<le> length (subspan packet 0 (unat limit))"
      "encode_data e sid seq (subspan packet 0 (unat limit)) =
        (Inr (word_of_nat (packet_len (length (payload e)))),
         store_bytes (subspan packet 0 (unat limit)) 0 (packet_of sid seq e))"
    then have s: "sendable limit e" by (simp add: sendable_def encodable_def len)
    have "unat (word_of_nat (packet_len (length (payload e))) :: size_t) = packet_len (length (payload e))"
      using e(1) by (intro unat_packet_len) (simp add: encodable_def)
    then show ?thesis
      using e assms(6) s len take_store_0 [of "packet_of sid seq e" "subspan packet 0 (unat limit)"]
      by (auto simp: subspan_def)
  next
    fix err
    assume e: "encode_data e sid seq (subspan packet 0 (unat limit)) = (Inl err, subspan packet 0 (unat limit))"
      "\<not> (encodable sid seq e \<and> packet_len (length (payload e)) \<le> length (subspan packet 0 (unat limit)))"
    then have "\<not> sendable limit e" using assms(2-5) by (auto simp: sendable_def encodable_def len)
    then show ?thesis using e(1) assms(6) len by auto
  qed
  then show "length (outp @ drop (unat limit) packet) = unat kMaxPacketBytes"
    "sendable limit e \<Longrightarrow> \<exists>sz. encoded = Inr sz \<and> subspan outp 0 (unat sz) = packet_of sid seq e"
    "\<not> sendable limit e \<Longrightarrow> \<exists>err. encoded = Inl err"
    using assms(4,5) by auto
qed

text \<open>The event that an acquisition gives, and the ring that its release leaves.\<close>

lemma acquire_first:
  assumes ok: "ring_ok n st cap m" "consumer_ok n st cap m c" and "\<not> acquired c" "ring_items n st m \<noteq> []"
  shows "\<exists>v. try_acquire m c = (Inr v, holding m c) \<and> deref m v = hd (ring_items n st m)"
    and "addressable (payload (hd (ring_items n st m)))"
proof -
  let ?v = "view_of m (slot_at n st (unat (consumer_position m)))"
  have "unat (consumer_position m) < unat (producer_position m)"
    using assms(4) ring_ok_items(2) [OF ok(1)] ok(1) by (auto simp: ring_ok_def)
  then have de: "deref m ?v = hd (ring_items n st m)" by (simp add: ring_items_first)
  then show "\<exists>v. try_acquire m c = (Inr v, holding m c) \<and> deref m v = hd (ring_items n st m)"
    using try_acquire_cases [OF ok] assms(3,4) by auto
  have "slot_valid cap m (slot_at n st (unat (consumer_position m)))" using ok(1) by (simp add: ring_ok_def)
  then have "length (payload (hd (ring_items n st m))) \<le> cap"
    unfolding de [symmetric] by (simp add: slot_event_def slot_valid_def min_le_iff_disj)
  then show "addressable (payload (hd (ring_items n st m)))"
    using ok(1) geometryD(6) [of n st cap m] by (intro addressable_smallI) (simp add: ring_ok_def)
qed

lemma release_held:
  assumes "ring_ok n st cap m" "consumer_ok n st cap m c" "ring_items n st m \<noteq> []"
  shows "release m (holding m c) = (True, released_ring m, (holding m c)\<lparr>acquired := False, acquired_position := 0\<rparr>)"
    and "ring_ok n st cap (released_ring m)" "ring_items n st (released_ring m) = tl (ring_items n st m)"
    and "producer_ok n st cap m p \<Longrightarrow> producer_ok n st cap (released_ring m) p"
    and "consumer_ok n st cap (released_ring m) ((holding m c)\<lparr>acquired := False, acquired_position := 0\<rparr>)"
proof -
  have "acquired (holding m c)" by (simp add: holding_def)
  note r = released_ok [OF assms(1) consumer_ok_holding [OF assms] this]
  show "release m (holding m c) = (True, released_ring m, (holding m c)\<lparr>acquired := False, acquired_position := 0\<rparr>)"
    "ring_ok n st cap (released_ring m)" "ring_items n st (released_ring m) = tl (ring_items n st m)"
    "producer_ok n st cap m p \<Longrightarrow> producer_ok n st cap (released_ring m) p"
    "consumer_ok n st cap (released_ring m) ((holding m c)\<lparr>acquired := False, acquired_position := 0\<rparr>)"
    by (fact r)+
qed

lemma sequence_advanced:
  assumes "advance_sequence s encoded = (f, s')" and "sent \<longleftrightarrow> (\<exists>k. encoded = Inr k)"
  shows "s_ingress s' = s_ingress s" "s_stats s' = s_stats s" "s_session_id s' = s_session_id s"
    "s_destinations s' = s_destinations s" "s_config s' = s_config s"
    and "f = Break \<longleftrightarrow> sent \<and> s_packet_sequence s = u64_max"
    and "f = Continue \<Longrightarrow> s_packet_sequence s' = s_packet_sequence s + (if sent then 1 else 0)
      \<and> s_stop_requested s' = s_stop_requested s"
  using assms
  by (cases encoded; auto simp: advance_sequence_def sender_request_stop_def split: if_splits)+

lemma run_pass_event:
  assumes ok: "system_ok n st cap (sender_system m app s)" and na: "\<not> acquired (s_ingress s)"
    and ne: "sys_items (sender_system m app s) \<noteq> []"
    and ids: "s_session_id s \<noteq> 0" "s_packet_sequence s \<noteq> 0"
    and buf: "length packet = unat kMaxPacketBytes"
      "unat (max_datagram_bytes (s_config s)) \<le> unat kMaxPacketBytes"
    and e: "e = hd (sys_items (sender_system m app s))"
    and limit: "limit = max_datagram_bytes (s_config s)"
    and run: "run_state (sender_pass m packet s) w = ((flow, m', packet', s'), w')"
  shows "fst (try_acquire m (s_ingress s)) = Inr v \<Longrightarrow> deref m v = e"
    and "\<exists>v. fst (try_acquire m (s_ingress s)) = Inr v"
    and "length packet' = unat kMaxPacketBytes" and "extends w w'"
    and "system_ok n st cap (sender_system m' app s')" and "\<not> acquired (s_ingress s')"
    and "sys_items (sender_system m' app s') = tl (sys_items (sender_system m app s))"
    and "sent_datagrams w' = sent_datagrams w @ (if sendable limit e
        then datagrams_for (s_session_id s) (s_packet_sequence s) (s_destinations s) e else [])"
    and "\<exists>outs. send_outcomes w' = send_outcomes w @ outs
      \<and> counted (s_stats s) (length (s_destinations s)) outs (sendable limit e) (s_stats s')"
    and "flow = Break \<longleftrightarrow> sendable limit e \<and> s_packet_sequence s = u64_max"
    and "flow = Continue \<Longrightarrow> s_packet_sequence s' = s_packet_sequence s + (if sendable limit e then 1 else 0)
      \<and> s_stop_requested s' = s_stop_requested s"
    and "s_session_id s' = s_session_id s" "s_destinations s' = s_destinations s" "s_config s' = s_config s"
    and "pre_state m' = pre_state m"
proof -
  let ?c = "s_ingress s" and ?r = "(holding m (s_ingress s))\<lparr>acquired := False, acquired_position := 0\<rparr>"
  have i: "ring_ok n st cap m" "consumer_ok n st cap m ?c" "producer_ok n st cap m app"
    and ri: "ring_items n st m \<noteq> []" "e = hd (ring_items n st m)"
    using ok ne e sys_eqs(1) [OF ok] by (simp_all add: system_ok_def sender_system_def)
  note a = acquire_first [OF i(1,2) na ri(1), folded ri(2)] and rel = release_held [OF i(1,2) ri(1)]
  then obtain v0 where acq: "try_acquire m ?c = (Inr v0, holding m ?c)" and de: "deref m v0 = e" by blast
  obtain encoded outp where enc: "encode_data e (s_session_id s) (s_packet_sequence s)
      (subspan packet 0 (unat limit)) = (encoded, outp)" by fastforce
  note es = encode_step [OF a(2) ids buf [folded limit] enc]
  obtain st1 w1 where tr: "run_state (transmit s outp encoded ((s_stats s)\<lparr>events_in := events_in (s_stats s) + 1\<rparr>)) w
      = (st1, w1)" by fastforce
  obtain f s2 where adv: "advance_sequence (s\<lparr>s_ingress := ?r, s_stats := st1\<rparr>) encoded = (f, s2)" by fastforce
  have out: "flow = f" "m' = released_ring m" "packet' = outp @ drop (unat limit) packet" "s' = s2" "w' = w1"
    using run unfolding sender_pass_def acq
    by (simp_all add: Let_def de limit [symmetric] enc rel(1) tr adv)
  have T: "sent_datagrams w1 = sent_datagrams w @ (if sendable limit e
        then datagrams_for (s_session_id s) (s_packet_sequence s) (s_destinations s) e else [])
      \<and> extends w w1 \<and> (\<exists>outs. send_outcomes w1 = send_outcomes w @ outs
        \<and> counted (s_stats s) (length (s_destinations s)) outs (sendable limit e) st1)"
  proof (cases "sendable limit e")
    case True
    then show ?thesis using run_transmit(2) [OF tr] es(2) by (auto simp: datagrams_for_def)
  next
    case False
    then show ?thesis using run_transmit(1) [OF tr] es(3) by auto
  qed
  have "sendable limit e \<longleftrightarrow> (\<exists>k. encoded = Inr k)" using es(2,3) by (cases "sendable limit e") auto
  note S = sequence_advanced [OF adv this, simplified]
  show "fst (try_acquire m ?c) = Inr v \<Longrightarrow> deref m v = e" "\<exists>v. fst (try_acquire m ?c) = Inr v"
    using acq de by simp_all
  show "length packet' = unat kMaxPacketBytes" using es(1) out(3) by simp
  show ok': "system_ok n st cap (sender_system m' app s')"
    using rel(2) rel(4) [OF i(3)] rel(5) by (simp add: system_ok_def sender_system_def out S)
  show "pre_state m' = pre_state m"
    using i(1) unfolding out by (intro released_cursors(3)) (auto simp: ring_ok_def)
  show "sys_items (sender_system m' app s') = tl (sys_items (sender_system m app s))"
    using sys_eqs(1) [OF ok] sys_eqs(1) [OF ok'] rel(3) by (simp add: sender_system_def out)
  show "extends w w'" "sent_datagrams w' = sent_datagrams w @ (if sendable limit e
        then datagrams_for (s_session_id s) (s_packet_sequence s) (s_destinations s) e else [])"
    "\<exists>outs. send_outcomes w' = send_outcomes w @ outs
      \<and> counted (s_stats s) (length (s_destinations s)) outs (sendable limit e) (s_stats s')"
    using T by (simp_all add: out S)
  show "\<not> acquired (s_ingress s')" "flow = Break \<longleftrightarrow> sendable limit e \<and> s_packet_sequence s = u64_max"
    "flow = Continue \<Longrightarrow> s_packet_sequence s' = s_packet_sequence s + (if sendable limit e then 1 else 0)
      \<and> s_stop_requested s' = s_stop_requested s"
    "s_session_id s' = s_session_id s" "s_destinations s' = s_destinations s" "s_config s' = s_config s"
    using S by (simp_all add: out)
qed

section \<open>Whole runs\<close>

text \<open>
  The datagrams for a list of handled events: the sendable ones, numbered from one, each to every
  destination in order.
\<close>

definition transmission :: "u32 \<Rightarrow> u32 \<Rightarrow> UdpAddress list \<Rightarrow> event list \<Rightarrow> (byte list \<times> sockaddr_in) list" where
  "transmission sid limit ds es = concat (map (\<lambda>(k, e). datagrams_for sid (word_of_nat k) ds e)
     (enumerate 1 (filter (sendable limit) es)))"

lemma transmission_append:
  "transmission sid limit ds (es @ [e]) = transmission sid limit ds es @ (if sendable limit e
     then datagrams_for sid (word_of_nat (length (filter (sendable limit) es) + 1)) ds e else [])"
  by (simp add: transmission_def enumerate_append_eq add.commute)

text \<open>
  The outcomes of the sends of \<open>k\<close> events to \<open>d\<close> destinations, event by event, and the number of events
  that reached the system for at least one destination.
\<close>

fun groups :: "nat \<Rightarrow> nat \<Rightarrow> 'a list \<Rightarrow> 'a list list" where
  "groups d 0 xs = []"
| "groups d (Suc k) xs = take d xs # groups d k (drop d xs)"

definition reached :: "nat \<Rightarrow> nat \<Rightarrow> bool list \<Rightarrow> nat" where
  "reached d k outs = length (filter (\<lambda>g. True \<in> set g) (groups d k outs))"

lemma groups_snoc:
  "length xs = k * d \<Longrightarrow> length ys = d \<Longrightarrow> groups d (Suc k) (xs @ ys) = groups d k xs @ [ys]"
proof (induction k arbitrary: xs)
  case (Suc k)
  have "length (drop d xs) = k * d" and d: "d \<le> length xs" using Suc.prems(1) by simp_all
  from Suc.IH [OF this(1) Suc.prems(2)] show ?case using d by (subst groups.simps) simp
qed simp

lemma reached_snoc:
  assumes "length outs = k * d" and "length new = (if b then d else 0)"
  shows "reached d (k + (if b then 1 else 0)) (outs @ new) = reached d k outs + (if True \<in> set new then 1 else 0)"
  using assms groups_snoc [of outs k d new] by (cases b) (auto simp: reached_def)

text \<open>
  The counters after \<open>h\<close> handled events of which \<open>k\<close> were sent to \<open>d\<close> destinations with the outcomes
  \<open>outs\<close>.
\<close>

definition balanced :: "EngineStats \<Rightarrow> nat \<Rightarrow> nat \<Rightarrow> nat \<Rightarrow> bool list \<Rightarrow> bool" where
  "balanced st h k d outs \<longleftrightarrow> length outs = k * d
     \<and> events_in st = of_nat h
     \<and> events_out st = of_nat (reached d k outs)
     \<and> events_out st + events_dropped st = of_nat h
     \<and> encode_errors st + of_nat k = of_nat h
     \<and> packets_sent st = of_nat (count_list outs True)
     \<and> send_errors st = of_nat (count_list outs False)"

lemma balanced_step:
  assumes "balanced st h k d outs" and "counted st d new b st'"
  shows "balanced st' (h + 1) (k + (if b then 1 else 0)) d (outs @ new)"
proof -
  have "reached d (k + (if b then 1 else 0)) (outs @ new) = reached d k outs + (if True \<in> set new then 1 else 0)"
    using assms by (intro reached_snoc) (simp_all add: balanced_def counted_def)
  then show ?thesis using assms by (auto simp: balanced_def counted_def algebra_simps)
qed

lemma count_outcomes: "count_list outs True + count_list outs False = length outs"
  by (induction outs) auto

lemma balanced_sums: "balanced st h k d outs \<Longrightarrow> packets_sent st + send_errors st = of_nat (k * d)"
  using count_outcomes [of outs] by (simp add: balanced_def flip: of_nat_add)

definition sender_ok :: "Sender \<Rightarrow> bool" where
  "sender_ok s \<longleftrightarrow> s_session_id s \<noteq> 0
     \<and> unat (max_datagram_bytes (s_config s)) \<le> unat kMaxPacketBytes"

definition sender_inv :: "nat \<Rightarrow> nat \<Rightarrow> nat \<Rightarrow> sender_world \<Rightarrow> bool" where
  "sender_inv n st cap w \<longleftrightarrow>
     (let s = sw_sender w; sys = sender_system (sw_memory w) (sw_app w) s;
          limit = max_datagram_bytes (s_config s);
          k = length (filter (sendable limit) (sw_handled w))
      in system_ok n st cap sys \<and> \<not> acquired (s_ingress s) \<and> sender_ok s
         \<and> sw_published w = sw_handled w @ sys_items sys
         \<and> length (sw_packet w) = unat kMaxPacketBytes
         \<and> sent_datagrams (sw_os w) = transmission (s_session_id s) limit (s_destinations s) (sw_handled w)
         \<and> balanced (s_stats s) (length (sw_handled w)) k (length (s_destinations s)) (send_outcomes (sw_os w))
         \<and> k < 2 ^ 64 \<and> (sw_running w \<longrightarrow> unat (s_packet_sequence s) = k + 1))"

lemma sender_inv_publish:
  assumes "sender_inv n st cap w" and "addressable (payload e)"
  shows "sender_inv n st cap (sender_step w (App_publish e))"
proof -
  let ?sys = "sender_system (sw_memory w) (sw_app w) (sw_sender w)"
  obtain r m app where t: "try_publish (sw_memory w) (sw_app w) e = (r, m, app)" by (metis prod_cases3)
  have "sys_publish ?sys e = (r, sender_system m app (sw_sender w))"
    by (simp add: sys_publish_def sender_system_def t)
  from sys_publish_keeps [OF _ _ this, of n st cap] assms
  show ?thesis
    by (auto simp: sender_inv_def Let_def t sys_admits_def)
qed

lemma sender_inv_close:
  assumes "sender_inv n st cap w"
  shows "sender_inv n st cap (sender_step w App_close)"
proof -
  let ?sys = "sender_system (sw_memory w) (sw_app w) (sw_sender w)"
  have ok: "system_ok n st cap ?sys" using assms by (simp add: sender_inv_def Let_def)
  note c = closed_system [OF ok refl, where x = "ring_state_value RingState.Closed"]
  have "?sys\<lparr>segment := write_u32 (segment ?sys) 40 x\<rparr>
      = sender_system (write_u32 (sw_memory w) 40 x) (sw_app w) (sw_sender w)" for x
    by (simp add: sender_system_def)
  with c assms show ?thesis
    by (auto simp: sender_inv_def Let_def close_publication_def)
qed

text \<open>What the invariant says of a running engine, and what a pass changes of the world.\<close>

lemma sender_invD:
  assumes "sender_inv n st cap w" and "sw_running w" and "s = sw_sender w"
    and "sys = sender_system (sw_memory w) (sw_app w) s" and "limit = max_datagram_bytes (s_config s)"
    and "k = length (filter (sendable limit) (sw_handled w))"
  shows "system_ok n st cap sys" "\<not> acquired (s_ingress s)" "s_session_id s \<noteq> 0"
    "unat limit \<le> unat kMaxPacketBytes" "sw_published w = sw_handled w @ sys_items sys"
    "length (sw_packet w) = unat kMaxPacketBytes" "unat (s_packet_sequence s) = k + 1"
    "sent_datagrams (sw_os w) = transmission (s_session_id s) limit (s_destinations s) (sw_handled w)"
    "balanced (s_stats s) (length (sw_handled w)) k (length (s_destinations s)) (send_outcomes (sw_os w))"
  using assms by (simp_all add: sender_inv_def Let_def sender_ok_def)

lemma sender_pass_step:
  assumes "sw_running w" and "\<not> s_stop_requested (sw_sender w)" and "w' = sender_step w Sender_pass"
    and "run_state (sender_pass (sw_memory w) (sw_packet w) (sw_sender w)) (sw_os w) = ((flow, m, packet, s), os)"
  shows "sw_memory w' = m" "sw_packet w' = packet" "sw_sender w' = s" "sw_os w' = os"
    "sw_app w' = sw_app w" "sw_published w' = sw_published w" "sw_running w' = (flow = Continue)"
    "sw_handled w' = (case fst (try_acquire (sw_memory w) (s_ingress (sw_sender w))) of
        Inr v \<Rightarrow> sw_handled w @ [deref (sw_memory w) v] | Inl _ \<Rightarrow> sw_handled w)"
  using assms by simp_all

lemma sender_inv_empty_pass:
  assumes inv: "sender_inv n st cap w" and "sw_running w" and "\<not> s_stop_requested (sw_sender w)"
    and w': "w' = sender_step w Sender_pass"
    and empty: "sys_items (sender_system (sw_memory w) (sw_app w) (sw_sender w)) = []"
  shows "sender_inv n st cap w' \<and> pre_state (sw_memory w') = pre_state (sw_memory w)
    \<and> sw_handled w' = sw_handled w \<and> (pre_state (sw_memory w) = 3 \<longrightarrow> \<not> sw_running w')"
proof -
  let ?s = "sw_sender w" and ?m = "sw_memory w"
  obtain flow m packet s os where run:
    "run_state (sender_pass ?m (sw_packet w) ?s) (sw_os w) = ((flow, m, packet, s), os)"
    by (metis prod.exhaust)
  note i = sender_invD [OF inv assms(2) refl refl refl refl] and st = sender_pass_step [OF assms(2-4) run]
  note e = run_pass_empty [OF i(1,2) empty run]
  have h: "sw_handled w' = sw_handled w" using e(13) by (auto simp: st(8))
  have "sender_inv n st cap w'"
    using e i empty unsigned_less [of "s_packet_sequence ?s", where ?'a = nat]
    by (simp add: sender_inv_def Let_def st(1-7) h sender_ok_def)
  then show ?thesis using e(1,14) h by (cases flow) (auto simp: st(1,7))
qed

lemma sender_inv_event_pass:
  assumes inv: "sender_inv n st cap w" and "sw_running w" and "\<not> s_stop_requested (sw_sender w)"
    and w': "w' = sender_step w Sender_pass"
    and items: "sys_items (sender_system (sw_memory w) (sw_app w) (sw_sender w)) = x # xs"
  shows "sender_inv n st cap w' \<and> pre_state (sw_memory w') = pre_state (sw_memory w)
    \<and> sw_handled w' = sw_handled w @ [x] \<and> (sw_running w' \<longrightarrow> \<not> s_stop_requested (sw_sender w'))
    \<and> (s_packet_sequence (sw_sender w) \<noteq> u64_max \<longrightarrow> sw_running w'
        \<and> unat (s_packet_sequence (sw_sender w')) \<le> unat (s_packet_sequence (sw_sender w)) + 1)"
proof -
  let ?s = "sw_sender w" and ?m = "sw_memory w"
  let ?limit = "max_datagram_bytes (s_config ?s)"
  define k where "k = length (filter (sendable ?limit) (sw_handled w))"
  define k' where "k' = k + (if sendable ?limit x then 1 else 0)"
  obtain flow m packet s os where run:
    "run_state (sender_pass ?m (sw_packet w) ?s) (sw_os w) = ((flow, m, packet, s), os)"
    by (metis prod.exhaust)
  note i = sender_invD [OF inv assms(2) refl refl refl k_def] and st = sender_pass_step [OF assms(2-4) run]
  have seq: "s_packet_sequence ?s \<noteq> 0" "s_packet_sequence ?s = word_of_nat (k + 1)"
    using i(7) word_of_nat_unat [of "s_packet_sequence ?s" "k + 1"] by auto
  have ne: "sys_items (sender_system ?m (sw_app w) ?s) \<noteq> []" "x = hd (sys_items (sender_system ?m (sw_app w) ?s))"
    by (simp_all add: items)
  note e = run_pass_event [OF i(1,2) ne(1) i(3) seq(1) i(6,4) ne(2) refl run]
  have h: "sw_handled w' = sw_handled w @ [x]" using e(1,2) by (auto simp: st(8))
  have count: "length (filter (sendable ?limit) (sw_handled w @ [x])) = k'" by (simp add: k_def k'_def)
  have u: "unat (s_packet_sequence s) = k' + 1" if "flow = Continue"
    using e(10,11) that i(7) unat_plus_1 [of "s_packet_sequence ?s"] by (auto simp: k'_def split: if_splits)
  obtain outs where outs: "send_outcomes os = send_outcomes (sw_os w) @ outs"
    "counted (s_stats ?s) (length (s_destinations ?s)) outs (sendable ?limit x) (s_stats s)" using e(9) by blast
  have "balanced (s_stats s) (length (sw_handled w) + 1) k' (length (s_destinations ?s)) (send_outcomes os)"
    unfolding k'_def outs(1) by (rule balanced_step [OF i(9) outs(2)])
  moreover have "sent_datagrams os = transmission (s_session_id ?s) ?limit (s_destinations ?s) (sw_handled w @ [x])"
    using e(8) i(8) by (simp add: transmission_append seq(2) k_def)
  moreover have "sw_published w = (sw_handled w @ [x]) @ sys_items (sender_system m (sw_app w) s)"
    using i(5) e(7) items by simp
  moreover have "k' < 2 ^ 64"
    using i(7) unsigned_less [of "s_packet_sequence ?s", where ?'a = nat] by (simp add: k'_def)
  ultimately have "sender_inv n st cap w'"
    using u e(3,5,6,12-14) i(3,4)
    unfolding sender_inv_def Let_def st(1-7) h e(13,14) count sender_ok_def e(12)
    by simp
  then show ?thesis
    using e(10,11,15) h assms(3) u i(7) by (cases flow) (auto simp: st(1,3,7) k'_def split: if_splits)
qed

lemma sender_inv_pass:
  assumes "sender_inv n st cap w" and "sw_running w" and "\<not> s_stop_requested (sw_sender w)"
    and "w' = sender_step w Sender_pass"
  shows "sender_inv n st cap w'"
    and "pre_state (sw_memory w') = pre_state (sw_memory w)" and "sw_published w' = sw_published w"
    and "sys_items (sender_system (sw_memory w) (sw_app w) (sw_sender w)) = [] \<Longrightarrow>
      sw_handled w' = sw_handled w \<and> (pre_state (sw_memory w) = 3 \<longrightarrow> \<not> sw_running w')"
    and "sys_items (sender_system (sw_memory w) (sw_app w) (sw_sender w)) = e # es \<Longrightarrow>
      sw_handled w' = sw_handled w @ [e] \<and> (sw_running w' \<longrightarrow> \<not> s_stop_requested (sw_sender w'))
      \<and> (s_packet_sequence (sw_sender w) \<noteq> u64_max \<longrightarrow> sw_running w'
          \<and> unat (s_packet_sequence (sw_sender w')) \<le> unat (s_packet_sequence (sw_sender w)) + 1)"
proof -
  note empty = sender_inv_empty_pass [OF assms] and event = sender_inv_event_pass [OF assms]
  show "sender_inv n st cap w'" "pre_state (sw_memory w') = pre_state (sw_memory w)"
    using empty event by (metis neq_Nil_conv)+
  obtain flow m packet s os where
    "run_state (sender_pass (sw_memory w) (sw_packet w) (sw_sender w)) (sw_os w) = ((flow, m, packet, s), os)"
    by (metis prod.exhaust)
  from sender_pass_step(6) [OF assms(2-4) this] show "sw_published w' = sw_published w" .
qed (use sender_inv_empty_pass [OF assms] sender_inv_event_pass [OF assms] in simp_all)

lemma sender_inv_step:
  assumes "sender_inv n st cap w" and "\<forall>e. a = App_publish e \<longrightarrow> addressable (payload e)"
  shows "sender_inv n st cap (sender_step w a)"
proof (cases a)
  case (App_publish e)
  then show ?thesis using assms sender_inv_publish by simp
next
  case App_close
  then show ?thesis using assms sender_inv_close by simp
next
  case Stop_sender
  then show ?thesis using assms(1)
    by (simp add: sender_inv_def Let_def sender_request_stop_def sender_system_def sender_ok_def)
next
  case Sender_pass
  show ?thesis
  proof (cases "sw_running w \<and> \<not> s_stop_requested (sw_sender w)")
    case True
    then show ?thesis unfolding Sender_pass using assms(1) by (intro sender_inv_pass(1) [OF _ _ _ refl]) auto
  next
    case False
    then show ?thesis using assms(1) Sender_pass by (auto simp: sender_inv_def Let_def)
  qed
qed

lemma sender_inv_run:
  "sender_inv n st cap w \<Longrightarrow> \<forall>e. App_publish e \<in> set actions \<longrightarrow> addressable (payload e) \<Longrightarrow>
    sender_inv n st cap (sender_run w actions)"
  by (induction actions arbitrary: w) (auto simp: sender_run_def sender_inv_step simp del: sender_step.simps)

text \<open>Passes over a closed ring: one per queued event, and one that sees the end.\<close>

lemma sender_drains:
  assumes "sender_inv n st cap w" and "sw_running w" and "\<not> s_stop_requested (sw_sender w)"
    and "pre_state (sw_memory w) = 3"
    and "sys_items (sender_system (sw_memory w) (sw_app w) (sw_sender w)) = es"
    and "unat (s_packet_sequence (sw_sender w)) + length es < 2 ^ 64"
    and "w' = sender_run w (replicate (length es + 1) Sender_pass)"
  shows "\<not> sw_running w' \<and> sw_handled w' = sw_published w \<and> sw_published w' = sw_published w"
  using assms
proof (induction es arbitrary: w)
  case Nil
  note p = sender_inv_pass [OF Nil.prems(1-3) refl]
  have "sw_published w = sw_handled w" using Nil.prems(1,5) by (simp add: sender_inv_def Let_def)
  then show ?case using p(3,4) Nil.prems(4-7) by (simp add: sender_run_def del: sender_step.simps)
next
  case (Cons e es)
  let ?v = "sender_step w Sender_pass"
  note p = sender_inv_pass [OF Cons.prems(1-3) refl]
  have max: "s_packet_sequence (sw_sender w) \<noteq> u64_max" using Cons.prems(6) by auto
  have v: "sw_handled ?v = sw_handled w @ [e]" "sw_running ?v" "\<not> s_stop_requested (sw_sender ?v)"
    using p(5) [OF Cons.prems(5)] max by blast+
  have i: "sw_published w = sw_handled w @ e # es"
    using Cons.prems(1,5) by (simp add: sender_inv_def Let_def)
  have "sw_published ?v = sw_handled ?v @ sys_items (sender_system (sw_memory ?v) (sw_app ?v) (sw_sender ?v))"
    using p(1) by (simp add: sender_inv_def Let_def del: sender_step.simps)
  then have es: "sys_items (sender_system (sw_memory ?v) (sw_app ?v) (sw_sender ?v)) = es"
    using p(3) v(1) i by (simp del: sender_step.simps)
  have "unat (s_packet_sequence (sw_sender ?v)) + length es < 2 ^ 64"
    using p(5) [OF Cons.prems(5)] max Cons.prems(6) by auto
  then have "\<not> sw_running w' \<and> sw_handled w' = sw_published ?v \<and> sw_published w' = sw_published ?v"
    using p(2) Cons.prems(4,7)
    by (intro Cons.IH [OF p(1) v(2,3) _ es]) (simp_all add: sender_run_def del: sender_step.simps)
  then show ?case using p(3) by (simp del: sender_step.simps)
qed

end
