(* ===== verification/Ring_Witnesses.thy ===== *)
theory Ring_Witnesses
  imports Ring_Setup
begin

text \<open>
  A concrete ring of two slots with a capacity of 32 payload bytes each, made by the code's own
  \<open>initialize\<close> in 320 zeroed bytes, and the properties of the ring applied to it.
\<close>

definition demo_config :: RingConfig where
  "demo_config = \<lparr>cfg_slot_count = 2, cfg_slot_payload_capacity = 32\<rparr>"

definition demo_event :: "nat \<Rightarrow> event" where
  "demo_event k = \<lparr>stream_id = 5, sequence = word_of_nat k, source_timestamp_ns = 77,
     payload = [1, 2, word_of_nat k]\<rparr>"

definition demo_segment :: "byte list" where
  "demo_segment = snd (initialize_ring 4096 (replicate 320 255) demo_config 7)"

definition demo_system :: ring_system where
  "demo_system = \<lparr>segment = demo_segment, producer = make_ring demo_segment True,
     consumer = make_ring demo_segment False\<rparr>"

lemma demo_initialized:
  "initialize_ring 4096 (replicate 320 255) demo_config 7 = (Inr (make_ring demo_segment True), demo_segment)"
proof -
  have a: "addressable (replicate 320 255)" by (simp add: addressable_def)
  have r: "required_bytes demo_config = Inr 320" by code_simp
  show ?thesis
    by (simp add: demo_segment_def initialize_ring_eq [OF a] r good_address_def)
qed

lemma demo_segment_value [code]: "demo_segment =
    [76, 76, 69, 49, 1, 0, 192, 0, 64, 1, 0, 0, 0, 0, 0, 0, 2, 0, 0, 0, 64, 0, 0, 0, 32, 0, 0, 0, 0, 0, 0, 0,
     7, 0, 0, 0, 0, 0, 0, 0, 2, 0, 0, 0] @ replicate 148 0 @ replicate 32 0 @ replicate 32 255
     @ replicate 32 0 @ replicate 32 255"
  by code_simp

lemma demo_ok: "system_ok 2 64 32 demo_system" "sys_items demo_system = []" "sys_view demo_system = None"
proof -
  have a: "addressable (replicate 320 255)" by (simp add: addressable_def)
  note i = attach_initialized [OF a demo_initialized]
  obtain st where r: "ring_ok 2 st 32 demo_segment" "handle_ok 2 st 32 (make_ring demo_segment True)"
    "handle_ok 2 st 32 (make_ring demo_segment False)" "ring_items 2 st demo_segment = []"
    using i(1) by (auto simp: demo_config_def)
  moreover have "st = 64" using r(1) by (simp add: ring_ok_def geometry_def stride_of_def round_up_def)
  ultimately show ok: "system_ok 2 64 32 demo_system"
    using make_ring_handles by (auto simp: system_ok_def demo_system_def)
  show "sys_items demo_system = []" "sys_view demo_system = None"
    using r(4) \<open>st = 64\<close> make_ring_handles(3) [OF r(1,3)] sys_eqs(1) [OF ok]
    by (simp_all add: demo_system_def sys_view_def)
qed

lemma demo_small: "addressable (payload (demo_event k))" "sys_admits (demo_event k)"
  "length (payload (demo_event k)) = 3"
  by (simp_all add: addressable_def demo_event_def sys_admits_def)

text \<open>The ring after one publication, and with that event held.\<close>

definition demo_one :: ring_system where
  "demo_one = snd (sys_publish demo_system (demo_event 1))"

definition demo_held :: ring_system where
  "demo_held = snd (sys_acquire demo_one)"

definition demo_view :: slot_view where
  "demo_view = \<lparr>stream_id = 5, sequence = 1, source_timestamp_ns = 77, payload = (224, 3)\<rparr>"

lemma demo_publish: "sys_publish demo_system (demo_event 1) = (Ok, demo_one)"
proof -
  have "fst (sys_publish demo_system (demo_event 1)) = Ok" by code_simp
  then show ?thesis by (metis demo_one_def prod.collapse)
qed

lemma demo_acquire: "sys_acquire demo_one = (Inr demo_view, demo_held)"
proof -
  have "fst (sys_acquire demo_one) = Inr demo_view" by code_simp
  then show ?thesis by (metis demo_held_def prod.collapse)
qed

lemma demo_one_ok: "system_ok 2 64 32 demo_one" "sys_items demo_one = [demo_event 1]" "sys_view demo_one = None"
  using sys_publish_keeps [OF demo_ok(1) demo_small(2) demo_publish] demo_ok(2,3) by simp_all

lemma demo_held_ok: "system_ok 2 64 32 demo_held" "sys_items demo_held = [demo_event 1]"
  "sys_view demo_held = Some demo_view"
  using sys_acquire_keeps [OF demo_one_ok(1) demo_acquire] demo_one_ok(2) by simp_all

theorem try_publish_decides_witness:
  "case try_publish (segment demo_one) (producer demo_one) (demo_event 2) of
     (r, m', _) \<Rightarrow> r = Ok \<and> ring_items 2 64 m' = [demo_event 1, demo_event 2]"
proof -
  obtain r m' p' where t: "try_publish (segment demo_one) (producer demo_one) (demo_event 2) = (r, m', p')"
    by (metis prod_cases3)
  have st: "pre_state (segment demo_one) = 2" "producer_position (segment demo_one) = 1" by code_simp+
  have i: "ring_items 2 64 (segment demo_one) = [demo_event 1]"
    using sys_eqs(1) [OF demo_one_ok(1)] demo_one_ok(2) by simp
  show ?thesis
    using try_publish_decides [OF _ _ _ demo_small(1) t, of 2 64 32 "consumer demo_one"]
      demo_one_ok(1) st i demo_small(3) t
    by (simp add: system_ok_def del: length_ring_items)
qed

theorem try_acquire_decides_witness:
  "case try_acquire (segment demo_one) (consumer demo_one) of
     (r, c') \<Rightarrow> r = Inr demo_view \<and> deref (segment demo_one) demo_view = demo_event 1 \<and> acquired c'"
proof -
  obtain c' where t: "try_acquire (segment demo_one) (consumer demo_one) = (Inr demo_view, c')"
    using demo_acquire by (auto simp: sys_acquire_def split: prod.splits)
  have i: "ring_items 2 64 (segment demo_one) = [demo_event 1]"
    using sys_eqs(1) [OF demo_one_ok(1)] demo_one_ok(2) by simp
  show ?thesis
    using try_acquire_decides [OF _ _ t, of 2 64 32] demo_one_ok(1) i t by (auto simp: system_ok_def)
qed

theorem held_view_is_stable_witness:
  "sys_deref (foldl (\<lambda>s e. snd (sys_publish s e)) demo_held (map demo_event [2, 3, 4])) demo_view = demo_event 1"
  using held_view_is_stable [OF sys_eqs(3) [OF demo_held_ok(1)] demo_held_ok(3) _ refl, of "map demo_event [2, 3, 4]"]
    demo_small(1) sys_view_first(2) [OF demo_held_ok(1,3)] demo_held_ok(2)
  by (simp add: list_all_iff)

theorem data_path_stays_in_segment_witness:
  "\<exists>i < 2. fst (payload demo_view) = 192 + 64 * i + 32 \<and> 192 + 64 * (i + 1) \<le> length (segment demo_one)"
proof -
  have "fst (try_acquire (segment demo_one) (consumer demo_one)) = Inr demo_view"
    using demo_acquire by (auto simp: sys_acquire_def split: prod.splits)
  then show ?thesis
    using data_path_stays_in_segment [OF _ _ demo_small(1), of 2 64 32 "segment demo_one" "consumer demo_one" 1]
      demo_one_ok(1) by (auto simp: system_ok_def ring_ok_def consumer_ok_def)
qed

theorem closing_loses_nothing_witness:
  "case close_publication (segment demo_one) (producer demo_one) of
     (closed, m') \<Rightarrow> closed \<and> consumed (client_run sys_publish sys_acquire sys_release sys_deref
        ((new_client (demo_one\<lparr>segment := m'\<rparr>))\<lparr>published := [demo_event 1]\<rparr>)
        (concat (replicate 1 [Acquire, Release]))) = [demo_event 1]"
proof -
  have "initializer (producer demo_one)" by code_simp
  then have c: "close_publication (segment demo_one) (producer demo_one) =
      (True, write_u32 (segment demo_one) 40 (ring_state_value RingState.Closed))"
    by (simp add: close_publication_def)
  show ?thesis
    using closing_loses_nothing [OF sys_eqs(3) [OF demo_one_ok(1)] demo_one_ok(3) c refl refl]
      demo_one_ok(2) c by simp
qed

theorem attach_accepts_exactly_witness:
  "attach_ring 4096 demo_segment = Inr (make_ring demo_segment False)
    \<and> length demo_segment = 192 + unat (pre_slot_count demo_segment) * unat (pre_slot_stride demo_segment)"
proof -
  have a: "addressable (replicate 320 255)" "addressable demo_segment"
    by (simp_all add: addressable_def demo_segment_value)
  show ?thesis
    using attach_accepts_exactly [OF a(2), of 4096 "make_ring demo_segment False"]
      attach_initialized(3) [OF a(1) demo_initialized] by simp
qed

theorem created_ring_is_fifo_witness:
  "\<exists>queued. [demo_event 1, demo_event 2] = [demo_event 1] @ queued \<and> length queued \<le> 2
    \<and> queued = sys_items (queue_state (client_run sys_publish sys_acquire sys_release sys_deref
        (new_client demo_system) [Publish (demo_event 1), Acquire, Publish (demo_event 2), Publish (demo_event 3), Release]))"
proof -
  let ?calls = "[Publish (demo_event 1), Acquire, Publish (demo_event 2), Publish (demo_event 3), Release]"
  let ?c = "client_run sys_publish sys_acquire sys_release sys_deref (new_client demo_system) ?calls"
  have a: "addressable (replicate 320 255)" by (simp add: addressable_def)
  have v: "published ?c = [demo_event 1, demo_event 2]" "consumed ?c = [demo_event 1]"
    by code_simp+
  show ?thesis
    using created_ring_is_fifo [OF a demo_initialized attach_initialized(3) [OF a demo_initialized] _ _ refl,
        of demo_system ?calls] demo_small(1) v
    by (simp add: demo_system_def demo_config_def)
qed

end
