(* ===== verification/Sender_Properties.thy ===== *)
theory Sender_Properties
  imports Sender_Run Ring_Witnesses
begin

text \<open>
  The properties of the sender engine, for every interleaving of the loop with the application that
  publishes on the ring and the thread that asks for the stop, and for every answer of the system.
\<close>

lemma start_sender_inv:
  assumes "addressable m0" and "initialize_ring addr m0 ring_config instance_id = (Inr app, m)"
    and "attach_ring addr' m = Inr ingress"
    and "s = make_sender config seg ingress udp ds sid" and "sid \<noteq> 0"
    and "\<not> bad_sender_config config" and "sent_datagrams w = []"
  shows "\<exists>st cap. sender_inv (unat (cfg_slot_count ring_config)) st cap (start_sender s m app w)"
proof -
  note i = attach_initialized [OF assms(1,2)]
  let ?n = "unat (cfg_slot_count ring_config)" and ?cap = "unat (cfg_slot_payload_capacity ring_config)"
  have "addressable m" using assms(1) i(4) by (simp add: addressable_def)
  then have ing: "ingress = make_ring m False" using attach_ring_iff [of m addr' ingress] assms(3) by simp
  obtain st where r: "ring_ok ?n st ?cap m" "handle_ok ?n st ?cap app" "handle_ok ?n st ?cap ingress"
    "ring_items ?n st m = []" using i(1) ing by auto
  note mk = make_ring_handles [OF r(1)]
  have ok: "system_ok ?n st ?cap (sender_system m app s)"
    using r mk i(2) ing by (auto simp: system_ok_def sender_system_def assms(4) make_sender_def)
  have l: "unat (ucast (max_datagram_bytes config) :: size_t) \<le> unat kMaxPacketBytes"
    using assms(6) by (simp add: bad_sender_config_def word_le_nat_alt not_less)
  have sent_nothing: "send_outcomes w = []" using length_send_outcomes [of w] assms(7) by simp
  have "sender_inv ?n st ?cap (start_sender s m app w)"
    using ok mk(3) [of False] r ing assms(5,7) l sys_eqs(1) [OF ok]
    by (simp add: sender_inv_def Let_def start_sender_def sender_ok_def balanced_def assms(4)
        make_sender_def zero_stats_def transmission_def unat_ucast_u32 sender_system_def reached_def sent_nothing)
  then show ?thesis by blast
qed

text \<open>The identity of an engine never changes.\<close>

definition same_engine :: "Sender \<Rightarrow> Sender \<Rightarrow> bool" where
  "same_engine s s' \<longleftrightarrow> s_session_id s' = s_session_id s \<and> s_destinations s' = s_destinations s
     \<and> s_config s' = s_config s"

lemma pass_same_engine:
  assumes "run_state (sender_pass m packet s) w = ((flow, m', packet', s'), w')"
  shows "same_engine s s'"
proof (cases "try_acquire m (s_ingress s)")
  case (Pair r ingress)
  show ?thesis
  proof (cases r)
    case (Inl err)
    then show ?thesis using assms Pair
      by (auto simp: sender_pass_def same_engine_def Let_def split: if_splits)
  next
    case (Inr v)
    then show ?thesis using assms Pair
      by (auto simp: sender_pass_def same_engine_def advance_sequence_def sender_request_stop_def Let_def
          split: prod.splits sum.splits if_splits)
  qed
qed

lemma step_same_engine: "same_engine (sw_sender w) (sw_sender (sender_step w a))"
proof (cases a)
  case Sender_pass
  obtain f m p s v where "run_state (sender_pass (sw_memory w) (sw_packet w) (sw_sender w)) (sw_os w)
      = ((f, m, p, s), v)" by (metis prod.exhaust)
  with pass_same_engine [OF this] show ?thesis
    by (auto simp: Sender_pass same_engine_def)
qed (auto simp: same_engine_def sender_request_stop_def split: prod.splits)

lemma run_same_engine: "same_engine (sw_sender w) (sw_sender (sender_run w actions))"
proof (induction actions arbitrary: w)
  case (Cons a actions)
  from Cons [of "sender_step w a"] step_same_engine [of w a]
  show ?case by (simp add: sender_run_def same_engine_def del: sender_step.simps)
qed (simp add: sender_run_def same_engine_def)

text \<open>The state that a run of a fresh sender leads to.\<close>

lemma fresh_sender_run:
  assumes "addressable m0" and "initialize_ring addr m0 ring_config instance_id = (Inr app, m)"
    and "attach_ring addr' m = Inr ingress"
    and "s = make_sender config seg ingress udp ds sid" and "sid \<noteq> 0"
    and "\<not> bad_sender_config config" and "sent_datagrams w = []"
    and "\<forall>e. App_publish e \<in> set actions \<longrightarrow> addressable (payload e)"
    and "r = sender_run (start_sender s m app w) actions"
  shows "\<exists>queued. sw_published r = sw_handled r @ queued \<and> length queued \<le> unat (cfg_slot_count ring_config)"
    and "sent_datagrams (sw_os r) = transmission sid (max_datagram_bytes config) ds (sw_handled r)"
    and "length (filter (sendable (max_datagram_bytes config)) (sw_handled r)) < 2 ^ 64"
    and "balanced (s_stats (sw_sender r)) (length (sw_handled r))
      (length (filter (sendable (max_datagram_bytes config)) (sw_handled r))) (length ds) (send_outcomes (sw_os r))"
proof -
  obtain st cap where "sender_inv (unat (cfg_slot_count ring_config)) st cap (start_sender s m app w)"
    using start_sender_inv [OF assms(1-7)] by blast
  note i = sender_inv_run [OF this assms(8), folded assms(9), unfolded sender_inv_def Let_def]
  have e: "s_session_id (sw_sender r) = sid" "s_destinations (sw_sender r) = ds" "s_config (sw_sender r) = config"
    using run_same_engine [of "start_sender s m app w" actions]
    by (simp_all add: assms(4,9) start_sender_def same_engine_def make_sender_def)
  show "\<exists>queued. sw_published r = sw_handled r @ queued \<and> length queued \<le> unat (cfg_slot_count ring_config)"
    using i sys_bounded [of _ st cap "sender_system (sw_memory r) (sw_app r) (sw_sender r)"] by blast
  show "sent_datagrams (sw_os r) = transmission sid (max_datagram_bytes config) ds (sw_handled r)"
    "length (filter (sendable (max_datagram_bytes config)) (sw_handled r)) < 2 ^ 64"
    "balanced (s_stats (sw_sender r)) (length (sw_handled r))
      (length (filter (sendable (max_datagram_bytes config)) (sw_handled r))) (length ds) (send_outcomes (sw_os r))"
    using i by (simp_all add: e)
qed

lemma length_transmission:
  "length (transmission sid limit ds es) = length (filter (sendable limit) es) * length ds"
proof -
  have "length (concat (map (\<lambda>(j, e). datagrams_for sid (word_of_nat j) ds e) xs)) = length xs * length ds"
    for xs by (induction xs) (auto simp: datagrams_for_def)
  then show ?thesis by (simp add: transmission_def)
qed

text \<open>
  C15. What the sender puts on the wire: whatever the interleaving and whatever the system answers,
  the datagrams handed to \<open>sendto\<close> are exactly the version 1 encodings of the events it took from
  the ring, those being a prefix of the published ones in order; they carry the session id and the
  packet sequences 1, 2, 3 and so on without a gap, each goes to every destination in the
  configured order, and an event that cannot be encoded uses up no sequence.
\<close>

theorem sender_transmits_published_events:
  assumes "addressable m0" and "initialize_ring addr m0 ring_config instance_id = (Inr app, m)"
    and "attach_ring addr' m = Inr ingress"
    and "s = make_sender config seg ingress udp ds sid" and "sid \<noteq> 0"
    and "\<not> bad_sender_config config" and "sent_datagrams w = []"
    and "\<forall>e. App_publish e \<in> set actions \<longrightarrow> addressable (payload e)"
    and "r = sender_run (start_sender s m app w) actions"
  shows "(\<exists>queued. sw_published r = sw_handled r @ queued \<and> length queued \<le> unat (cfg_slot_count ring_config))
    \<and> sent_datagrams (sw_os r) = transmission sid (max_datagram_bytes config) ds (sw_handled r)"
  using fresh_sender_run(1,2) [OF assms] by blast

text \<open>
  C30. The counters say what became of every event and of every send. With \<open>h\<close> events taken from the
  ring, \<open>k\<close> of them encoded, \<open>d\<close> destinations, and \<open>outs\<close> the outcomes of all sends in order, of which
  there are \<open>k * d\<close>: packets_sent is the number of sends that succeeded and send_errors the number of
  those that failed; events_out is the number of encoded events of which at least one send succeeded,
  the outcomes being taken \<open>d\<close> by \<open>d\<close>, and events_dropped the number of all others; events_in is \<open>h\<close>
  and encode_errors is \<open>h - k\<close>. All of this is modulo 2^64 as the counters are, on every path of the loop
  and for every outcome of every send.
\<close>

theorem sender_counters_balance:
  assumes "addressable m0" and "initialize_ring addr m0 ring_config instance_id = (Inr app, m)"
    and "attach_ring addr' m = Inr ingress"
    and "s = make_sender config seg ingress udp ds sid" and "sid \<noteq> 0"
    and "\<not> bad_sender_config config" and "sent_datagrams w = []"
    and "\<forall>e. App_publish e \<in> set actions \<longrightarrow> addressable (payload e)"
    and "r = sender_run (start_sender s m app w) actions" and "stats = sender_stats (sw_sender r)"
    and "h = length (sw_handled r)"
    and "k = length (filter (sendable (max_datagram_bytes config)) (sw_handled r))"
    and "outs = send_outcomes (sw_os r)"
  shows "events_in stats = of_nat h \<and> events_out stats + events_dropped stats = of_nat h
    \<and> encode_errors stats + of_nat k = of_nat h
    \<and> packets_sent stats + send_errors stats = of_nat (k * length ds)
    \<and> length (sent_datagrams (sw_os r)) = k * length ds \<and> length outs = k * length ds
    \<and> packets_sent stats = of_nat (count_list outs True)
    \<and> send_errors stats = of_nat (count_list outs False)
    \<and> events_out stats = of_nat (length (filter (\<lambda>g. True \<in> set g) (groups (length ds) k outs)))"
proof -
  note b = fresh_sender_run(4) [OF assms(1-9)]
  have "packets_sent stats + send_errors stats = of_nat (k * length ds)"
    using balanced_sums [OF b] by (simp add: assms(10,12))
  moreover have "length (sent_datagrams (sw_os r)) = k * length ds"
    using fresh_sender_run(2) [OF assms(1-9)] by (simp add: assms(12) length_transmission)
  moreover note b [unfolded balanced_def reached_def, folded assms(11-13)]
  ultimately show ?thesis unfolding assms(10) sender_stats_def by (elim conjE) (intro conjI; assumption)
qed

text \<open>
  C29. A closed ring is drained and the loop ends: when the application has closed the ring, one pass
  per queued event and one more end \<open>run()\<close>, and by then every published event was handled, unless
  the session runs out of packet sequences first. No pass is lost in between.
\<close>

theorem sender_ends_after_draining:
  assumes "sender_inv n st cap w" and "sw_running w" and "\<not> s_stop_requested (sw_sender w)"
    and "pre_state (sw_memory w) = ring_state_value RingState.Closed"
    and "unat (s_packet_sequence (sw_sender w)) + n < 2 ^ 64"
    and "k = length (sw_published w) - length (sw_handled w)"
    and "w' = sender_run w (replicate (k + 1) Sender_pass)"
  shows "\<not> sw_running w' \<and> sw_handled w' = sw_published w \<and> k \<le> n"
proof -
  let ?sys = "sender_system (sw_memory w) (sw_app w) (sw_sender w)"
  have i: "system_ok n st cap ?sys" "sw_published w = sw_handled w @ sys_items ?sys"
    using assms(1) by (simp_all add: sender_inv_def Let_def)
  then have k: "k = length (sys_items ?sys)" using assms(6) by simp
  have le: "k \<le> n" using sys_bounded [OF i(1)] k by simp
  then show ?thesis
    using sender_drains [OF assms(1-3) _ refl, of w'] assms(4,5,7) k by simp
qed

section \<open>A concrete sender\<close>

definition demo_tx_config :: SenderConfig where
  "demo_tx_config = \<lparr>ingress_shm_name = ''/lle'', receivers = [\<lparr>address = ''10.0.0.1'', port = 9000\<rparr>],
     max_datagram_bytes = 60, retransmit_window_packets = 0, tx_delivery_mode = BestEffort, tx_cpu = -1,
     busy_spin_ingress = True\<rparr>"

definition demo_destination :: UdpAddress where
  "demo_destination = \<lparr>native = \<lparr>sin_family = 2, sin_port = 10275, sin_addr = 16777226\<rparr>\<rparr>"

text \<open>A system whose \<open>sendto\<close> takes 48 bytes, the size of a packet with three payload bytes.\<close>

definition demo_os :: os where
  "demo_os = \<lparr>replies = \<lambda>_. \<lparr>ret = 48, errno = 0, answer = 0, contents = [],
     peer = \<lparr>sin_family = 2, sin_port = 0, sin_addr = 0\<rparr>\<rparr>, trace = []\<rparr>"

definition demo_sender :: Sender where
  "demo_sender = make_sender demo_tx_config empty_segment (make_ring demo_segment False) \<lparr>tx_fd = 3\<rparr>
     [demo_destination] 9"

definition demo_start :: sender_world where
  "demo_start = start_sender demo_sender demo_segment (make_ring demo_segment True) demo_os"

definition demo_actions :: "sender_action list" where
  "demo_actions = [App_publish (demo_event 1), Sender_pass, App_publish (demo_event 2), App_close]"

lemma demo_config_ok: "\<not> bad_sender_config demo_tx_config"
  by code_simp

lemma demo_attached: "addressable (replicate 320 255)"
  "attach_ring 4096 demo_segment = Inr (make_ring demo_segment False)"
  using attach_initialized(3) [OF _ demo_initialized] by (simp_all add: addressable_def)

lemma demo_sent_nothing: "sent_datagrams demo_os = []"
  by (simp add: demo_os_def sent_datagrams_def)

text \<open>The state that the actions lead to, evaluated once.\<close>

definition summary :: "sender_world
    \<Rightarrow> event list \<times> event list \<times> bool \<times> bool \<times> u32 \<times> u64" where
  "summary w = (sw_handled w, sw_published w, sw_running w, s_stop_requested (sw_sender w),
     pre_state (sw_memory w), s_packet_sequence (sw_sender w))"

lemma demo_summary: "summary (sender_run demo_start demo_actions) =
    ([demo_event 1], [demo_event 1, demo_event 2], True, False, 3, 2)"
  by code_simp

lemma demo_facts:
  "sw_handled (sender_run demo_start demo_actions) = [demo_event 1]"
  "sw_published (sender_run demo_start demo_actions) = [demo_event 1, demo_event 2]"
  "sw_running (sender_run demo_start demo_actions)"
  "\<not> s_stop_requested (sw_sender (sender_run demo_start demo_actions))"
  "pre_state (sw_memory (sender_run demo_start demo_actions)) = 3"
  "s_packet_sequence (sw_sender (sender_run demo_start demo_actions)) = 2"
  using demo_summary by (simp_all only: summary_def prod.inject simp_thms)

lemma demo_actions_ok: "\<forall>e. App_publish e \<in> set demo_actions \<longrightarrow> addressable (payload e)"
  using demo_small(1) by (auto simp: demo_actions_def)

lemma demo_limit: "max_datagram_bytes demo_tx_config = 60"
  by (simp add: demo_tx_config_def)

lemma demo_sendable: "sendable 60 (demo_event 1)"
  by code_simp

theorem sender_transmits_published_events_witness:
  "sent_datagrams (sw_os (sender_run demo_start demo_actions)) =
     [(packet_of 9 1 (demo_event 1), native demo_destination)]"
proof -
  have "(9 :: u32) \<noteq> 0" by simp
  note t = sender_transmits_published_events [OF demo_attached(1) demo_initialized demo_attached(2) refl this
      demo_config_ok demo_sent_nothing demo_actions_ok refl, where seg = empty_segment
      and udp = "\<lparr>tx_fd = 3\<rparr>" and ds = "[demo_destination]", folded demo_sender_def demo_start_def]
  show ?thesis
    using conjunct2 [OF t] demo_sendable by (simp add: demo_facts demo_limit transmission_def datagrams_for_def)
qed

text \<open>
  Two destinations and a system that takes the first datagram, fails the second send, takes only a
  part of the third datagram and fails the fourth send.
\<close>

definition failing_os :: os where
  "failing_os = demo_os\<lparr>replies := \<lambda>i. (replies demo_os i)\<lparr>ret := if i = 0 then 48 else if i = 2 then 20 else -1\<rparr>\<rparr>"

definition failing_run :: sender_world where
  "failing_run = sender_run (start_sender (make_sender demo_tx_config empty_segment (make_ring demo_segment False)
       \<lparr>tx_fd = 3\<rparr> [demo_destination, demo_destination] 9) demo_segment (make_ring demo_segment True) failing_os)
     [App_publish (demo_event 1), Sender_pass, App_publish (demo_event 2), Sender_pass]"

definition outcome_summary :: "sender_world \<Rightarrow> event list \<times> bool list" where
  "outcome_summary w = (sw_handled w, send_outcomes (sw_os w))"

lemma failing_run_end: "outcome_summary failing_run = ([demo_event 1, demo_event 2], [True, False, False, False])"
  by code_simp

theorem sender_counters_balance_witness:
  "case s_stats (sw_sender failing_run) of stats \<Rightarrow>
     events_in stats = 2 \<and> events_out stats = 1 \<and> events_dropped stats = 1 \<and> encode_errors stats = 0
     \<and> packets_sent stats = 1 \<and> send_errors stats = 3"
proof -
  have sid: "(9 :: u32) \<noteq> 0" by simp
  have f: "sw_handled failing_run = [demo_event 1, demo_event 2]"
    "send_outcomes (sw_os failing_run) = [True, False, False, False]"
    using failing_run_end by (simp_all only: outcome_summary_def prod.inject)
  have none: "sent_datagrams failing_os = []" by (simp add: failing_os_def demo_os_def sent_datagrams_def)
  have s: "sendable 60 (demo_event 1)" "sendable 60 (demo_event 2)" by code_simp+
  have a: "\<forall>e. App_publish e \<in> set [App_publish (demo_event 1), Sender_pass, App_publish (demo_event 2), Sender_pass]
      \<longrightarrow> addressable (payload e)"
    using demo_small(1) by auto
  note t = sender_counters_balance [OF demo_attached(1) demo_initialized demo_attached(2) refl sid
      demo_config_ok none a refl refl refl refl refl, where seg = empty_segment
      and udp = "\<lparr>tx_fd = 3\<rparr>" and ds = "[demo_destination, demo_destination]", folded failing_run_def]
  have rest: "a = 1" if "b + a = 2" "b = 1" for a b :: u64
    using that by (metis add_left_cancel one_add_one)
  show ?thesis
    using t by (simp add: f s demo_limit del: One_nat_def) (auto intro: rest)
qed

theorem sender_ends_after_draining_witness:
  "case sender_run demo_start demo_actions of w \<Rightarrow> case sender_run w (replicate 2 Sender_pass) of w' \<Rightarrow>
     \<not> sw_running w' \<and> sw_handled w' = [demo_event 1, demo_event 2]"
proof -
  let ?w = "sender_run demo_start demo_actions"
  have "(9 :: u32) \<noteq> 0" by simp
  note t = start_sender_inv [OF demo_attached(1) demo_initialized demo_attached(2) refl this demo_config_ok
      demo_sent_nothing, where seg = empty_segment and udp = "\<lparr>tx_fd = 3\<rparr>" and ds = "[demo_destination]",
      folded demo_sender_def demo_start_def]
  then obtain st cap where "sender_inv 2 st cap demo_start" by (auto simp: demo_config_def)
  then have i: "sender_inv 2 st cap ?w" using demo_actions_ok by (rule sender_inv_run)
  have two: "length [demo_event 1, demo_event 2] - length [demo_event 1] + 1 = 2" by simp
  have "pre_state (sw_memory ?w) = ring_state_value RingState.Closed"
    "unat (s_packet_sequence (sw_sender ?w)) + 2 < 2 ^ 64" by (simp_all add: demo_facts)
  from sender_ends_after_draining [OF i demo_facts(3,4) this refl refl, unfolded demo_facts(1,2) two]
  show ?thesis by blast
qed

end
