(* ===== verification/Ring_Steps.thy ===== *)
theory Ring_Steps
  imports Ring_Queue
begin

text \<open>
  The producer and the consumer of a ring as two threads. Ring_System runs \<open>try_publish\<close>,
  \<open>try_acquire\<close> and \<open>release\<close> as one step each; here each of them is a program with one step per
  load or store of shared memory (include/shm/spsc_ring.hpp), and a run interleaves the steps of
  the two threads in any way.

  A thread reads the cursor that it owns exactly. An acquire load of the other thread's cursor may
  be stale: it returns any value between the one this thread saw last and the one that is stored
  now, and the consumer may still see the state Ready after the ring was closed. A consumer that saw
  Closed sees every store before it, the final write cursor among them. The bytes of the slots are
  read as they are: Ring_Concurrency shows that no slot is accessed by both threads at once.
\<close>

section \<open>Programs\<close>

text \<open>
  The position of the producer in \<open>try_publish\<close>: before the load of the state word, before the
  load of its own cursor, before the reload of the read cursor, before the store of the slot
  header, in the copy of the payload after so many bytes, and before the return.
\<close>

datatype producer_pc =
    Idle_producer
  | Load_state event
  | Load_position event
  | Load_read_cursor event u64
  | Store_header event u64
  | Copy_payload event u64 nat
  | Return_publish event PublishResult

text \<open>
  The position of the consumer in \<open>try_acquire\<close>: before the test for a held event, before the
  load of the state word, before the load of the write cursor with the state that was read,
  before the slot is read, and before the return.
\<close>

datatype consumer_pc =
    Idle_consumer
  | Check_acquired
  | Load_closure u64
  | Load_write_cursor u64 u32
  | Read_header u64
  | Return_acquire "AcquireError + slot_view"

text \<open>\<open>thr_view\<close> is the event the consumer was given and has not released.\<close>

record ring_threads =
  thr_memory :: "byte list"
  thr_producer :: SpscRing
  thr_consumer :: SpscRing
  thr_publishing :: producer_pc
  thr_acquiring :: consumer_pc
  thr_view :: "slot_view option"

text \<open>What a step does to the queue of events.\<close>

datatype effect = Enqueued event | Dequeued event | Closing | Silent

section \<open>Steps of the producer\<close>

text \<open>The branches after the reload of the read cursor.\<close>

definition after_reload :: "SpscRing \<Rightarrow> event \<Rightarrow> u64 \<Rightarrow> producer_pc" where
  "after_reload r event write_pos =
    (if cached_read_position r > write_pos
        \<or> write_pos - cached_read_position r > ucast (r_slot_count r)
       then Return_publish event PublishResult.Closed
     else if write_pos - cached_read_position r = ucast (r_slot_count r) then Return_publish event Full
     else Store_header event write_pos)"

definition after_state :: "SpscRing \<Rightarrow> event \<Rightarrow> u32 \<Rightarrow> producer_pc" where
  "after_state r event state =
    (if state \<noteq> ring_state_value Ready then Return_publish event PublishResult.Closed
     else if span_size (payload event) > ucast (r_slot_payload_capacity r)
       then Return_publish event PublishResult.PayloadTooLarge
     else Load_position event)"

definition after_position :: "SpscRing \<Rightarrow> event \<Rightarrow> u64 \<Rightarrow> producer_pc" where
  "after_position r event write_pos =
    (if write_pos = u64_max then Return_publish event PublishResult.Closed
     else if write_pos - cached_read_position r \<ge> ucast (r_slot_count r)
       then Load_read_cursor event write_pos
     else Store_header event write_pos)"

text \<open>The byte of the payload that is copied next, and where it goes.\<close>

definition copy_byte :: "byte list \<Rightarrow> SpscRing \<Rightarrow> u64 \<Rightarrow> event \<Rightarrow> nat \<Rightarrow> byte list" where
  "copy_byte m r write_pos event k =
     m[slot_of r write_pos + unat ring_slot_metadata_bytes + k := payload event ! k]"

inductive producer_step :: "ring_threads \<Rightarrow> effect \<Rightarrow> ring_threads \<Rightarrow> bool" where
  call_publish: "thr_publishing w = Idle_producer \<Longrightarrow> addressable (payload event) \<Longrightarrow>
    producer_step w Silent (w\<lparr>thr_publishing :=
      (if has_header (thr_producer w) then Load_state event
       else Return_publish event PublishResult.Closed)\<rparr>)"
| load_state: "thr_publishing w = Load_state event \<Longrightarrow>
    producer_step w Silent
      (w\<lparr>thr_publishing := after_state (thr_producer w) event (pre_state (thr_memory w))\<rparr>)"
| load_position: "thr_publishing w = Load_position event \<Longrightarrow>
    producer_step w Silent
      (w\<lparr>thr_publishing := after_position (thr_producer w) event (producer_position (thr_memory w))\<rparr>)"
| load_read_cursor: "thr_publishing w = Load_read_cursor event write_pos \<Longrightarrow>
    cached_read_position (thr_producer w) \<le> seen \<Longrightarrow> seen \<le> consumer_position (thr_memory w) \<Longrightarrow>
    r = (thr_producer w)\<lparr>cached_read_position := seen\<rparr> \<Longrightarrow>
    producer_step w Silent
      (w\<lparr>thr_producer := r, thr_publishing := after_reload r event write_pos\<rparr>)"
| store_header: "thr_publishing w = Store_header event write_pos \<Longrightarrow>
    producer_step w Silent
      (w\<lparr>thr_memory := fill_slot_header (thr_memory w) (slot_of (thr_producer w) write_pos) event,
         thr_publishing := Copy_payload event write_pos 0\<rparr>)"
| copy_payload: "thr_publishing w = Copy_payload event write_pos k \<Longrightarrow> k < length (payload event) \<Longrightarrow>
    producer_step w Silent
      (w\<lparr>thr_memory := copy_byte (thr_memory w) (thr_producer w) write_pos event k,
         thr_publishing := Copy_payload event write_pos (Suc k)\<rparr>)"
| store_position: "thr_publishing w = Copy_payload event write_pos k \<Longrightarrow> k = length (payload event) \<Longrightarrow>
    producer_step w (Enqueued event)
      (w\<lparr>thr_memory := write_u64 (thr_memory w) 64 (write_pos + 1),
         thr_publishing := Return_publish event Ok\<rparr>)"
| return_publish: "thr_publishing w = Return_publish event r \<Longrightarrow>
    producer_step w Silent (w\<lparr>thr_publishing := Idle_producer\<rparr>)"

text \<open>The owner closes the ring when the producer has stopped, in between two calls.\<close>

inductive owner_step :: "ring_threads \<Rightarrow> effect \<Rightarrow> ring_threads \<Rightarrow> bool" where
  close: "thr_publishing w = Idle_producer \<Longrightarrow>
    close_publication (thr_memory w) owner = (True, m) \<Longrightarrow>
    owner_step w Closing (w\<lparr>thr_memory := m\<rparr>)"

section \<open>Steps of the consumer\<close>

definition after_write_cursor :: "SpscRing \<Rightarrow> u64 \<Rightarrow> u32 \<Rightarrow> consumer_pc" where
  "after_write_cursor r read_pos state =
    (if read_pos = cached_write_position r
       then Return_acquire (Inl (if state = ring_state_value RingState.Closed then Closed else Empty))
     else Read_header read_pos)"

definition after_check :: "byte list \<Rightarrow> SpscRing \<Rightarrow> consumer_pc" where
  "after_check m r =
    (if acquired r then Return_acquire (Inl AlreadyAcquired)
     else if consumer_position m \<ge> cached_write_position r then Load_closure (consumer_position m)
     else Read_header (consumer_position m))"

inductive consumer_step :: "ring_threads \<Rightarrow> effect \<Rightarrow> ring_threads \<Rightarrow> bool" where
  call_acquire: "thr_acquiring w = Idle_consumer \<Longrightarrow>
    consumer_step w Silent (w\<lparr>thr_acquiring :=
      (if has_header (thr_consumer w) then Check_acquired else Return_acquire (Inl Closed))\<rparr>)"
| check_acquired: "thr_acquiring w = Check_acquired \<Longrightarrow>
    consumer_step w Silent (w\<lparr>thr_acquiring := after_check (thr_memory w) (thr_consumer w)\<rparr>)"
| load_closure: "thr_acquiring w = Load_closure read_pos \<Longrightarrow>
    state = pre_state (thr_memory w) \<or> state = ring_state_value Ready \<Longrightarrow>
    consumer_step w Silent (w\<lparr>thr_acquiring := Load_write_cursor read_pos state\<rparr>)"
| load_write_cursor: "thr_acquiring w = Load_write_cursor read_pos state \<Longrightarrow>
    cached_write_position (thr_consumer w) \<le> seen \<Longrightarrow> seen \<le> producer_position (thr_memory w) \<Longrightarrow>
    state = ring_state_value RingState.Closed \<longrightarrow> seen = producer_position (thr_memory w) \<Longrightarrow>
    r = (thr_consumer w)\<lparr>cached_write_position := seen\<rparr> \<Longrightarrow>
    consumer_step w Silent
      (w\<lparr>thr_consumer := r, thr_acquiring := after_write_cursor r read_pos state\<rparr>)"
| read_header: "thr_acquiring w = Read_header read_pos \<Longrightarrow>
    read_slot (thr_memory w) (thr_consumer w) read_pos = (answer, r) \<Longrightarrow>
    consumer_step w Silent (w\<lparr>thr_consumer := r, thr_acquiring := Return_acquire answer\<rparr>)"
| return_acquire: "thr_acquiring w = Return_acquire answer \<Longrightarrow>
    consumer_step w Silent (w\<lparr>thr_acquiring := Idle_consumer,
      thr_view := (case answer of Inr v \<Rightarrow> Some v | Inl _ \<Rightarrow> thr_view w)\<rparr>)"
| call_release: "thr_acquiring w = Idle_consumer \<Longrightarrow> thr_view w = Some v \<Longrightarrow>
    release (thr_memory w) (thr_consumer w) = (True, m, r) \<Longrightarrow>
    consumer_step w (Dequeued (deref (thr_memory w) v))
      (w\<lparr>thr_memory := m, thr_consumer := r, thr_view := None\<rparr>)"

section \<open>Runs\<close>

inductive ring_step :: "ring_threads \<Rightarrow> effect \<Rightarrow> ring_threads \<Rightarrow> bool" where
  by_producer: "producer_step w l w' \<Longrightarrow> ring_step w l w'"
| by_owner: "owner_step w l w' \<Longrightarrow> ring_step w l w'"
| by_consumer: "consumer_step w l w' \<Longrightarrow> ring_step w l w'"

inductive ring_trace :: "ring_threads \<Rightarrow> effect list \<Rightarrow> ring_threads \<Rightarrow> bool" where
  no_step: "ring_trace w [] w"
| one_more: "ring_trace w ls w' \<Longrightarrow> ring_step w' l w'' \<Longrightarrow> ring_trace w (ls @ [l]) w''"

inductive_cases no_trace [elim!]: "ring_trace w [] w'"

definition enqueued :: "effect list \<Rightarrow> event list" where
  "enqueued ls = concat (map (\<lambda>l. case l of Enqueued e \<Rightarrow> [e] | _ \<Rightarrow> []) ls)"

definition dequeued :: "effect list \<Rightarrow> event list" where
  "dequeued ls = concat (map (\<lambda>l. case l of Dequeued e \<Rightarrow> [e] | _ \<Rightarrow> []) ls)"

lemma effect_lists [simp]:
  "enqueued [] = []" "dequeued [] = []"
  "enqueued (ls @ [l]) = enqueued ls @ (case l of Enqueued e \<Rightarrow> [e] | _ \<Rightarrow> [])"
  "dequeued (ls @ [l]) = dequeued ls @ (case l of Dequeued e \<Rightarrow> [e] | _ \<Rightarrow> [])"
  by (simp_all add: enqueued_def dequeued_def)

lemma effect_lists_Cons [simp]:
  "enqueued (l # ls) = (case l of Enqueued e \<Rightarrow> [e] | _ \<Rightarrow> []) @ enqueued ls"
  "dequeued (l # ls) = (case l of Dequeued e \<Rightarrow> [e] | _ \<Rightarrow> []) @ dequeued ls"
  by (simp_all add: enqueued_def dequeued_def)

text \<open>Two handles on a ring that no thread uses yet.\<close>

definition start_threads :: "byte list \<Rightarrow> SpscRing \<Rightarrow> SpscRing \<Rightarrow> ring_threads" where
  "start_threads m p c = \<lparr>thr_memory = m, thr_producer = p, thr_consumer = c,
     thr_publishing = Idle_producer, thr_acquiring = Idle_consumer, thr_view = None\<rparr>"

section \<open>The abstract queue\<close>

text \<open>
  What the ring promises: a queue of at most \<open>n\<close> events that is appended to while it is open, whose
  first event is removed, and that is closed for good.
\<close>

record queue_spec =
  contents :: "event list"
  closed :: bool

inductive queue_step :: "nat \<Rightarrow> queue_spec \<Rightarrow> effect \<Rightarrow> queue_spec \<Rightarrow> bool" for n where
  enqueue: "length (contents q) < n \<Longrightarrow> \<not> closed q \<Longrightarrow>
    queue_step n q (Enqueued e) (q\<lparr>contents := contents q @ [e]\<rparr>)"
| dequeue: "contents q = e # rest \<Longrightarrow> queue_step n q (Dequeued e) (q\<lparr>contents := rest\<rparr>)"
| closing: "queue_step n q Closing (q\<lparr>closed := True\<rparr>)"
| silent: "queue_step n q Silent q"

definition queue_of :: "nat \<Rightarrow> nat \<Rightarrow> ring_threads \<Rightarrow> queue_spec" where
  "queue_of n st w = \<lparr>contents = ring_items n st (thr_memory w),
     closed = (pre_state (thr_memory w) \<noteq> ring_state_value Ready)\<rparr>"

end
