(* ===== verification/Ring_Concurrency.thy ===== *)
theory Ring_Concurrency
  imports Ring_Steps Ring_System
begin

text \<open>
  The ring under every interleaving of its two threads (Ring_Steps): an invariant of the reachable
  states, the simulation of the abstract queue by the steps of the code, and the properties that
  make the ring usable without locks: the two threads never access a slot at the same time, a call
  is never held up by the other thread, and the answers of the calls are right.
\<close>

section \<open>Writes that the consumer does not see\<close>

text \<open>Slots after a write to the first bytes of the segment.\<close>

lemma same_slots:
  assumes "geometry n st cap m" and "slot_valid cap m (slot_at n st i)" and "length m' = length m"
    and same: "\<And>j. 192 \<le> j \<Longrightarrow> j < length m \<Longrightarrow> m' ! j = m ! j"
  shows "slot_event m' (slot_at n st i) = slot_event m (slot_at n st i)"
    and "slot_valid cap m' (slot_at n st i)"
    and "view_of m' (slot_at n st i) = view_of m (slot_at n st i)"
proof -
  have eq: "m' ! j = m ! j" if "slot_at n st i \<le> j" "j < slot_at n st i + st" for j
    using that slot_at_ge [of n st i] slot_in_segment [OF assms(1), of i] by (intro same) auto
  have st: "32 \<le> st" using geometryD(3) [OF assms(1)] by simp
  show "slot_event m' (slot_at n st i) = slot_event m (slot_at n st i)"
    using assms(2,3) geometryD(3) [OF assms(1)] slot_in_segment [OF assms(1), of i]
    by (intro slot_event_cong [OF eq]) (auto simp: slot_valid_def)
  show "slot_valid cap m' (slot_at n st i)" using assms(2) slot_valid_cong [OF eq st] by simp
  show "view_of m' (slot_at n st i) = view_of m (slot_at n st i)"
    using slot_fields_cong [OF eq st] by (simp add: view_of_def)
qed

text \<open>A write into the slot that is published next, which keeps the slot well formed.\<close>

definition private_write :: "nat \<Rightarrow> nat \<Rightarrow> nat \<Rightarrow> byte list \<Rightarrow> byte list \<Rightarrow> bool" where
  "private_write n st cap m m' \<longleftrightarrow> length m' = length m
     \<and> (\<forall>j < length m. j < next_slot n st m \<or> next_slot n st m + st \<le> j \<longrightarrow> m' ! j = m ! j)
     \<and> slot_valid cap m' (next_slot n st m)"

lemma private_header:
  assumes "publishable n st cap m p e" and "private_write n st cap m m'"
  shows "producer_position m' = producer_position m" "consumer_position m' = consumer_position m"
    and "pre_state m' = pre_state m" "next_slot n st m' = next_slot n st m"
proof -
  have "m' ! j = m ! j" if "j < 192" for j
    using that assms(2) publishableD(4,5) [OF assms(1)] by (simp add: private_write_def)
  then show "producer_position m' = producer_position m" "consumer_position m' = consumer_position m"
    "pre_state m' = pre_state m"
    by (auto intro!: cursor_and_state_cong)
  then show "next_slot n st m' = next_slot n st m" by (simp add: next_slot_def)
qed

lemma private_other_slot:
  assumes "publishable n st cap m p e" and "private_write n st cap m m'"
    and "i mod n \<noteq> unat (producer_position m) mod n"
  shows "slot_event m' (slot_at n st i) = slot_event m (slot_at n st i)"
    and "slot_valid cap m' (slot_at n st i)"
    and "view_of m' (slot_at n st i) = view_of m (slot_at n st i)"
proof -
  note d = publishableD [OF assms(1)]
  have same: "m' ! j = m ! j" if "slot_at n st i \<le> j" "j < slot_at n st i + st" for j
    using that assms(2) slots_apart [OF assms(3), of st] slot_in_segment [OF d(3), of i]
    by (auto simp: private_write_def next_slot_def)
  have v: "slot_valid cap m (slot_at n st i)" using d(1) by (simp add: ring_ok_def)
  show "slot_event m' (slot_at n st i) = slot_event m (slot_at n st i)"
    using v geometryD(3) [OF d(3)] slot_in_segment [OF d(3), of i] assms(2)
    by (intro slot_event_cong [OF same]) (auto simp: slot_valid_def private_write_def)
  show "slot_valid cap m' (slot_at n st i)" using v slot_valid_cong [OF same d(8)] by simp
  show "view_of m' (slot_at n st i) = view_of m (slot_at n st i)"
    using slot_fields_cong [OF same d(8)] by (simp add: view_of_def)
qed

lemma private_ring:
  assumes "publishable n st cap m p e" and "private_write n st cap m m'"
  shows "ring_ok n st cap m'" and "ring_items n st m' = ring_items n st m"
    and "publishable n st cap m' p e"
proof -
  note d = publishableD [OF assms(1)] and h = private_header [OF assms]
    and o = private_other_slot [OF assms]
  have "slot_valid cap m' (slot_at n st i)" for i
  proof (cases "i mod n = unat (producer_position m) mod n")
    case True
    then have "slot_at n st i = next_slot n st m" by (simp add: slot_at_def next_slot_def)
    then show ?thesis using assms(2) by (simp add: private_write_def)
  qed (rule o(2))
  then show ok: "ring_ok n st cap m'"
    using d(1) assms(2) by (simp add: ring_ok_def h geometry_def private_write_def)
  show "ring_items n st m' = ring_items n st m"
    unfolding ring_items_def h
    by (intro map_cong refl o(1) used_slot [OF assms(1)]) auto
  show "publishable n st cap m' p e"
    using assms(1) ok by (simp add: publishable_def h)
qed

section \<open>The header and the payload of a publication\<close>

definition header_stored :: "byte list \<Rightarrow> nat \<Rightarrow> event \<Rightarrow> bool" where
  "header_stored m s e \<longleftrightarrow> slot_event_sequence m s = sequence e
     \<and> slot_source_timestamp_ns m s = source_timestamp_ns e \<and> slot_stream_id m s = stream_id e
     \<and> slot_payload_length m s = ucast (span_size (payload e))"

lemma unat_stored_length:
  assumes "publishable n st cap m p e"
  shows "unat (ucast (span_size (payload e)) :: u32) = length (payload e)"
  using publishableD(7,9) [OF assms] by (simp add: span_size_def ucast_of_nat unat_of_nat)

lemma length_fill_slot_header [simp]: "length (fill_slot_header m s e) = length m"
  by (simp add: fill_slot_header_def Let_def)

lemma store_header_private:
  assumes pub: "publishable n st cap m p e" and s: "s = next_slot n st m"
    and m': "m' = fill_slot_header m s e"
  shows "private_write n st cap m m'" and "header_stored m' s e"
proof -
  note d = publishableD [OF pub]
  have in_segment: "192 \<le> s" "s + 32 \<le> length m" using d(5,6,8) by (auto simp: s)
  note w = m' fill_slot_header_def Let_def slot_defs write_bytes
  show h: "header_stored m' s e"
    using in_segment by (simp add: header_stored_def w mem_simps)
  have r: "slot_reserved0 m' s = slot_reserved0 m s" "slot_reserved1 m' s = slot_reserved1 m s"
    using in_segment by (simp_all add: w mem_simps)
  have "slot_valid cap m s" using d(1) by (simp add: s next_slot_def ring_ok_def)
  then have "slot_valid cap m' s"
    using h unat_stored_length [OF pub] pub
    by (simp add: slot_valid_def header_stored_def r publishable_def)
  moreover have "m' ! j = m ! j" if "j < length m" "j < s \<or> s + st \<le> j" for j
    using that(2) by (elim disjE) (use that(1) d(8) in \<open>simp_all add: w nth_store_outside\<close>)
  ultimately show "private_write n st cap m m'" by (simp add: private_write_def s m')
qed

text \<open>The state of the slot while its payload is copied.\<close>

definition copied :: "byte list \<Rightarrow> nat \<Rightarrow> event \<Rightarrow> nat \<Rightarrow> bool" where
  "copied m s e k \<longleftrightarrow> header_stored m s e \<and> k \<le> length (payload e)
     \<and> (\<forall>j < k. m ! (s + 32 + j) = payload e ! j)"

lemma copy_byte_private:
  assumes pub: "publishable n st cap m p e" and "copied m s e k" and "k < length (payload e)"
    and s: "s = next_slot n st m" and m': "m' = copy_byte m p (producer_position m) e k"
  shows "private_write n st cap m m'" and "copied m' s e (Suc k)"
proof -
  note d = publishableD [OF pub]
  have at: "m' = m[s + 32 + k := payload e ! k]" by (simp add: m' copy_byte_def d(10) s ring_constants)
  have in_segment: "s + 32 + k < s + st" "s + st \<le> length m" using d(6,7) assms(3) by (auto simp: s)
  have hdr: "m' ! j = m ! j" if "s \<le> j" "j < s + 32" for j using that by (simp add: at)
  note f = slot_fields_cong [of s 32 m' m, OF hdr]
  have v: "slot_valid cap m s" using d(1) by (simp add: s next_slot_def ring_ok_def)
  then have "slot_valid cap m' s" by (simp add: slot_valid_def f)
  then show "private_write n st cap m m'"
    using in_segment by (auto simp: private_write_def at simp flip: s)
  have "header_stored m' s e" using assms(2) by (simp add: copied_def header_stored_def f)
  moreover have "m' ! (s + 32 + j) = payload e ! j" if "j < Suc k" for j
    using that assms(2) in_segment by (cases "j = k") (auto simp: at copied_def)
  ultimately show "copied m' s e (Suc k)" using assms(3) by (simp add: copied_def)
qed

lemma copied_event:
  assumes pub: "publishable n st cap m p e" and "copied m (next_slot n st m) e (length (payload e))"
  shows "slot_event m (next_slot n st m) = e"
proof -
  note d = publishableD [OF pub]
  have "subspan m (next_slot n st m + 32) (length (payload e)) = payload e"
    using assms(2) d(6,7) by (intro nth_equalityI) (auto simp: copied_def mem_simps)
  then show ?thesis
    using assms(2) by (simp add: slot_event_def copied_def header_stored_def unat_stored_length [OF pub])
qed

text \<open>The store of the write cursor makes the slot the last of the queue.\<close>

lemma store_position_effect:
  assumes pub: "publishable n st cap m p e" and "slot_event m (next_slot n st m) = e"
    and m': "m' = write_u64 m 64 (producer_position m + 1)"
  shows "ring_ok n st cap m'" and "ring_items n st m' = ring_items n st m @ [e]"
    and "consumer_position m' = consumer_position m" and "pre_state m' = pre_state m"
    and "unat (producer_position m') = unat (producer_position m) + 1"
    and "view_of m' (slot_at n st i) = view_of m (slot_at n st i)"
proof -
  note d = publishableD [OF pub]
  have v: "slot_valid cap m (slot_at n st i)" for i using d(1) by (simp add: ring_ok_def)
  have same: "m' ! j = m ! j" if "72 \<le> j \<or> j < 64" "j < length m" for j
    using that by (auto simp: m' write_bytes nth_store_outside)
  note sl = same_slots [OF d(3) v, of m', OF _ same]
  have len: "length m' = length m" by (simp add: m')
  show c: "consumer_position m' = consumer_position m" "pre_state m' = pre_state m"
    using d(4) by (auto intro!: cursor_and_state_cong same)
  have "producer_position m' = producer_position m + 1"
    using d(4) by (simp add: m' cursor_defs mem_simps)
  then show p: "unat (producer_position m') = unat (producer_position m) + 1"
    using pub by (simp add: publishable_def unat_plus_1)
  show "ring_ok n st cap m'"
    using d(1,3) pub sl(2) len by (auto simp: ring_ok_def p c geometry_def publishable_def)
  show "view_of m' (slot_at n st i) = view_of m (slot_at n st i)" using sl(3) len by simp
  have "unat (consumer_position m) \<le> unat (producer_position m)" using d(1) by (simp add: ring_ok_def)
  then show "ring_items n st m' = ring_items n st m @ [e]"
    using sl(1) len assms(2) by (simp add: ring_items_def p c next_slot_def)
qed

section \<open>The invariant of the two threads\<close>

definition first_slot :: "nat \<Rightarrow> nat \<Rightarrow> byte list \<Rightarrow> nat" where
  "first_slot n st m = slot_at n st (unat (consumer_position m))"

text \<open>What the producer knows between its steps.\<close>

definition may_publish :: "nat \<Rightarrow> nat \<Rightarrow> nat \<Rightarrow> byte list \<Rightarrow> SpscRing \<Rightarrow> event \<Rightarrow> u64 \<Rightarrow> bool" where
  "may_publish n st cap m p e pos \<longleftrightarrow> publishable n st cap m p e \<and> pos = producer_position m
     \<and> unat pos < unat (cached_read_position p) + n \<and> pre_state m = ring_state_value Ready"

definition producer_knows :: "nat \<Rightarrow> nat \<Rightarrow> nat \<Rightarrow> byte list \<Rightarrow> SpscRing \<Rightarrow> producer_pc \<Rightarrow> bool" where
  "producer_knows n st cap m p pc = (case pc of
      Idle_producer \<Rightarrow> True
    | Load_state e \<Rightarrow> addressable (payload e)
    | Load_position e \<Rightarrow> pre_state m = ring_state_value Ready \<and> length (payload e) \<le> cap
    | Load_read_cursor e pos \<Rightarrow> pre_state m = ring_state_value Ready \<and> length (payload e) \<le> cap
        \<and> pos = producer_position m \<and> pos \<noteq> u64_max
    | Store_header e pos \<Rightarrow> may_publish n st cap m p e pos
    | Copy_payload e pos k \<Rightarrow> may_publish n st cap m p e pos \<and> copied m (next_slot n st m) e k
    | Return_publish e r \<Rightarrow>
        (r = Full \<longrightarrow> unat (producer_position m) = unat (cached_read_position p) + n)
        \<and> (r = PublishResult.Closed \<longrightarrow>
            pre_state m \<noteq> ring_state_value Ready \<or> producer_position m = u64_max))"

text \<open>What the consumer knows between its steps.\<close>

definition consumer_knows :: "nat \<Rightarrow> nat \<Rightarrow> byte list \<Rightarrow> SpscRing \<Rightarrow> consumer_pc \<Rightarrow> bool" where
  "consumer_knows n st m c pc = (case pc of
      Idle_consumer \<Rightarrow> True
    | Check_acquired \<Rightarrow> True
    | Load_closure pos \<Rightarrow> \<not> acquired c \<and> pos = consumer_position m
        \<and> cached_write_position c \<le> pos
    | Load_write_cursor pos state \<Rightarrow> \<not> acquired c \<and> pos = consumer_position m
        \<and> cached_write_position c \<le> pos
        \<and> (state = ring_state_value RingState.Closed \<longrightarrow> pre_state m = ring_state_value RingState.Closed)
    | Read_header pos \<Rightarrow> \<not> acquired c \<and> pos = consumer_position m \<and> pos < cached_write_position c
    | Return_acquire (Inr v) \<Rightarrow> acquired c \<and> v = view_of m (first_slot n st m)
    | Return_acquire (Inl err) \<Rightarrow> err \<noteq> InvalidSlot
        \<and> (err = Closed \<longrightarrow> ring_items n st m = [] \<and> pre_state m = ring_state_value RingState.Closed)
        \<and> (err = Empty \<longrightarrow> cached_write_position c = consumer_position m)
        \<and> (err = AlreadyAcquired \<longrightarrow> acquired c))"

text \<open>
  Handles that were made with the ring have followed it from the start: no position is more than
  one round ahead of the read cursor the producer saw, and the consumer is never ahead of the write
  cursor that it saw.
\<close>

definition cursors_follow :: "nat \<Rightarrow> byte list \<Rightarrow> SpscRing \<Rightarrow> SpscRing \<Rightarrow> bool" where
  "cursors_follow n m p c \<longleftrightarrow> unat (producer_position m) \<le> unat (cached_read_position p) + n
     \<and> consumer_position m \<le> cached_write_position c
     \<and> (acquired c \<longrightarrow> consumer_position m < cached_write_position c)"

definition threads_ok :: "nat \<Rightarrow> nat \<Rightarrow> nat \<Rightarrow> ring_threads \<Rightarrow> bool" where
  "threads_ok n st cap w \<longleftrightarrow> ring_ok n st cap (thr_memory w)
     \<and> producer_ok n st cap (thr_memory w) (thr_producer w)
     \<and> consumer_ok n st cap (thr_memory w) (thr_consumer w)
     \<and> cursors_follow n (thr_memory w) (thr_producer w) (thr_consumer w)
     \<and> producer_knows n st cap (thr_memory w) (thr_producer w) (thr_publishing w)
     \<and> consumer_knows n st (thr_memory w) (thr_consumer w) (thr_acquiring w)
     \<and> (\<forall>v. thr_view w = Some v \<longrightarrow>
          acquired (thr_consumer w) \<and> v = view_of (thr_memory w) (first_slot n st (thr_memory w)))"

lemmas knows_defs = producer_knows_def consumer_knows_def may_publish_def

text \<open>
  A step of the producer in memory leaves alone what the consumer knows: the consumer's cursor, the
  slot of a held event, the state word, and the end of the queue only grows.
\<close>

definition hidden_from_consumer :: "nat \<Rightarrow> nat \<Rightarrow> byte list \<Rightarrow> byte list \<Rightarrow> SpscRing \<Rightarrow> bool" where
  "hidden_from_consumer n st m m' c \<longleftrightarrow> consumer_position m' = consumer_position m
     \<and> unat (producer_position m) \<le> unat (producer_position m')
     \<and> (acquired c \<longrightarrow> view_of m' (first_slot n st m) = view_of m (first_slot n st m))
     \<and> (pre_state m = ring_state_value RingState.Closed \<longrightarrow>
          pre_state m' = pre_state m \<and> ring_items n st m' = ring_items n st m)"

lemma consumer_undisturbed:
  assumes "hidden_from_consumer n st m m' c"
  shows "consumer_ok n st cap m c \<Longrightarrow> consumer_ok n st cap m' c"
    and "consumer_knows n st m c pc \<Longrightarrow> consumer_knows n st m' c pc"
    and "acquired c \<Longrightarrow> v = view_of m (first_slot n st m) \<Longrightarrow> v = view_of m' (first_slot n st m')"
proof -
  have f: "first_slot n st m' = first_slot n st m"
    using assms by (simp add: first_slot_def hidden_from_consumer_def)
  show "consumer_ok n st cap m c \<Longrightarrow> consumer_ok n st cap m' c"
    using assms by (auto simp: consumer_ok_def hidden_from_consumer_def)
  show "consumer_knows n st m c pc \<Longrightarrow> consumer_knows n st m' c pc"
    using assms f by (auto simp: consumer_knows_def hidden_from_consumer_def
        split: consumer_pc.splits sum.splits)
  show "acquired c \<Longrightarrow> v = view_of m (first_slot n st m) \<Longrightarrow> v = view_of m' (first_slot n st m')"
    using assms f by (simp add: hidden_from_consumer_def)
qed

lemma threads_ok_producer:
  assumes "threads_ok n st cap w" and "hidden_from_consumer n st (thr_memory w) m (thr_consumer w)"
    and "ring_ok n st cap m" and "producer_ok n st cap m p" and "producer_knows n st cap m p pc"
    and "unat (producer_position m) \<le> unat (cached_read_position p) + n"
  shows "threads_ok n st cap (w\<lparr>thr_memory := m, thr_producer := p, thr_publishing := pc\<rparr>)"
  using assms consumer_undisturbed [OF assms(2)]
  by (auto simp: threads_ok_def cursors_follow_def) (simp_all add: hidden_from_consumer_def)

lemma hidden_same: "hidden_from_consumer n st m m c"
  by (simp add: hidden_from_consumer_def)

lemma held_is_used:
  assumes "ring_ok n st cap m" and "consumer_ok n st cap m c" and "acquired c"
    and "publishable n st cap m p e"
  shows "unat (consumer_position m) mod n \<noteq> unat (producer_position m) mod n"
  using assms by (intro used_slot [OF assms(4)]) (auto simp: consumer_ok_def)

lemma hidden_private:
  assumes "publishable n st cap m p e" and "private_write n st cap m m'"
    and "ring_ok n st cap m" and "consumer_ok n st cap m c"
  shows "hidden_from_consumer n st m m' c"
  using private_header [OF assms(1,2)] private_ring [OF assms(1,2)]
    private_other_slot(3) [OF assms(1,2) held_is_used [OF assms(3,4) _ assms(1)]]
  by (auto simp: hidden_from_consumer_def first_slot_def)

lemma producer_ok_same_cursor:
  "producer_ok n st cap m p \<Longrightarrow> consumer_position m' = consumer_position m \<Longrightarrow> producer_ok n st cap m' p"
  by (simp add: producer_ok_def)

section \<open>Every step keeps the invariant and is a step of the abstract queue\<close>

text \<open>The decisions of the producer, with the word arithmetic of the code read as numbers.\<close>

lemma after_reload_cases:
  assumes "handle_ok n st cap p" and "cached_read_position p \<le> pos"
    and "unat pos \<le> unat (cached_read_position p) + n"
  shows "after_reload p e pos = (if unat pos = unat (cached_read_position p) + n
    then Return_publish e Full else Store_header e pos)"
proof -
  have c: "unat (ucast (r_slot_count p) :: u64) = n"
    using assms(1) by (simp add: unat_ucast_u32 handle_ok_def)
  have s: "unat (pos - cached_read_position p) = unat pos - unat (cached_read_position p)"
    using assms(2) by (simp add: unat_sub)
  show ?thesis
    using assms(2,3) s c
    by (auto simp: after_reload_def word_less_nat_alt word_le_nat_alt word_unat_eq_iff)
qed

lemma after_position_cases:
  assumes "handle_ok n st cap p" and "cached_read_position p \<le> pos"
  shows "after_position p e pos = (if pos = u64_max then Return_publish e PublishResult.Closed
    else if unat pos \<ge> unat (cached_read_position p) + n then Load_read_cursor e pos
    else Store_header e pos)"
proof -
  have c: "unat (ucast (r_slot_count p) :: u64) = n"
    using assms(1) by (simp add: unat_ucast_u32 handle_ok_def)
  have s: "unat (pos - cached_read_position p) = unat pos - unat (cached_read_position p)"
    using assms(2) by (simp add: unat_sub)
  show ?thesis
    using assms(2) s c by (auto simp: after_position_def word_le_nat_alt)
qed

lemma after_state_cases:
  assumes "handle_ok n st cap p" and "addressable (payload e)"
  shows "after_state p e state = (if state \<noteq> ring_state_value Ready
      then Return_publish e PublishResult.Closed
    else if cap < length (payload e) then Return_publish e PublishResult.PayloadTooLarge
    else Load_position e)"
  using assms
  by (simp add: after_state_def word_less_nat_alt unat_ucast_u32 handle_ok_def unat_span_size)

text \<open>Both handles of the invariant, and what the cursors satisfy.\<close>

lemma threads_okD:
  assumes "threads_ok n st cap w"
  shows "ring_ok n st cap (thr_memory w)" "handle_ok n st cap (thr_producer w)"
    and "handle_ok n st cap (thr_consumer w)" "geometry n st cap (thr_memory w)"
    and "producer_ok n st cap (thr_memory w) (thr_producer w)"
    and "consumer_ok n st cap (thr_memory w) (thr_consumer w)"
    and "cached_read_position (thr_producer w) \<le> consumer_position (thr_memory w)"
    and "consumer_position (thr_memory w) \<le> producer_position (thr_memory w)"
    and "cached_read_position (thr_producer w) \<le> producer_position (thr_memory w)"
    and "unat (producer_position (thr_memory w)) \<le> unat (cached_read_position (thr_producer w)) + n"
    and "producer_knows n st cap (thr_memory w) (thr_producer w) (thr_publishing w)"
    and "consumer_knows n st (thr_memory w) (thr_consumer w) (thr_acquiring w)"
  using assms by (auto simp: threads_ok_def ring_ok_def producer_ok_def consumer_ok_def
      cursors_follow_def word_le_nat_alt)

lemma silent_producer:
  assumes "threads_ok n st cap w" and "producer_knows n st cap (thr_memory w) (thr_producer w) pc"
  shows "threads_ok n st cap (w\<lparr>thr_publishing := pc\<rparr>)"
    and "queue_of n st (w\<lparr>thr_publishing := pc\<rparr>) = queue_of n st w"
  using assms by (simp_all add: threads_ok_def queue_of_def)

lemma private_step:
  assumes ok: "threads_ok n st cap w" and may: "may_publish n st cap (thr_memory w) (thr_producer w) e pos"
    and "private_write n st cap (thr_memory w) m" and "copied m (next_slot n st (thr_memory w)) e k"
  shows "threads_ok n st cap (w\<lparr>thr_memory := m, thr_publishing := Copy_payload e pos k\<rparr>)"
    and "queue_of n st (w\<lparr>thr_memory := m, thr_publishing := Copy_payload e pos k\<rparr>) = queue_of n st w"
proof -
  note d = threads_okD [OF ok]
  have pub: "publishable n st cap (thr_memory w) (thr_producer w) e"
    using may by (simp add: may_publish_def)
  note h = private_header [OF pub assms(3)] and r = private_ring [OF pub assms(3)]
  have k: "producer_knows n st cap m (thr_producer w) (Copy_payload e pos k)"
    using may r(3) assms(4) by (auto simp: producer_knows_def may_publish_def h)
  from threads_ok_producer [OF ok hidden_private [OF pub assms(3) d(1,6)] r(1)
      producer_ok_same_cursor [OF d(5) h(2)] k]
  show "threads_ok n st cap (w\<lparr>thr_memory := m, thr_publishing := Copy_payload e pos k\<rparr>)"
    using d(10) by (simp add: h)
  show "queue_of n st (w\<lparr>thr_memory := m, thr_publishing := Copy_payload e pos k\<rparr>) = queue_of n st w"
    by (simp add: queue_of_def h r(2))
qed

lemma publishing_step:
  assumes ok: "threads_ok n st cap w" and may: "may_publish n st cap (thr_memory w) (thr_producer w) e pos"
    and c: "copied (thr_memory w) (next_slot n st (thr_memory w)) e (length (payload e))"
    and w': "w' = w\<lparr>thr_memory := write_u64 (thr_memory w) 64 (pos + 1),
      thr_publishing := Return_publish e Ok\<rparr>"
  shows "threads_ok n st cap w'" and "queue_step n (queue_of n st w) (Enqueued e) (queue_of n st w')"
proof -
  let ?m = "thr_memory w" and ?m' = "write_u64 (thr_memory w) 64 (pos + 1)"
  note d = threads_okD [OF ok]
  have pub: "publishable n st cap ?m (thr_producer w) e" and pos: "pos = producer_position ?m"
    and st: "pre_state ?m = ring_state_value Ready"
    using may by (simp_all add: may_publish_def)
  note s = store_position_effect [OF pub copied_event [OF pub c], of ?m', unfolded pos, OF refl, folded pos]
  have hid: "hidden_from_consumer n st ?m ?m' (thr_consumer w)"
    using s(3-6) st by (simp add: pos hidden_from_consumer_def first_slot_def)
  have "unat (producer_position ?m') \<le> unat (cached_read_position (thr_producer w)) + n"
    using may s(5) by (auto simp: may_publish_def)
  from threads_ok_producer [OF ok hid s(1) producer_ok_same_cursor [OF d(5) s(3)] _ this]
  show "threads_ok n st cap w'" by (simp add: w' producer_knows_def)
  have "length (ring_items n st ?m) < n" using pub geometryD(1) [OF d(4)] by (auto simp: publishable_def)
  then show "queue_step n (queue_of n st w) (Enqueued e) (queue_of n st w')"
    using queue_step.enqueue [of "queue_of n st w" n e] st by (simp add: queue_of_def w' s(2,4))
qed

lemma reload_step:
  assumes ok: "threads_ok n st cap w" and pc: "thr_publishing w = Load_read_cursor e pos"
    and seen: "cached_read_position (thr_producer w) \<le> seen" "seen \<le> consumer_position (thr_memory w)"
    and r: "r = (thr_producer w)\<lparr>cached_read_position := seen\<rparr>"
    and w': "w' = w\<lparr>thr_producer := r, thr_publishing := after_reload r e pos\<rparr>"
  shows "threads_ok n st cap w'" and "queue_of n st w' = queue_of n st w"
proof -
  note d = threads_okD [OF ok]
  have k: "pos = producer_position (thr_memory w)" "pos \<noteq> u64_max" "length (payload e) \<le> cap"
    "pre_state (thr_memory w) = ring_state_value Ready"
    using d(11) pc by (auto simp: producer_knows_def)
  have p: "handle_ok n st cap r" "cached_read_position r = seen"
    using d(2) r by simp_all
  have le: "seen \<le> pos" "unat pos \<le> unat seen + n"
    using seen d(8,10) k(1) by (auto simp: word_le_nat_alt)
  have "producer_knows n st cap (thr_memory w) r (after_reload r e pos)"
    using k p le d(1) seen(2)
    by (auto simp: after_reload_cases [OF p(1)] knows_defs publishable_def word_le_nat_alt)
  moreover have "producer_ok n st cap (thr_memory w) r"
    using p seen(2) by (simp add: producer_ok_def word_le_nat_alt)
  ultimately show "threads_ok n st cap w'" "queue_of n st w' = queue_of n st w"
    using threads_ok_producer [OF ok hidden_same d(1)] le k(1) p(2)
    by (simp_all add: w' queue_of_def)
qed

lemma header_step:
  assumes ok: "threads_ok n st cap w" and pc: "thr_publishing w = Store_header e pos"
    and w': "w' = w\<lparr>thr_memory := fill_slot_header (thr_memory w) (slot_of (thr_producer w) pos) e,
      thr_publishing := Copy_payload e pos 0\<rparr>"
  shows "threads_ok n st cap w'" and "queue_of n st w' = queue_of n st w"
proof -
  have may: "may_publish n st cap (thr_memory w) (thr_producer w) e pos"
    using threads_okD(11) [OF ok] pc by (simp add: producer_knows_def)
  then have pub: "publishable n st cap (thr_memory w) (thr_producer w) e"
    "slot_of (thr_producer w) pos = next_slot n st (thr_memory w)"
    using publishableD(10) by (auto simp: may_publish_def)
  note p = store_header_private [OF pub(1) refl refl, folded pub(2)]
  show "threads_ok n st cap w'" "queue_of n st w' = queue_of n st w"
    using private_step [OF ok may p(1), of 0] p(2) pub(2) by (simp_all add: w' copied_def)
qed

lemma copy_step:
  assumes ok: "threads_ok n st cap w" and pc: "thr_publishing w = Copy_payload e pos k" "k < length (payload e)"
    and w': "w' = w\<lparr>thr_memory := copy_byte (thr_memory w) (thr_producer w) pos e k,
      thr_publishing := Copy_payload e pos (Suc k)\<rparr>"
  shows "threads_ok n st cap w'" and "queue_of n st w' = queue_of n st w"
proof -
  have may: "may_publish n st cap (thr_memory w) (thr_producer w) e pos"
    and c: "copied (thr_memory w) (next_slot n st (thr_memory w)) e k"
    using threads_okD(11) [OF ok] pc(1) by (simp_all add: producer_knows_def)
  then have pub: "publishable n st cap (thr_memory w) (thr_producer w) e"
    "pos = producer_position (thr_memory w)" by (simp_all add: may_publish_def)
  note p = copy_byte_private [OF pub(1) c pc(2) refl refl, folded pub(2)]
  show "threads_ok n st cap w'" "queue_of n st w' = queue_of n st w"
    using private_step [OF ok may p] by (simp_all add: w')
qed

lemma producer_step_ok:
  assumes "producer_step w l w'" and ok: "threads_ok n st cap w"
  shows "threads_ok n st cap w' \<and> queue_step n (queue_of n st w) l (queue_of n st w')"
  using assms(1)
proof cases
  case (call_publish e)
  then have "producer_knows n st cap (thr_memory w) (thr_producer w)
      (if has_header (thr_producer w) then Load_state e else Return_publish e PublishResult.Closed)"
    using threads_okD(2) [OF ok] by (simp add: producer_knows_def handle_ok_def)
  from silent_producer [OF ok this] show ?thesis by (simp add: call_publish queue_step.silent)
next
  case (load_state e)
  have "producer_knows n st cap (thr_memory w) (thr_producer w)
      (after_state (thr_producer w) e (pre_state (thr_memory w)))"
    using threads_okD(2,11) [OF ok] load_state(3)
    by (simp add: after_state_cases producer_knows_def)
  from silent_producer [OF ok this] show ?thesis by (simp add: load_state queue_step.silent)
next
  case (load_position e)
  note d = threads_okD [OF ok]
  have "producer_knows n st cap (thr_memory w) (thr_producer w)
      (after_position (thr_producer w) e (producer_position (thr_memory w)))"
    using d(11) load_position(3) d(1,2,7)
    by (auto simp: after_position_cases [OF d(2,9)] knows_defs publishable_def word_le_nat_alt)
  from silent_producer [OF ok this] show ?thesis by (simp add: load_position queue_step.silent)
next
  case (load_read_cursor e pos seen p)
  from reload_step [OF ok this(3-6,2)] show ?thesis by (simp add: load_read_cursor(1) queue_step.silent)
next
  case (store_header e pos)
  from header_step [OF ok this(3,2)] show ?thesis by (simp add: store_header(1) queue_step.silent)
next
  case (copy_payload e pos k)
  from copy_step [OF ok this(3,4,2)] show ?thesis by (simp add: copy_payload(1) queue_step.silent)
next
  case (store_position e pos k)
  then show ?thesis
    using publishing_step [OF ok, of e pos w'] threads_okD(11) [OF ok]
    by (simp add: producer_knows_def)
next
  case (return_publish e r)
  have "producer_knows n st cap (thr_memory w) (thr_producer w) Idle_producer"
    by (simp add: producer_knows_def)
  from silent_producer [OF ok this] show ?thesis by (simp add: return_publish queue_step.silent)
qed

lemma owner_step_ok:
  assumes "owner_step w l w'" and ok: "threads_ok n st cap w"
  shows "threads_ok n st cap w' \<and> queue_step n (queue_of n st w) l (queue_of n st w')"
  using assms(1)
proof cases
  case (close owner m)
  let ?m = "thr_memory w"
  note d = threads_okD [OF ok]
  have m: "m = write_u32 ?m 40 3" using close(4) by (auto simp: close_publication_def split: if_splits)
  note f = closed_frame [OF d(4) m] and sl = closed_slots [OF d(1) m]
  have i: "ring_items n st m = ring_items n st ?m" by (simp add: ring_items_def f sl(1))
  have r: "ring_ok n st cap m" using d(1,4) sl(2) f by (auto simp: ring_ok_def geometry_def)
  have hid: "hidden_from_consumer n st ?m m (thr_consumer w)"
    using f sl(3) i by (simp add: hidden_from_consumer_def first_slot_def)
  have k: "producer_knows n st cap m (thr_producer w) Idle_producer" by (simp add: producer_knows_def)
  have "threads_ok n st cap (w\<lparr>thr_memory := m, thr_producer := thr_producer w, thr_publishing := Idle_producer\<rparr>)"
    using threads_ok_producer [OF ok hid r producer_ok_same_cursor [OF d(5) f(2)] k] d(10) f(3) by simp
  moreover have "w' = w\<lparr>thr_memory := m, thr_producer := thr_producer w, thr_publishing := Idle_producer\<rparr>"
    using close(2,3) by simp
  ultimately show ?thesis
    using queue_step.closing [of n "queue_of n st w"] f(1) i by (simp add: queue_of_def close(1))
qed

section \<open>Steps of the consumer\<close>

text \<open>What the producer knows does not depend on how far the consumer is, except that it may be further.\<close>

lemma producer_undisturbed:
  assumes pub: "\<And>e. publishable n st cap m p e \<Longrightarrow> publishable n st cap m' p e"
    and "producer_position m' = producer_position m" and "pre_state m' = pre_state m"
    and "\<And>j. 192 \<le> j \<Longrightarrow> j < length m \<Longrightarrow> m' ! j = m ! j" and "length m' = length m"
    and "producer_knows n st cap m p pc"
  shows "producer_knows n st cap m' p pc"
proof -
  have next_eq: "next_slot n st m' = next_slot n st m" by (simp add: next_slot_def assms(2))
  have "copied m' (next_slot n st m) e k" if "publishable n st cap m p e" "copied m (next_slot n st m) e k"
    for e k
  proof -
    note d = publishableD [OF that(1)]
    have same: "m' ! j = m ! j" if "next_slot n st m \<le> j" "j < next_slot n st m + st" for j
      using that d(5,6) by (intro assms(4)) auto
    show ?thesis
      using that(2) slot_fields_cong [OF same d(8)] d(7)
      by (auto simp: copied_def header_stored_def same)
  qed
  then show ?thesis
    using assms(6) pub
    by (auto simp: knows_defs assms(2,3) next_eq split: producer_pc.splits)
qed

lemma silent_consumer:
  assumes "threads_ok n st cap w" and "consumer_knows n st (thr_memory w) (thr_consumer w) pc"
  shows "threads_ok n st cap (w\<lparr>thr_acquiring := pc\<rparr>)"
    and "queue_of n st (w\<lparr>thr_acquiring := pc\<rparr>) = queue_of n st w"
  using assms by (simp_all add: threads_ok_def queue_of_def)

lemma cached_write_step:
  assumes ok: "threads_ok n st cap w" and "\<not> acquired (thr_consumer w)"
    and "cached_write_position (thr_consumer w) \<le> seen" and "seen \<le> producer_position (thr_memory w)"
    and "c = (thr_consumer w)\<lparr>cached_write_position := seen\<rparr>"
    and "consumer_knows n st (thr_memory w) c pc"
  shows "threads_ok n st cap (w\<lparr>thr_consumer := c, thr_acquiring := pc\<rparr>)"
  using assms by (auto simp: threads_ok_def consumer_ok_def cursors_follow_def word_le_nat_alt)

lemma acquiring_step:
  assumes ok: "threads_ok n st cap w" and k: "thr_acquiring w = Read_header pos"
    and r: "read_slot (thr_memory w) (thr_consumer w) pos = (answer, c)"
  shows "threads_ok n st cap (w\<lparr>thr_consumer := c, thr_acquiring := Return_acquire answer\<rparr>)"
proof -
  note d = threads_okD [OF ok]
  have p: "\<not> acquired (thr_consumer w)" "pos = consumer_position (thr_memory w)"
    "pos < cached_write_position (thr_consumer w)"
    using d(12) k by (auto simp: consumer_knows_def)
  have a: "answer = Inr (view_of (thr_memory w) (first_slot n st (thr_memory w)))"
    and c: "c = (thr_consumer w)\<lparr>acquired_position := pos, acquired := True\<rparr>"
    using read_slot_ok [OF d(1,6)] r p by (auto simp: first_slot_def word_less_nat_alt)
  have view: "thr_view w = None" using ok p(1) by (cases "thr_view w") (auto simp: threads_ok_def)
  have "consumer_ok n st cap (thr_memory w) c"
    using d(6) p by (auto simp: c consumer_ok_def handle_ok_def word_less_nat_alt)
  moreover have "consumer_knows n st (thr_memory w) c (Return_acquire answer)"
    by (simp add: consumer_knows_def a c)
  ultimately show ?thesis
    using ok p view by (simp add: threads_ok_def cursors_follow_def c)
qed

lemma releasing_step:
  assumes ok: "threads_ok n st cap w" and idle: "thr_acquiring w = Idle_consumer"
    and v: "thr_view w = Some v" and r: "release (thr_memory w) (thr_consumer w) = (True, m, c)"
    and w': "w' = w\<lparr>thr_memory := m, thr_consumer := c, thr_view := None\<rparr>"
  shows "threads_ok n st cap w'"
    and "queue_step n (queue_of n st w) (Dequeued (deref (thr_memory w) v)) (queue_of n st w')"
proof -
  let ?m = "thr_memory w"
  note d = threads_okD [OF ok]
  have a: "acquired (thr_consumer w)" and vv: "v = view_of ?m (first_slot n st ?m)"
    using ok v by (auto simp: threads_ok_def)
  note rel = released_ok [OF d(1,6) a]
  have m: "m = released_ring ?m" "c = (thr_consumer w)\<lparr>acquired := False, acquired_position := 0\<rparr>"
    using rel(1) r by simp_all
  note cur = released_cursors [OF d(4)]
  have lt: "unat (consumer_position ?m) < unat (producer_position ?m)"
    using d(6) a by (simp add: consumer_ok_def)
  then have "consumer_position ?m \<noteq> u64_max"
    using unsigned_less [of "producer_position ?m", where ?'a = nat] by auto
  then have pos: "unat (consumer_position m) = unat (consumer_position ?m) + 1"
    unfolding m cur by (rule unat_plus_1)
  have pub: "publishable n st cap m (thr_producer w) e" if "publishable n st cap ?m (thr_producer w) e" for e
    using that rel(2) pos by (simp add: publishable_def m cur(2))
  have "producer_knows n st cap m (thr_producer w) (thr_publishing w)"
    by (rule producer_undisturbed [OF pub _ _ _ _ d(11)])
      (simp_all add: m cur(2,3) released_frame)
  moreover have "cursors_follow n m (thr_producer w) c"
    using ok a pos by (auto simp: threads_ok_def cursors_follow_def m(2) cur(2) word_le_nat_alt
        word_less_nat_alt) (simp add: m cur)
  ultimately show "threads_ok n st cap w'"
    using rel(2) rel(4) [OF d(5)] rel(5) idle
    by (simp add: threads_ok_def w' consumer_knows_def m)
  have "ring_items n st ?m = deref ?m v # ring_items n st m"
    using rel(3) ring_items_first [OF lt, of n st] by (simp add: vv first_slot_def m)
  then show "queue_step n (queue_of n st w) (Dequeued (deref ?m v)) (queue_of n st w')"
    using queue_step.dequeue [of "queue_of n st w" "deref ?m v" "ring_items n st m" n]
    by (simp add: queue_of_def w' m cur(3))
qed

lemma consumer_step_ok:
  assumes "consumer_step w l w'" and ok: "threads_ok n st cap w"
  shows "threads_ok n st cap w' \<and> queue_step n (queue_of n st w) l (queue_of n st w')"
  using assms(1)
proof cases
  case call_acquire
  then have "consumer_knows n st (thr_memory w) (thr_consumer w)
      (if has_header (thr_consumer w) then Check_acquired else Return_acquire (Inl Closed))"
    using threads_okD(3) [OF ok] by (simp add: consumer_knows_def handle_ok_def)
  from silent_consumer [OF ok this] show ?thesis by (simp add: call_acquire queue_step.silent)
next
  case check_acquired
  have "consumer_knows n st (thr_memory w) (thr_consumer w) (after_check (thr_memory w) (thr_consumer w))"
    by (auto simp: after_check_def consumer_knows_def)
  from silent_consumer [OF ok this] show ?thesis by (simp add: check_acquired queue_step.silent)
next
  case (load_closure pos state)
  have "consumer_knows n st (thr_memory w) (thr_consumer w) (Load_write_cursor pos state)"
    using threads_okD(12) [OF ok] load_closure(3,4) by (auto simp: consumer_knows_def)
  from silent_consumer [OF ok this] show ?thesis by (simp add: load_closure queue_step.silent)
next
  case (load_write_cursor pos state seen c)
  note d = threads_okD [OF ok]
  have k: "\<not> acquired (thr_consumer w)" "pos = consumer_position (thr_memory w)"
    "cached_write_position (thr_consumer w) \<le> pos"
    "state = 3 \<Longrightarrow> pre_state (thr_memory w) = 3"
    using d(12) load_write_cursor(3) by (auto simp: consumer_knows_def)
  have "pos \<le> seen" using ok load_write_cursor(4) k(2,3) by (auto simp: threads_ok_def cursors_follow_def)
  then have "consumer_knows n st (thr_memory w) c (after_write_cursor c pos state)"
    using k load_write_cursor(5-7) ring_ok_items(2) [OF d(1)]
    by (auto simp: after_write_cursor_def consumer_knows_def)
  from cached_write_step [OF ok k(1) load_write_cursor(4,5,7) this]
  show ?thesis by (simp add: load_write_cursor queue_of_def queue_step.silent)
next
  case (read_header pos answer c)
  then show ?thesis
    using acquiring_step [OF ok read_header(3,4)] by (simp add: queue_of_def queue_step.silent)
next
  case (return_acquire answer)
  have "threads_ok n st cap w'"
    using ok return_acquire(2,3)
    by (auto simp: threads_ok_def consumer_knows_def split: sum.splits)
  then show ?thesis by (simp add: return_acquire queue_of_def queue_step.silent)
next
  case (call_release v m c)
  then show ?thesis using releasing_step [OF ok call_release(3,4,5,2)] by simp
qed

lemma ring_step_ok:
  assumes "ring_step w l w'" and "threads_ok n st cap w"
  shows "threads_ok n st cap w'" and "queue_step n (queue_of n st w) l (queue_of n st w')"
  using assms producer_step_ok [of w l w' n st cap] owner_step_ok [of w l w' n st cap]
    consumer_step_ok [of w l w' n st cap]
  by (auto elim!: ring_step.cases)

lemma ring_trace_ok: "ring_trace w ls w' \<Longrightarrow> threads_ok n st cap w \<Longrightarrow> threads_ok n st cap w'"
  by (induction rule: ring_trace.induct) (auto dest: ring_step_ok(1))

end
