(* ===== verification/Concurrent_Ring.thy ===== *)
theory Concurrent_Ring
  imports Ring_Concurrency Ring_Setup
begin

text \<open>
  Properties of a ring that \<open>initialize\<close> made and whose two handles are used by two threads, with
  the loads and stores of the two interleaved in any way and with stale acquire loads (Ring_Steps).
\<close>

section \<open>A ring that was just made\<close>

lemma attach_result: "attach_ring a m = Inr r \<Longrightarrow> r = make_ring m False"
  by (auto simp: attach_ring_def Let_def split: sum.splits if_splits)

lemma fresh_positions:
  assumes "addressable m0" and "initialize_ring a0 m0 config id0 = (Inr h, m)"
  shows "producer_position m = 0" and "consumer_position m = 0" and "h = make_ring m True"
proof -
  obtain sz where r: "required_bytes config = Inr sz" "length m0 = unat sz"
    and m: "m = initialized_ring m0 sz config id0" and h: "h = make_ring m True"
    using assms by (auto simp: initialize_ring_eq split: sum.splits if_splits)
  have "setup_ok (unat (cfg_slot_count config)) (stride_of (unat (cfg_slot_payload_capacity config))) sz config m0"
    using r by (simp add: setup_ok_def)
  from setup_okD(1) [OF this] have "192 \<le> length m0" by (auto dest: geometryD(5))
  from initialized_fields(10,11) [OF this m] show "producer_position m = 0" "consumer_position m = 0" .
  show "h = make_ring m True" by (rule h)
qed

text \<open>The threads that start on a new ring, whichever handle produces.\<close>

definition new_threads :: "RingConfig \<Rightarrow> ring_threads \<Rightarrow> bool" where
  "new_threads config w \<longleftrightarrow> (\<exists>a0 m0 id0 h m a1 a. addressable m0
     \<and> initialize_ring a0 m0 config id0 = (Inr h, m) \<and> attach_ring a1 m = Inr a
     \<and> (w = start_threads m h a \<or> w = start_threads m a h))"

definition ring_stride :: "ring_threads \<Rightarrow> nat" where
  "ring_stride w = unat (r_slot_stride (thr_producer w))"

lemma new_threads_ok:
  assumes "new_threads config w"
  shows "threads_ok (unat (cfg_slot_count config)) (ring_stride w) (unat (cfg_slot_payload_capacity config)) w"
    and "queue_of (unat (cfg_slot_count config)) (ring_stride w) w = \<lparr>contents = [], closed = False\<rparr>"
proof -
  obtain a0 m0 id0 h m a1 a where i: "addressable m0" "initialize_ring a0 m0 config id0 = (Inr h, m)"
    "attach_ring a1 m = Inr a" "w = start_threads m h a \<or> w = start_threads m a h"
    using assms by (auto simp: new_threads_def)
  note f = fresh_positions [OF i(1,2)] and a = attach_result [OF i(3)]
  note t = attach_initialized [OF i(1,2)]
  obtain n st where r: "ring_ok n st (unat (cfg_slot_payload_capacity config)) m"
    "handle_ok n st (unat (cfg_slot_payload_capacity config)) h"
    "handle_ok n st (unat (cfg_slot_payload_capacity config)) a"
    "n = unat (cfg_slot_count config)" "ring_items n st m = []"
    using t(1) a by auto
  have st: "ring_stride w = st" using i(4) r(2,3) by (auto simp: ring_stride_def start_threads_def handle_ok_def)
  have mk: "\<not> acquired h" "\<not> acquired a" "cached_read_position h = 0" "cached_read_position a = 0"
    "cached_write_position h = 0" "cached_write_position a = 0"
    by (simp_all add: a f(3) make_ring_def)
  show "threads_ok (unat (cfg_slot_count config)) (ring_stride w) (unat (cfg_slot_payload_capacity config)) w"
    unfolding st using r mk f i(4)
    by (auto simp: threads_ok_def start_threads_def producer_ok_def consumer_ok_def cursors_follow_def
        producer_knows_def consumer_knows_def)
  show "queue_of (unat (cfg_slot_count config)) (ring_stride w) w = \<lparr>contents = [], closed = False\<rparr>"
    unfolding st using r(4,5) t(5) i(4) by (auto simp: queue_of_def start_threads_def)
qed

lemma new_trace_ok:
  assumes "new_threads config w" and "ring_trace w ls w'"
  shows "threads_ok (unat (cfg_slot_count config)) (ring_stride w) (unat (cfg_slot_payload_capacity config)) w'"
  using ring_trace_ok [OF assms(2) new_threads_ok(1) [OF assms(1)]] .

section \<open>First in, first out\<close>

inductive_cases enqueue_cases: "queue_step n q (Enqueued e) q'"
inductive_cases dequeue_cases: "queue_step n q (Dequeued e) q'"
inductive_cases closing_cases: "queue_step n q Closing q'"
inductive_cases silent_cases: "queue_step n q Silent q'"

lemmas queue_step_cases = enqueue_cases dequeue_cases closing_cases silent_cases

lemma queue_step_contents:
  assumes "queue_step n q l q'"
  shows "contents q @ enqueued [l] = dequeued [l] @ contents q'"
  using assms by cases simp_all

lemma trace_fifo:
  assumes "ring_trace w ls w'" and "threads_ok n st cap w"
  shows "contents (queue_of n st w) @ enqueued ls = dequeued ls @ contents (queue_of n st w')"
  using assms
proof (induction rule: ring_trace.induct)
  case (one_more w ls w' l w'')
  note q = ring_step_ok(2) [OF one_more.hyps(2) ring_trace_ok [OF one_more.hyps(1) one_more.prems]]
  have e: "enqueued (ls @ [l]) = enqueued ls @ enqueued [l]" "dequeued (ls @ [l]) = dequeued ls @ dequeued [l]"
    by simp_all
  show ?case
    unfolding e using one_more.IH [OF one_more.prems] queue_step_contents [OF q]
    by (metis append_assoc)
qed simp

lemma closed_stays:
  assumes "ring_trace w ls w'" and "threads_ok n st cap w" and "closed (queue_of n st w)"
  shows "closed (queue_of n st w') \<and> enqueued ls = []"
  using assms
proof (induction rule: ring_trace.induct)
  case (one_more w ls w' l w'')
  note q = ring_step_ok(2) [OF one_more.hyps(2) ring_trace_ok [OF one_more.hyps(1) one_more.prems(1)]]
  from one_more.IH [OF one_more.prems] show ?case
    using q by (cases l) (auto elim!: queue_step_cases)
qed simp

lemma bounded_contents: "threads_ok n st cap w \<Longrightarrow> length (contents (queue_of n st w)) \<le> n"
  using ring_ok_items(1) [of n st cap "thr_memory w"] by (simp add: threads_ok_def queue_of_def)

text \<open>
  C7. The concurrent ring implements the abstract queue: from a new ring on, whatever the
  interleaving of the loads and stores of the two threads and however stale their acquire loads,
  every step is a step of a closable queue of at most \<open>slot_count\<close> events. The store of the write
  cursor appends the event, the store of the read cursor removes the one that was held, and what was
  removed is always a prefix of what was appended.
\<close>

theorem concurrent_ring_refines_queue:
  assumes "new_threads config w" and "ring_trace w ls w'" and "ring_step w' l w''"
    and "n = unat (cfg_slot_count config)" and "st = ring_stride w"
  shows "queue_step n (queue_of n st w') l (queue_of n st w'')
    \<and> enqueued (ls @ [l]) = dequeued (ls @ [l]) @ contents (queue_of n st w'')
    \<and> length (contents (queue_of n st w'')) \<le> n"
proof -
  note ok = new_trace_ok [OF assms(1,2), folded assms(4,5)]
  have "ring_trace w (ls @ [l]) w''" using assms(2,3) by (rule one_more)
  from trace_fifo [OF this new_threads_ok(1) [OF assms(1), folded assms(4,5)]]
  have "enqueued (ls @ [l]) = dequeued (ls @ [l]) @ contents (queue_of n st w'')"
    using new_threads_ok(2) [OF assms(1), folded assms(4,5)] by simp
  then show ?thesis
    using ring_step_ok [OF assms(3) ok] bounded_contents by blast
qed

text \<open>
  C8. A held event is safe from the producer: at every moment between the return of \<open>try_acquire\<close>
  and the release, what the consumer reads through its view is the event that was published next
  after those it has released, whatever part of a later publication is in memory.
\<close>

theorem held_view_reads_next_event:
  assumes "new_threads config w" and "ring_trace w ls w'" and "thr_view w' = Some v"
  shows "length (dequeued ls) < length (enqueued ls)
    \<and> deref (thr_memory w') v = enqueued ls ! length (dequeued ls)"
proof -
  define n st where "n = unat (cfg_slot_count config)" and "st = ring_stride w"
  note ok = new_trace_ok [OF assms(1,2), folded n_def st_def]
  have "unat (consumer_position (thr_memory w')) < unat (producer_position (thr_memory w'))"
    and v: "v = view_of (thr_memory w') (first_slot n st (thr_memory w'))"
    using ok assms(3) by (auto simp: threads_ok_def consumer_ok_def)
  from ring_items_first [OF this(1), of n st]
  have "contents (queue_of n st w') = deref (thr_memory w') v # tl (contents (queue_of n st w'))"
    by (simp add: queue_of_def v first_slot_def)
  moreover have "enqueued ls = dequeued ls @ contents (queue_of n st w')"
    using trace_fifo [OF assms(2) new_threads_ok(1) [OF assms(1)]] new_threads_ok(2) [OF assms(1)]
    by (simp add: n_def st_def)
  ultimately show ?thesis by (metis length_append less_add_same_cancel1 length_greater_0_conv list.discI nth_append_length)
qed

section \<open>No slot is accessed by both threads\<close>

text \<open>The bytes of the slots that the next step of the producer stores.\<close>

definition producer_writes :: "ring_threads \<Rightarrow> nat set" where
  "producer_writes w = (case thr_publishing w of
      Store_header e pos \<Rightarrow> let s = slot_of (thr_producer w) pos in {s..<s + 24}
    | Copy_payload e pos k \<Rightarrow> let s = slot_of (thr_producer w) pos in
        if k < length (payload e) then {s + 32 + k} else {}
    | _ \<Rightarrow> {})"

text \<open>The bytes of the slots that the consumer may load: the header of the slot that it is about to
  read, and the payload of an event that it holds or is about to be given.\<close>

definition consumer_reads :: "ring_threads \<Rightarrow> nat set" where
  "consumer_reads w =
    (case thr_acquiring w of
        Read_header pos \<Rightarrow> let s = slot_of (thr_consumer w) pos in {s..<s + 32}
      | Return_acquire (Inr v) \<Rightarrow> {fst (payload v)..<fst (payload v) + snd (payload v)}
      | _ \<Rightarrow> {})
    \<union> (case thr_view w of
        Some v \<Rightarrow> {fst (payload v)..<fst (payload v) + snd (payload v)} | None \<Rightarrow> {})"

lemma producer_writes_in:
  assumes "threads_ok n st cap w"
  shows "producer_writes w \<subseteq> {next_slot n st (thr_memory w)..<next_slot n st (thr_memory w) + st}"
    and "x \<in> producer_writes w \<Longrightarrow> \<exists>e. publishable n st cap (thr_memory w) (thr_producer w) e"
proof -
  note k = threads_okD(11) [OF assms]
  have in_slot: "s = slot_of (thr_producer w) pos \<Longrightarrow>
      s = next_slot n st (thr_memory w) \<and> length (payload e) + 32 \<le> st"
    if "may_publish n st cap (thr_memory w) (thr_producer w) e pos" for e pos s
    using that publishableD(7,10) by (auto simp: may_publish_def)
  show "producer_writes w \<subseteq> {next_slot n st (thr_memory w)..<next_slot n st (thr_memory w) + st}"
  proof (cases "thr_publishing w")
    case (Store_header e pos)
    then show ?thesis using k in_slot [OF _ refl, of e pos] by (auto simp: producer_writes_def producer_knows_def Let_def)
  next
    case (Copy_payload e pos i)
    then show ?thesis using k in_slot [OF _ refl, of e pos] by (auto simp: producer_writes_def producer_knows_def Let_def)
  qed (simp_all add: producer_writes_def)
  show "x \<in> producer_writes w \<Longrightarrow> \<exists>e. publishable n st cap (thr_memory w) (thr_producer w) e"
    using k by (auto simp: producer_writes_def knows_defs split: producer_pc.splits)
qed

lemma consumer_reads_in:
  assumes ok: "threads_ok n st cap w"
  shows "consumer_reads w \<subseteq> {first_slot n st (thr_memory w)..<first_slot n st (thr_memory w) + st}"
    and "x \<in> consumer_reads w \<Longrightarrow>
      unat (consumer_position (thr_memory w)) < unat (producer_position (thr_memory w))"
proof -
  note d = threads_okD [OF ok]
  let ?v = "view_of (thr_memory w) (first_slot n st (thr_memory w))"
  have view: "{fst (payload ?v)..<fst (payload ?v) + snd (payload ?v)}
      \<subseteq> {first_slot n st (thr_memory w)..<first_slot n st (thr_memory w) + st}"
    using d(1) geometryD(3) [OF d(4)] by (auto simp: view_of_def first_slot_def ring_ok_def slot_valid_def)
       (metis add.assoc add_le_cancel_left le_trans less_le_trans add.commute)
  have slot: "slot_of (thr_consumer w) (consumer_position (thr_memory w)) = first_slot n st (thr_memory w)"
    unfolding first_slot_def by (rule slot_of_eq [OF d(4,3)])
  have held: "acquired (thr_consumer w) \<and> v = ?v" if "thr_view w = Some v" for v
    using ok that by (auto simp: threads_ok_def)
  show "consumer_reads w \<subseteq> {first_slot n st (thr_memory w)..<first_slot n st (thr_memory w) + st}"
    using d(12) view held slot geometryD(3) [OF d(4)]
    by (auto simp: consumer_reads_def consumer_knows_def Let_def
        split: consumer_pc.splits sum.splits option.splits)
  show "x \<in> consumer_reads w \<Longrightarrow>
      unat (consumer_position (thr_memory w)) < unat (producer_position (thr_memory w))"
    using d(6,12) held
    by (auto simp: consumer_reads_def consumer_knows_def consumer_ok_def word_less_nat_alt
        split: consumer_pc.splits sum.splits option.splits)
qed

text \<open>
  The two threads never access a slot at the same time: in every reachable state the bytes that the
  producer stores next and those that the consumer may be reading are disjoint, and both lie in the
  slots of the segment. (That the accesses are ordered by the atomics as well is shown in Ring_Races.)
\<close>

theorem no_slot_is_shared:
  assumes "new_threads config w" and "ring_trace w ls w'"
  shows "producer_writes w' \<inter> consumer_reads w' = {}
    \<and> producer_writes w' \<union> consumer_reads w' \<subseteq> {192..<length (thr_memory w')}"
proof -
  define n st where "n = unat (cfg_slot_count config)" and "st = ring_stride w"
  define m where "m = thr_memory w'"
  note ok = new_trace_ok [OF assms, folded n_def st_def]
  note p = producer_writes_in [OF ok, folded m_def] and c = consumer_reads_in [OF ok, folded m_def]
  have g: "geometry n st (unat (cfg_slot_payload_capacity config)) m" using threads_okD(4) [OF ok] by (simp add: m_def)
  have "next_slot n st m + st \<le> first_slot n st m \<or> first_slot n st m + st \<le> next_slot n st m"
    if x: "x \<in> producer_writes w'" and y: "y \<in> consumer_reads w'" for x y
  proof -
    obtain e where pub: "publishable n st (unat (cfg_slot_payload_capacity config)) m (thr_producer w') e"
      using p(2) [OF x] by auto
    show ?thesis
      using slots_apart [OF used_slot [OF pub order_refl c(2) [OF y]], of st]
      by (auto simp: next_slot_def first_slot_def)
  qed
  then have "producer_writes w' \<inter> consumer_reads w' = {}" using p(1) c(1) by fastforce
  moreover have "{next_slot n st m..<next_slot n st m + st} \<subseteq> {192..<length m}"
    "{first_slot n st m..<first_slot n st m + st} \<subseteq> {192..<length m}"
    using slot_in_segment [OF g] slot_at_ge by (auto simp: next_slot_def first_slot_def intro: less_le_trans le_trans)
  ultimately show ?thesis using p(1) c(1) by (auto simp: m_def)
qed

section \<open>No call waits\<close>

text \<open>The steps that a call has left at most.\<close>

fun producer_work :: "producer_pc \<Rightarrow> nat" where
  "producer_work Idle_producer = 0"
| "producer_work (Return_publish e r) = 1"
| "producer_work (Copy_payload e pos k) = 2 + (length (payload e) - k)"
| "producer_work (Store_header e pos) = 3 + length (payload e)"
| "producer_work (Load_read_cursor e pos) = 4 + length (payload e)"
| "producer_work (Load_position e) = 5 + length (payload e)"
| "producer_work (Load_state e) = 6 + length (payload e)"

fun consumer_work :: "consumer_pc \<Rightarrow> nat" where
  "consumer_work Idle_consumer = 0"
| "consumer_work (Return_acquire answer) = 1"
| "consumer_work (Read_header pos) = 2"
| "consumer_work (Load_write_cursor pos state) = 3"
| "consumer_work (Load_closure pos) = 4"
| "consumer_work Check_acquired = 5"

lemma producer_work_decreases:
  "producer_step w l w' \<Longrightarrow> thr_publishing w \<noteq> Idle_producer \<Longrightarrow>
    producer_work (thr_publishing w') < producer_work (thr_publishing w)"
  by (erule producer_step.cases)
    (auto simp: after_state_def after_position_def after_reload_def)

lemma consumer_work_decreases:
  "consumer_step w l w' \<Longrightarrow> thr_acquiring w \<noteq> Idle_consumer \<Longrightarrow>
    consumer_work (thr_acquiring w') < consumer_work (thr_acquiring w)"
  by (erule consumer_step.cases) (auto simp: after_check_def after_write_cursor_def)

lemma producer_can_step:
  assumes "threads_ok n st cap w" and "thr_publishing w \<noteq> Idle_producer"
  shows "\<exists>l w'. producer_step w l w'"
proof (cases "thr_publishing w")
  case (Copy_payload e pos k)
  then have "k \<le> length (payload e)"
    using threads_okD(11) [OF assms(1)] by (simp add: producer_knows_def copied_def)
  then show ?thesis
    using Copy_payload by (cases "k = length (payload e)")
      (metis producer_step.store_position, metis le_neq_implies_less producer_step.copy_payload)
next
  case (Load_read_cursor e pos)
  then show ?thesis
    using producer_step.load_read_cursor [OF Load_read_cursor threads_okD(7) [OF assms(1)] order_refl refl]
    by blast
qed (use assms(2) in \<open>auto intro: producer_step.intros\<close>)

lemma consumer_can_step:
  assumes "threads_ok n st cap w" and "thr_acquiring w \<noteq> Idle_consumer"
  shows "\<exists>l w'. consumer_step w l w'"
proof (cases "thr_acquiring w")
  case (Read_header pos)
  obtain answer r where "read_slot (thr_memory w) (thr_consumer w) pos = (answer, r)" by fastforce
  then show ?thesis using consumer_step.read_header [OF Read_header] by blast
next
  case (Load_write_cursor pos state)
  have "cached_write_position (thr_consumer w) \<le> producer_position (thr_memory w)"
    using threads_okD(6) [OF assms(1)] by (simp add: consumer_ok_def word_le_nat_alt)
  then show ?thesis
    using consumer_step.load_write_cursor [OF Load_write_cursor _ order_refl _ refl] by blast
qed (use assms(2) in \<open>auto intro: consumer_step.intros\<close>)

lemma other_thread_unmoved:
  "producer_step w l w' \<Longrightarrow> thr_acquiring w' = thr_acquiring w"
  "consumer_step w l w' \<Longrightarrow> thr_publishing w' = thr_publishing w"
  "owner_step w l w' \<Longrightarrow> thr_publishing w' = thr_publishing w \<and> thr_acquiring w' = thr_acquiring w"
  by (auto elim: producer_step.cases consumer_step.cases owner_step.cases)

text \<open>
  C23. The calls are wait-free: whatever the other thread does and wherever it stopped, a call that
  was begun always has a next step, every step of its own thread brings its return nearer, and no
  step of the other thread, or of the owner that closes the ring, takes it further away. A
  publication returns after at most 6 steps and one per payload byte, an acquisition after 5.
\<close>

theorem calls_are_wait_free:
  assumes "new_threads config w" and "ring_trace w ls w'"
  shows "(thr_publishing w' \<noteq> Idle_producer \<longrightarrow> (\<exists>l w''. producer_step w' l w'')
      \<and> (\<forall>l w''. producer_step w' l w'' \<longrightarrow>
          producer_work (thr_publishing w'') < producer_work (thr_publishing w')))
    \<and> (thr_acquiring w' \<noteq> Idle_consumer \<longrightarrow> (\<exists>l w''. consumer_step w' l w'')
      \<and> (\<forall>l w''. consumer_step w' l w'' \<longrightarrow>
          consumer_work (thr_acquiring w'') < consumer_work (thr_acquiring w')))
    \<and> (\<forall>l w''. consumer_step w' l w'' \<or> owner_step w' l w'' \<longrightarrow> thr_publishing w'' = thr_publishing w')
    \<and> (\<forall>l w''. producer_step w' l w'' \<or> owner_step w' l w'' \<longrightarrow> thr_acquiring w'' = thr_acquiring w')
    \<and> (\<forall>e. producer_work (Load_state e) = 6 + length (payload e)) \<and> consumer_work Check_acquired = 5"
  using producer_can_step [OF new_trace_ok [OF assms]] consumer_can_step [OF new_trace_ok [OF assms]]
    producer_work_decreases consumer_work_decreases other_thread_unmoved
  by simp

section \<open>The answers of the calls\<close>

text \<open>
  C24. The answers of \<open>try_acquire\<close> are right under concurrency: Closed is final, as everything
  that was published has been released and nothing is published in any continuation; InvalidSlot
  never happens; AlreadyAcquired means that an event is held; Empty means that the consumer has
  released all that it had seen; a view reads the event that comes next.
\<close>

theorem acquire_answers_are_right:
  assumes "new_threads config w" and "ring_trace w ls w'" and "thr_acquiring w' = Return_acquire answer"
  shows "case answer of
      Inl Closed \<Rightarrow> dequeued ls = enqueued ls \<and> (\<forall>ls' w''. ring_trace w' ls' w'' \<longrightarrow> enqueued ls' = [])
    | Inl InvalidSlot \<Rightarrow> False
    | Inl AlreadyAcquired \<Rightarrow> acquired (thr_consumer w')
    | Inl Empty \<Rightarrow> cached_write_position (thr_consumer w') = consumer_position (thr_memory w')
    | Inr v \<Rightarrow> length (dequeued ls) < length (enqueued ls)
        \<and> deref (thr_memory w') v = enqueued ls ! length (dequeued ls)"
proof -
  define n st where "n = unat (cfg_slot_count config)" and "st = ring_stride w"
  note ok = new_trace_ok [OF assms(1,2), folded n_def st_def]
  note k = threads_okD(12) [OF ok, unfolded assms(3)]
  have fifo: "enqueued ls = dequeued ls @ contents (queue_of n st w')"
    using trace_fifo [OF assms(2) new_threads_ok(1) [OF assms(1)]] new_threads_ok(2) [OF assms(1)]
    by (simp add: n_def st_def)
  show ?thesis
  proof (cases answer)
    case (Inr v)
    then have a: "acquired (thr_consumer w')" and v: "v = view_of (thr_memory w') (first_slot n st (thr_memory w'))"
      using k by (simp_all add: consumer_knows_def)
    from a have "unat (consumer_position (thr_memory w')) < unat (producer_position (thr_memory w'))"
      using threads_okD(6) [OF ok] by (simp add: consumer_ok_def)
    from ring_items_first [OF this, of n st]
    obtain rest where "contents (queue_of n st w') = deref (thr_memory w') v # rest"
      by (simp add: queue_of_def v first_slot_def)
    then show ?thesis using fifo Inr by simp
  next
    case (Inl err)
    show ?thesis
    proof (cases "err = Closed")
      case True
      then have "contents (queue_of n st w') = []" "closed (queue_of n st w')"
        using k Inl by (simp_all add: consumer_knows_def queue_of_def)
      then show ?thesis using fifo closed_stays [OF _ ok] Inl True by auto
    next
      case False
      then show ?thesis using k Inl by (cases err) (auto simp: consumer_knows_def)
    qed
  qed
qed

end
