(* ===== verification/Ring_Clients.thy ===== *)
theory Ring_Clients
  imports Concurrent_Ring
begin

text \<open>
  The concurrent ring as the programs on it see it: the state of the ring after the effects of a
  run, and what the single steps of its two threads do to the position of each of them, to the held
  event and to the queue. Sender_Threads and Receiver_Threads put the loops of the two engines on it.
\<close>

section \<open>The ring after a run\<close>

text \<open>The invariant, what is queued, and whether the ring was closed.\<close>

definition ring_at :: "nat \<Rightarrow> nat \<Rightarrow> nat \<Rightarrow> effect list \<Rightarrow> ring_threads \<Rightarrow> bool" where
  "ring_at n st cap ls r \<longleftrightarrow> threads_ok n st cap r
     \<and> enqueued ls = dequeued ls @ contents (queue_of n st r)
     \<and> (closed (queue_of n st r) \<longleftrightarrow> Closing \<in> set ls)"

lemma ring_at_new:
  assumes "new_threads config r"
  shows "ring_at (unat (cfg_slot_count config)) (ring_stride r) (unat (cfg_slot_payload_capacity config)) [] r"
  using new_threads_ok [OF assms] by (simp add: ring_at_def)

lemma ring_at_silent: "ring_at n st cap ls r \<Longrightarrow> ring_at n st cap (ls @ [Silent]) r"
  by (simp add: ring_at_def)

lemma ring_at_ok: "ring_at n st cap ls r \<Longrightarrow> threads_ok n st cap r"
  by (simp add: ring_at_def)

lemma ring_at_fifo:
  assumes "ring_at n st cap ls r"
  shows "\<exists>queued. enqueued ls = dequeued ls @ queued \<and> length queued \<le> n"
  using assms bounded_contents by (auto simp: ring_at_def)

lemma queue_step_closed: "queue_step n q l q' \<Longrightarrow> closed q' \<longleftrightarrow> closed q \<or> l = Closing"
  by (cases l) (auto elim!: queue_step_cases)

lemma queue_step_open: "queue_step n q (Enqueued e) q' \<Longrightarrow> \<not> closed q"
  by (auto elim!: queue_step_cases)

lemma ring_at_step:
  assumes "ring_at n st cap ls r" and "ring_step r l r'"
  shows "ring_at n st cap (ls @ [l]) r'"
proof -
  note q = ring_step_ok [OF assms(2) ring_at_ok [OF assms(1)]]
  have "enqueued (ls @ [l]) = enqueued ls @ enqueued [l]" "dequeued (ls @ [l]) = dequeued ls @ dequeued [l]"
    by simp_all
  then show ?thesis
    using q(1) queue_step_contents [OF q(2)] queue_step_closed [OF q(2)] assms(1) by (auto simp: ring_at_def)
qed

lemma ring_at_view:
  assumes "ring_at n st cap ls r" and "thr_view r = Some v"
  shows "length (dequeued ls) < length (enqueued ls)"
    and "deref (thr_memory r) v = enqueued ls ! length (dequeued ls)"
    and "length (payload (deref (thr_memory r) v)) \<le> cap"
proof -
  let ?m = "thr_memory r"
  have ok: "threads_ok n st cap r" and e: "enqueued ls = dequeued ls @ contents (queue_of n st r)"
    using assms(1) by (simp_all add: ring_at_def)
  have "unat (consumer_position ?m) < unat (producer_position ?m)" and v: "v = view_of ?m (first_slot n st ?m)"
    using ok assms(2) by (auto simp: threads_ok_def consumer_ok_def)
  from ring_items_first [OF this(1), of n st]
  have c: "contents (queue_of n st r) = deref ?m v # tl (contents (queue_of n st r))"
    by (simp add: queue_of_def v first_slot_def)
  show "length (dequeued ls) < length (enqueued ls)" "deref ?m v = enqueued ls ! length (dequeued ls)"
    unfolding e by (subst c; simp)+
  have "slot_valid cap ?m (first_slot n st ?m)"
    using threads_okD(1) [OF ok] by (simp add: ring_ok_def first_slot_def)
  then show "length (payload (deref ?m v)) \<le> cap"
    by (simp add: v slot_event_def slot_valid_def min_le_iff_disj)
qed

lemma ring_at_addressable:
  assumes "ring_at n st cap ls r" and "thr_view r = Some v"
  shows "addressable (payload (deref (thr_memory r) v))"
proof -
  have "geometry n st cap (thr_memory r)" using threads_okD(4) ring_at_ok [OF assms(1)] by blast
  then show ?thesis using ring_at_view(3) [OF assms] geometryD(6) by (intro addressable_smallI) fastforce
qed

section \<open>A program on the side of the consumer\<close>

abbreviation holds_event :: "ring_threads \<Rightarrow> bool" where
  "holds_event r \<equiv> acquired (thr_consumer r)"

definition given_event :: "ring_threads \<Rightarrow> bool" where
  "given_event r \<longleftrightarrow> (\<exists>v. thr_acquiring r = Return_acquire (Inr v))"

lemma new_threads_idle:
  assumes "new_threads config r"
  shows "thr_acquiring r = Idle_consumer" and "thr_publishing r = Idle_producer" and "thr_view r = None"
    and "\<not> holds_event r"
proof -
  obtain a0 m0 id0 h m a1 a where i: "addressable m0" "initialize_ring a0 m0 config id0 = (Inr h, m)"
    "attach_ring a1 m = Inr a" "r = start_threads m h a \<or> r = start_threads m a h"
    using assms by (auto simp: new_threads_def)
  have "\<not> acquired h" "\<not> acquired a"
    using fresh_positions(3) [OF i(1,2)] attach_result [OF i(3)] by (simp_all add: make_ring_def)
  then show "thr_acquiring r = Idle_consumer" "thr_publishing r = Idle_producer" "thr_view r = None"
    "\<not> holds_event r"
    using i(4) by (auto simp: start_threads_def)
qed

lemma view_holds: "ring_at n st cap ls r \<Longrightarrow> thr_view r \<noteq> None \<Longrightarrow> holds_event r"
  by (auto simp: ring_at_def threads_ok_def)

lemma consumer_call:
  "consumer_step r Silent r' \<Longrightarrow> thr_acquiring r = Idle_consumer \<Longrightarrow>
    thr_acquiring r' \<noteq> Idle_consumer \<and> \<not> given_event r' \<and> (holds_event r' \<longleftrightarrow> holds_event r)"
  by (erule consumer_step.cases) (auto simp: given_event_def)

lemma consumer_inner:
  "consumer_step r l r' \<Longrightarrow> thr_acquiring r \<noteq> Idle_consumer \<Longrightarrow> \<forall>a. thr_acquiring r \<noteq> Return_acquire a \<Longrightarrow>
    \<not> holds_event r \<Longrightarrow>
    l = Silent \<and> thr_acquiring r' \<noteq> Idle_consumer \<and> (holds_event r' \<longleftrightarrow> given_event r')"
  by (erule consumer_step.cases)
    (auto simp: after_check_def after_write_cursor_def given_event_def read_slot_def Let_def split: if_splits)

lemma consumer_return:
  "consumer_step r l r' \<Longrightarrow> thr_acquiring r = Return_acquire a \<Longrightarrow>
    l = Silent \<and> thr_acquiring r' = Idle_consumer \<and> (holds_event r' \<longleftrightarrow> holds_event r)
    \<and> thr_view r' = (case a of Inr v \<Rightarrow> Some v | Inl _ \<Rightarrow> thr_view r)"
  by (erule consumer_step.cases) auto

lemma consumer_release:
  "consumer_step r (Dequeued e) r' \<Longrightarrow> thr_acquiring r = Idle_consumer \<and> thr_acquiring r' = Idle_consumer
    \<and> \<not> holds_event r' \<and> (\<exists>v. thr_view r = Some v \<and> e = deref (thr_memory r) v)"
  by (erule consumer_step.cases) (auto simp: release_def split: if_splits)

text \<open>An answer without an event: Closed comes at the end, and a consumer that holds no event gets
  nothing else but Empty.\<close>

lemma closed_answer:
  assumes "ring_at n st cap ls r" and "thr_acquiring r = Return_acquire (Inl Closed)"
  shows "Closing \<in> set ls" and "dequeued ls = enqueued ls"
proof -
  have "contents (queue_of n st r) = []" "closed (queue_of n st r)"
    using threads_okD(12) [OF ring_at_ok [OF assms(1)]] by (simp_all add: consumer_knows_def assms(2) queue_of_def)
  then show "Closing \<in> set ls" "dequeued ls = enqueued ls" using assms(1) by (simp_all add: ring_at_def)
qed

lemma refused_answer:
  assumes "ring_at n st cap ls r" and "thr_acquiring r = Return_acquire (Inl err)" and "\<not> holds_event r"
  shows "err = Empty \<or> err = Closed \<and> Closing \<in> set ls \<and> dequeued ls = enqueued ls"
proof -
  have "err \<noteq> InvalidSlot" "err \<noteq> AlreadyAcquired"
    using threads_okD(12) [OF ring_at_ok [OF assms(1)]] assms(3) by (auto simp: consumer_knows_def assms(2))
  then show ?thesis using closed_answer [OF assms(1)] assms(2) by (cases err) auto
qed

lemma release_can_step:
  assumes "ring_at n st cap ls r" and "thr_acquiring r = Idle_consumer" and "thr_view r = Some v"
  shows "\<exists>e r'. consumer_step r (Dequeued e) r'"
proof -
  note d = threads_okD [OF ring_at_ok [OF assms(1)]]
  have "holds_event r" using view_holds [OF assms(1)] assms(3) by simp
  from released_ok(1) [OF d(1,6) this] show ?thesis using call_release [OF assms(2,3)] by blast
qed

text \<open>What the other side does.\<close>

lemma producer_side:
  assumes "producer_step r l r' \<or> owner_step r l r'"
  shows "thr_acquiring r' = thr_acquiring r" and "thr_view r' = thr_view r"
    and "thr_consumer r' = thr_consumer r" and "dequeued (ls @ [l]) = dequeued ls"
    and "\<exists>es. enqueued (ls @ [l]) = enqueued ls @ es" and "ring_step r l r'"
proof -
  show "ring_step r l r'" using assms ring_step.by_producer ring_step.by_owner by blast
qed (use assms in \<open>auto elim!: producer_step.cases owner_step.cases\<close>)

text \<open>Nothing is appended to a ring that was closed.\<close>

lemma closed_is_final:
  assumes "ring_at n st cap ls r" and "ring_step r l r'" and "Closing \<in> set ls"
  shows "enqueued (ls @ [l]) = enqueued ls"
proof -
  have "l \<noteq> Enqueued e" for e
    using queue_step_open ring_step_ok(2) [OF assms(2) ring_at_ok [OF assms(1)]] assms(1,3)
    by (auto simp: ring_at_def)
  then show ?thesis by (simp split: effect.split)
qed

end
