(* ===== verification/Sender_Threads.thy ===== *)
theory Sender_Threads
  imports Sender_Properties Ring_Clients
begin

text \<open>
  The sender engine and the application as two threads on the ingress ring. Sender_Engine runs a whole
  pass of \<open>Sender::run\<close> as one step; here the loop (src/sender/sender.cpp, from line 104 on) is a
  program whose calls of the ring are the single loads and stores of Ring_Steps, interleaved with those
  of the application in any way. The engine's handle on the ring is \<open>thr_consumer\<close> of the ring's state.
  What touches no shared memory, as the system calls of a transmission, is one step, and so is the
  encoding: the payload it reads belongs to a held slot, which no other thread writes
  (Concurrent_Ring).
\<close>

section \<open>The program\<close>

text \<open>
  Where the loop is: before the test of the stop flag, in \<open>try_acquire\<close>, before the event is encoded,
  before its slot is released, before the datagram is sent, and behind the loop.
\<close>

datatype sender_pc =
    Tx_head
  | Tx_acquire
  | Tx_encode slot_view
  | Tx_release "EncodeError + size_t"
  | Tx_send "EncodeError + size_t"
  | Tx_returned

record sender_threads =
  st_ring :: ring_threads
  st_engine :: Sender
  st_packet :: "byte list"
  st_os :: os
  st_at :: sender_pc

text \<open>The branch for an acquisition that gives no event: whether the loop goes on, and the wait.\<close>

definition no_event :: "Sender \<Rightarrow> AcquireError \<Rightarrow> (os, flow \<times> Sender) state" where
  "no_event s err =
    (if err = Empty then do {
       _ \<leftarrow> (if \<not> busy_spin_ingress (s_config s)
         then do { _ \<leftarrow> call (Sleep_call 1); State_Monad.return () }
         else State_Monad.return ());
       State_Monad.return (Continue, s)
     } else State_Monad.return (Break,
         if err \<noteq> AcquireError.Closed
         then s\<lparr>s_stats := (s_stats s)\<lparr>ingress_errors := ingress_errors (s_stats s) + 1\<rparr>\<rparr> else s))"

text \<open>The event is encoded into the first bytes of the packet buffer.\<close>

definition encode_event :: "Sender \<Rightarrow> byte list \<Rightarrow> event \<Rightarrow> (EncodeError + size_t) \<times> byte list" where
  "encode_event s packet e =
    (let n = unat (max_datagram_bytes (s_config s));
         (encoded, output) = encode_data e (s_session_id s) (s_packet_sequence s) (subspan packet 0 n)
     in (encoded, output @ drop n packet))"

definition after_flow :: "flow \<Rightarrow> sender_pc" where
  "after_flow f = (if f = Continue then Tx_head else Tx_returned)"

inductive sender_move :: "sender_threads \<Rightarrow> effect \<Rightarrow> sender_threads \<Rightarrow> bool" where
  tx_stopped: "st_at w = Tx_head \<Longrightarrow> s_stop_requested (st_engine w) \<Longrightarrow>
    sender_move w Silent (w\<lparr>st_at := Tx_returned\<rparr>)"
| tx_call: "st_at w = Tx_head \<Longrightarrow> \<not> s_stop_requested (st_engine w) \<Longrightarrow>
    consumer_step (st_ring w) Silent ring \<Longrightarrow>
    sender_move w Silent (w\<lparr>st_ring := ring, st_at := Tx_acquire\<rparr>)"
| tx_acquiring: "st_at w = Tx_acquire \<Longrightarrow> \<forall>answer. thr_acquiring (st_ring w) \<noteq> Return_acquire answer \<Longrightarrow>
    consumer_step (st_ring w) l ring \<Longrightarrow>
    sender_move w l (w\<lparr>st_ring := ring\<rparr>)"
| tx_no_event: "st_at w = Tx_acquire \<Longrightarrow> thr_acquiring (st_ring w) = Return_acquire (Inl err) \<Longrightarrow>
    consumer_step (st_ring w) Silent ring \<Longrightarrow>
    run_state (no_event (st_engine w) err) (st_os w) = ((f, s), os) \<Longrightarrow>
    sender_move w Silent (w\<lparr>st_ring := ring, st_engine := s, st_os := os, st_at := after_flow f\<rparr>)"
| tx_event: "st_at w = Tx_acquire \<Longrightarrow> thr_acquiring (st_ring w) = Return_acquire (Inr v) \<Longrightarrow>
    consumer_step (st_ring w) Silent ring \<Longrightarrow>
    s = (st_engine w)\<lparr>s_stats := (s_stats (st_engine w))\<lparr>events_in := events_in (s_stats (st_engine w)) + 1\<rparr>\<rparr> \<Longrightarrow>
    sender_move w Silent (w\<lparr>st_ring := ring, st_engine := s, st_at := Tx_encode v\<rparr>)"
| tx_encode: "st_at w = Tx_encode v \<Longrightarrow>
    encode_event (st_engine w) (st_packet w) (deref (thr_memory (st_ring w)) v) = (encoded, packet) \<Longrightarrow>
    sender_move w Silent (w\<lparr>st_packet := packet, st_at := Tx_release encoded\<rparr>)"
| tx_release: "st_at w = Tx_release encoded \<Longrightarrow> consumer_step (st_ring w) (Dequeued e) ring \<Longrightarrow>
    sender_move w (Dequeued e) (w\<lparr>st_ring := ring, st_at := Tx_send encoded\<rparr>)"
| tx_send: "st_at w = Tx_send encoded \<Longrightarrow>
    run_state (transmit (st_engine w)
      (subspan (st_packet w) 0 (unat (max_datagram_bytes (s_config (st_engine w))))) encoded
      (s_stats (st_engine w))) (st_os w) = (stats, os) \<Longrightarrow>
    advance_sequence ((st_engine w)\<lparr>s_stats := stats\<rparr>) encoded = (f, s) \<Longrightarrow>
    sender_move w Silent (w\<lparr>st_engine := s, st_os := os, st_at := after_flow f\<rparr>)"

text \<open>
  Next to the loop, the application publishes and closes the ring, and any thread asks for the stop.
\<close>

inductive sender_threads_step :: "sender_threads \<Rightarrow> effect \<Rightarrow> sender_threads \<Rightarrow> bool" where
  by_engine: "sender_move w l w' \<Longrightarrow> sender_threads_step w l w'"
| by_application: "producer_step (st_ring w) l ring \<Longrightarrow> sender_threads_step w l (w\<lparr>st_ring := ring\<rparr>)"
| by_application_owner: "owner_step (st_ring w) l ring \<Longrightarrow> sender_threads_step w l (w\<lparr>st_ring := ring\<rparr>)"
| by_stopper: "sender_threads_step w Silent (w\<lparr>st_engine := sender_request_stop (st_engine w)\<rparr>)"

inductive sender_trace :: "sender_threads \<Rightarrow> effect list \<Rightarrow> sender_threads \<Rightarrow> bool" where
  tx_start: "sender_trace w [] w"
| tx_more: "sender_trace w ls w' \<Longrightarrow> sender_threads_step w' l w'' \<Longrightarrow> sender_trace w (ls @ [l]) w''"

definition start_sender_threads :: "ring_threads \<Rightarrow> Sender \<Rightarrow> os \<Rightarrow> sender_threads" where
  "start_sender_threads ring s w = \<lparr>st_ring = ring, st_engine = s,
     st_packet = replicate (unat kMaxPacketBytes) 0, st_os = w, st_at = Tx_head\<rparr>"

section \<open>The invariant of the loop\<close>

abbreviation limit_of :: "Sender \<Rightarrow> u32" where
  "limit_of s \<equiv> max_datagram_bytes (s_config s)"

text \<open>The events \<open>es\<close> were sent and counted in \<open>stats\<close>.\<close>

definition tx_counted :: "EngineStats \<Rightarrow> event list \<Rightarrow> Sender \<Rightarrow> os \<Rightarrow> bool" where
  "tx_counted stats es s os \<longleftrightarrow>
     (let k = length (filter (sendable (limit_of s)) es)
      in sent_datagrams os = transmission (s_session_id s) (limit_of s) (s_destinations s) es
        \<and> balanced stats (length es) k (length (s_destinations s)) (send_outcomes os) \<and> k < 2 ^ 64 \<and> ingress_errors stats = 0)"

text \<open>The next packet sequence follows the last one.\<close>

definition tx_ready :: "event list \<Rightarrow> Sender \<Rightarrow> bool" where
  "tx_ready es s \<longleftrightarrow> unat (s_packet_sequence s) = length (filter (sendable (limit_of s)) es) + 1"

definition tx_sent :: "event list \<Rightarrow> Sender \<Rightarrow> os \<Rightarrow> bool" where
  "tx_sent es s os \<longleftrightarrow> tx_counted (s_stats s) es s os \<and> tx_ready es s"

text \<open>Another event was taken and counted in.\<close>

definition tx_taken :: "event list \<Rightarrow> Sender \<Rightarrow> os \<Rightarrow> bool" where
  "tx_taken es s os \<longleftrightarrow> (\<exists>stats. s_stats s = stats\<lparr>events_in := events_in stats + 1\<rparr>
     \<and> tx_counted stats es s os) \<and> tx_ready es s"

text \<open>The packet buffer holds the encoded event, if the event can be encoded.\<close>

definition tx_encoded :: "event \<Rightarrow> EncodeError + size_t \<Rightarrow> Sender \<Rightarrow> byte list \<Rightarrow> bool" where
  "tx_encoded e encoded s packet \<longleftrightarrow>
     (if sendable (limit_of s) e
      then \<exists>sz. encoded = Inr sz \<and> subspan (subspan packet 0 (unat (limit_of s))) 0 (unat sz)
        = packet_of (s_session_id s) (s_packet_sequence s) e
      else \<exists>err. encoded = Inl err)"

definition tx_at :: "effect list \<Rightarrow> sender_threads \<Rightarrow> bool" where
  "tx_at ls w = (let r = st_ring w; s = st_engine w; os = st_os w; idle = thr_acquiring r = Idle_consumer
    in case st_at w of
      Tx_head \<Rightarrow> idle \<and> \<not> holds_event r \<and> tx_sent (dequeued ls) s os
    | Tx_acquire \<Rightarrow> \<not> idle \<and> (holds_event r \<longleftrightarrow> given_event r) \<and> tx_sent (dequeued ls) s os
    | Tx_encode v \<Rightarrow> idle \<and> thr_view r = Some v \<and> tx_taken (dequeued ls) s os
    | Tx_release encoded \<Rightarrow> idle \<and> thr_view r \<noteq> None \<and> tx_taken (dequeued ls) s os
        \<and> tx_encoded (enqueued ls ! length (dequeued ls)) encoded s (st_packet w)
    | Tx_send encoded \<Rightarrow> idle \<and> \<not> holds_event r
        \<and> (\<exists>es e. dequeued ls = es @ [e] \<and> tx_taken es s os \<and> tx_encoded e encoded s (st_packet w))
    | Tx_returned \<Rightarrow> idle \<and> \<not> holds_event r \<and> tx_counted (s_stats s) (dequeued ls) s os
        \<and> (\<not> s_stop_requested s \<longrightarrow> Closing \<in> set ls \<and> dequeued ls = enqueued ls))"

definition tx_inv :: "nat \<Rightarrow> nat \<Rightarrow> nat \<Rightarrow> effect list \<Rightarrow> sender_threads \<Rightarrow> bool" where
  "tx_inv n st cap ls w \<longleftrightarrow> ring_at n st cap ls (st_ring w) \<and> sender_ok (st_engine w)
     \<and> length (st_packet w) = unat kMaxPacketBytes \<and> tx_at ls w"

lemmas tx_defs = tx_sent_def tx_taken_def tx_counted_def tx_ready_def tx_encoded_def sender_ok_def

section \<open>Every step keeps the invariant\<close>

lemma tx_inv_ring:
  assumes inv: "tx_inv n st cap ls w" and step: "producer_step (st_ring w) l r \<or> owner_step (st_ring w) l r"
  shows "tx_inv n st cap (ls @ [l]) (w\<lparr>st_ring := r\<rparr>)"
proof -
  note p = producer_side [OF step]
  have at: "ring_at n st cap ls (st_ring w)" using inv by (simp add: tx_inv_def)
  obtain es where es: "enqueued (ls @ [l]) = enqueued ls @ es" using p(5) by blast
  have next_event: "enqueued (ls @ [l]) ! length (dequeued ls) = enqueued ls ! length (dequeued ls)"
    if "thr_view (st_ring w) \<noteq> None"
    unfolding es using that ring_at_view(1) [OF at] by (auto simp: nth_append)
  have "given_event r = given_event (st_ring w)" by (simp add: given_event_def p(1))
  then have "tx_at (ls @ [l]) (w\<lparr>st_ring := r\<rparr>)"
    using inv next_event closed_is_final [OF at p(6)] p(4) [of ls]
    unfolding tx_inv_def tx_at_def
    by (cases "st_at w") (auto simp: Let_def p(1-3) simp del: effect_lists)
  then show ?thesis
    using inv ring_at_step [OF at p(6)] by (simp add: tx_inv_def)
qed

text \<open>What is said of the engine does not depend on the stop flag.\<close>

lemma tx_stop_kept [simp]:
  "tx_counted stats es (sender_request_stop s) os = tx_counted stats es s os"
  "tx_ready es (sender_request_stop s) = tx_ready es s"
  "tx_encoded e enc (sender_request_stop s) packet = tx_encoded e enc s packet"
  "sender_ok (sender_request_stop s) = sender_ok s" "s_stats (sender_request_stop s) = s_stats s"
  by (simp_all add: tx_defs sender_request_stop_def)

lemma tx_inv_stopper:
  assumes "tx_inv n st cap ls w"
  shows "tx_inv n st cap (ls @ [Silent]) (w\<lparr>st_engine := sender_request_stop (st_engine w)\<rparr>)"
proof -
  have "s_stop_requested (sender_request_stop s)" for s by (simp add: sender_request_stop_def)
  then show ?thesis
    using assms ring_at_silent [of n st cap ls "st_ring w"] unfolding tx_inv_def tx_at_def
    by (auto simp: Let_def tx_sent_def tx_taken_def split: sender_pc.splits)
qed

text \<open>A step of the ring that the loop makes.\<close>

lemma tx_inv_consumer:
  assumes inv: "tx_inv n st cap ls w" and step: "consumer_step (st_ring w) l (st_ring w')"
    and at: "tx_at (ls @ [l]) w'" and "sender_ok (st_engine w')"
    and "length (st_packet w') = unat kMaxPacketBytes"
  shows "tx_inv n st cap (ls @ [l]) w'"
proof -
  have "ring_step (st_ring w) l (st_ring w')" using step by (rule ring_step.by_consumer)
  then have "ring_at n st cap (ls @ [l]) (st_ring w')"
    using ring_at_step inv by (auto simp: tx_inv_def)
  then show ?thesis using assms(3-5) by (simp add: tx_inv_def)
qed

lemma encode_event_ok:
  assumes "sender_ok s" and "length packet = unat kMaxPacketBytes" and "tx_ready es s"
    and "addressable (payload e)" and "encode_event s packet e = (encoded, packet')"
  shows "length packet' = unat kMaxPacketBytes" and "tx_encoded e encoded s packet'"
proof -
  let ?n = "unat (limit_of s)"
  obtain outp where enc: "encode_data e (s_session_id s) (s_packet_sequence s) (subspan packet 0 ?n)
      = (encoded, outp)" and packet: "packet' = outp @ drop ?n packet"
    using assms(5) by (auto simp: encode_event_def Let_def split: prod.splits)
  have seq: "s_packet_sequence s \<noteq> 0" using assms(3) by (auto simp: tx_ready_def)
  have ok: "s_session_id s \<noteq> 0" "?n \<le> unat kMaxPacketBytes" using assms(1) by (simp_all add: sender_ok_def)
  note e = encode_step [OF assms(4) ok(1) seq assms(2) ok(2) enc]
  show len: "length packet' = unat kMaxPacketBytes" using e(1) packet by simp
  then have "length outp = ?n" using assms(2) ok(2) by (simp add: packet)
  then have "subspan packet' 0 ?n = outp" by (simp add: packet subspan_def)
  then show "tx_encoded e encoded s packet'"
    using e(2,3) by (simp add: tx_encoded_def)
qed

text \<open>The end of a pass.\<close>

lemma tx_send_ok:
  assumes "tx_taken es s os" and "tx_encoded e encoded s packet" and ok: "sender_ok s"
    and t: "run_state (transmit s (subspan packet 0 (unat (limit_of s))) encoded (s_stats s)) os = (stats, os')"
    and a: "advance_sequence (s\<lparr>s_stats := stats\<rparr>) encoded = (f, s')"
  shows "sender_ok s'" and "tx_counted (s_stats s') (es @ [e]) s' os'"
    and "f = Continue \<Longrightarrow> tx_ready (es @ [e]) s'" and "f = Break \<Longrightarrow> s_stop_requested s'"
proof -
  let ?f = "\<lambda>es. length (filter (sendable (limit_of s)) es)"
  obtain st where st: "s_stats s = st\<lparr>events_in := events_in st + 1\<rparr>" and c: "tx_counted st es s os"
    and seq: "unat (s_packet_sequence s) = ?f es + 1"
    using assms(1) by (auto simp: tx_taken_def tx_ready_def)
  have seq': "s_packet_sequence s = word_of_nat (?f es + 1)"
    using seq word_of_nat_unat [of "s_packet_sequence s" "?f es + 1"] by simp
  have lt: "?f es + 1 < 2 ^ 64" using seq unsigned_less [of "s_packet_sequence s", where ?'a = nat] by simp
  have T: "sent_datagrams os' = sent_datagrams os @ (if sendable (limit_of s) e
        then datagrams_for (s_session_id s) (s_packet_sequence s) (s_destinations s) e else [])
      \<and> (\<exists>outs. send_outcomes os' = send_outcomes os @ outs
        \<and> counted st (length (s_destinations s)) outs (sendable (limit_of s) e) stats)"
  proof (cases "sendable (limit_of s) e")
    case True
    then show ?thesis
      using run_transmit(2) [OF t [unfolded st]] assms(2) by (auto simp: tx_encoded_def datagrams_for_def)
  next
    case False
    then show ?thesis using run_transmit(1) [OF t [unfolded st]] assms(2) by (auto simp: tx_encoded_def)
  qed
  then obtain outs where outs: "send_outcomes os' = send_outcomes os @ outs"
    "counted st (length (s_destinations s)) outs (sendable (limit_of s) e) stats" by blast
  have s: "s_session_id s' = s_session_id s" "s_destinations s' = s_destinations s" "s_config s' = s_config s"
    "s_stats s' = stats"
    "f = Continue \<Longrightarrow> s_packet_sequence s' = s_packet_sequence s + (if sendable (limit_of s) e then 1 else 0)
      \<and> (sendable (limit_of s) e \<longrightarrow> s_packet_sequence s \<noteq> u64_max)"
    using a assms(2) by (auto simp: tx_encoded_def advance_sequence_def sender_request_stop_def split: if_splits)
  show "f = Break \<Longrightarrow> s_stop_requested s'"
    using a by (auto simp: advance_sequence_def sender_request_stop_def split: sum.splits if_splits)
  show "sender_ok s'" using ok by (simp add: sender_ok_def s)
  have "balanced st (length es) (?f es) (length (s_destinations s)) (send_outcomes os)" using c by (simp add: tx_counted_def Let_def)
  from balanced_step [OF this outs(2), folded outs(1)]
  have "balanced stats (length (es @ [e])) (?f (es @ [e])) (length (s_destinations s)) (send_outcomes os')"
    by (cases "sendable (limit_of s) e") simp_all
  moreover have "ingress_errors stats = 0" using c outs(2) by (simp add: tx_counted_def counted_def Let_def)
  ultimately show "tx_counted (s_stats s') (es @ [e]) s' os'"
    using c T lt by (simp add: tx_counted_def Let_def s transmission_append seq')
  show "tx_ready (es @ [e]) s'" if "f = Continue"
    using s(5) [OF that] seq unat_plus_1 [of "s_packet_sequence s"]
    by (auto simp: tx_ready_def s split: if_splits)
qed

lemma no_event_ok:
  assumes "run_state (no_event s err) os = ((f, s'), os')" and "err = Empty \<or> err = Closed"
  shows "tx_sent es s os \<Longrightarrow> tx_sent es s' os'" and "sender_ok s \<Longrightarrow> sender_ok s'"
    and "f = Continue \<longleftrightarrow> err = Empty"
  using assms by (auto simp: no_event_def balanced_def tx_defs Let_def split: if_splits)

lemma tx_inv_move:
  assumes "sender_move w l w'" and inv: "tx_inv n st cap ls w"
  shows "tx_inv n st cap (ls @ [l]) w'"
  using assms(1)
proof cases
  case tx_stopped
  then show ?thesis using inv ring_at_silent [of n st cap ls "st_ring w"]
    by (simp add: tx_inv_def tx_at_def Let_def tx_sent_def)
next
  case (tx_call ring)
  then show ?thesis
    using inv consumer_call [of "st_ring w" ring]
    by (intro tx_inv_consumer [OF inv]) (simp_all add: tx_inv_def tx_at_def Let_def)
next
  case (tx_acquiring ring)
  then show ?thesis
    using inv consumer_inner [of "st_ring w" l ring]
    by (intro tx_inv_consumer [OF inv]) (auto simp: tx_inv_def tx_at_def Let_def given_event_def)
next
  case (tx_no_event err ring f s os)
  note c = consumer_return [OF tx_no_event(5,4)]
  have no: "\<not> given_event (st_ring w)" by (simp add: given_event_def tx_no_event(4))
  then have "\<not> holds_event (st_ring w)" using inv tx_no_event(3) by (simp add: tx_inv_def tx_at_def Let_def)
  note e = refused_answer [OF _ tx_no_event(4) this, of n st cap ls]
  have "ring_at n st cap ls (st_ring w)" using inv by (simp add: tx_inv_def)
  note e = e [OF this] and k = no_event_ok [OF tx_no_event(6)]
  then show ?thesis
    using inv c no tx_no_event
    by (intro tx_inv_consumer [OF inv]; cases f)
      (auto simp: tx_inv_def tx_at_def Let_def after_flow_def tx_sent_def)
next
  case (tx_event v ring s)
  then show ?thesis
    using inv consumer_return [OF tx_event(5,4)]
    by (intro tx_inv_consumer [OF inv]) (auto simp: tx_inv_def tx_at_def Let_def tx_defs)
next
  case (tx_encode v encoded packet)
  have at: "ring_at n st cap ls (st_ring w)" "thr_view (st_ring w) = Some v"
    and t: "tx_taken (dequeued ls) (st_engine w) (st_os w)"
    using inv tx_encode(3) by (simp_all add: tx_inv_def tx_at_def Let_def)
  then have "tx_ready (dequeued ls) (st_engine w)" by (simp add: tx_taken_def)
  note e = encode_event_ok [OF _ _ this ring_at_addressable [OF at] tx_encode(4)]
  show ?thesis
    using inv e tx_encode ring_at_silent [OF at(1)] ring_at_view(2) [OF at] t
    by (simp add: tx_inv_def tx_at_def Let_def)
next
  case (tx_release encoded e ring)
  note c = consumer_release [OF tx_release(4)]
  obtain v where v: "thr_view (st_ring w) = Some v" "e = deref (thr_memory (st_ring w)) v" using c by blast
  have "ring_at n st cap ls (st_ring w)" using inv by (simp add: tx_inv_def)
  from ring_at_view(2) [OF this v(1)] have "e = enqueued ls ! length (dequeued ls)" by (simp add: v(2))
  then show ?thesis
    using inv c tx_release
    by (intro tx_inv_consumer [OF inv]) (simp_all add: tx_inv_def tx_at_def Let_def)
next
  case (tx_send encoded stats os f s)
  obtain es e where es: "dequeued ls = es @ [e]" "tx_taken es (st_engine w) (st_os w)"
    "tx_encoded e encoded (st_engine w) (st_packet w)"
    using inv tx_send(3) by (auto simp: tx_inv_def tx_at_def Let_def)
  have "sender_ok (st_engine w)" using inv by (simp add: tx_inv_def)
  note t = tx_send_ok [OF es(2,3) this tx_send(4,5)]
  show ?thesis
    using inv t es(1) tx_send ring_at_silent [of n st cap ls "st_ring w"]
    by (cases f) (simp_all add: tx_inv_def tx_at_def Let_def after_flow_def tx_sent_def)
qed

lemma tx_inv_step: "sender_threads_step w l w' \<Longrightarrow> tx_inv n st cap ls w \<Longrightarrow> tx_inv n st cap (ls @ [l]) w'"
  by (erule sender_threads_step.cases)
    (auto intro: tx_inv_move tx_inv_ring tx_inv_stopper)

lemma tx_inv_trace:
  "sender_trace w ls w' \<Longrightarrow> tx_inv n st cap [] w \<Longrightarrow> tx_inv n st cap ls w'"
  by (induction rule: sender_trace.induct) (auto intro: tx_inv_step)

text \<open>The engine keeps its identity.\<close>

lemma move_same_engine: "sender_move w l w' \<Longrightarrow> same_engine (st_engine w) (st_engine w')"
  by (erule sender_move.cases)
    (auto simp: same_engine_def no_event_def advance_sequence_def sender_request_stop_def
      split: sum.splits if_splits)

lemma threads_same_engine: "sender_trace w ls w' \<Longrightarrow> same_engine (st_engine w) (st_engine w')"
proof (induction rule: sender_trace.induct)
  case (tx_more w ls w' l w'')
  from tx_more.hyps(2) have "same_engine (st_engine w') (st_engine w'')"
    by cases (use move_same_engine in \<open>simp_all add: same_engine_def sender_request_stop_def\<close>)
  then show ?case using tx_more.IH by (simp add: same_engine_def)
qed (simp add: same_engine_def)

section \<open>The loop is never stuck\<close>

lemma tx_can_move:
  assumes inv: "tx_inv n st cap ls w" and "st_at w \<noteq> Tx_returned"
  shows "\<exists>l w'. sender_move w l w'"
proof (cases "st_at w")
  case Tx_head
  then have "thr_acquiring (st_ring w) = Idle_consumer" using inv by (simp add: tx_inv_def tx_at_def Let_def)
  from tx_call [OF Tx_head _ consumer_step.call_acquire [OF this]] tx_stopped [OF Tx_head]
  show ?thesis by blast
next
  case Tx_acquire
  have at: "threads_ok n st cap (st_ring w)" "thr_acquiring (st_ring w) \<noteq> Idle_consumer"
    using inv ring_at_ok Tx_acquire by (auto simp: tx_inv_def tx_at_def Let_def)
  show ?thesis
  proof (cases "\<exists>a. thr_acquiring (st_ring w) = Return_acquire a")
    case True
    then obtain a where a: "thr_acquiring (st_ring w) = Return_acquire a" ..
    note ret = consumer_step.return_acquire [OF a]
    show ?thesis
    proof (cases a)
      case (Inl err)
      obtain f s os where "run_state (no_event (st_engine w) err) (st_os w) = ((f, s), os)"
        by (metis prod.exhaust)
      from tx_no_event [OF Tx_acquire a [unfolded Inl] ret this] show ?thesis by blast
    next
      case (Inr v)
      from tx_event [OF Tx_acquire a [unfolded Inr] ret refl] show ?thesis by blast
    qed
  next
    case False
    then show ?thesis using consumer_can_step [OF at] tx_acquiring [OF Tx_acquire] by metis
  qed
next
  case (Tx_encode v)
  from sender_move.tx_encode [OF Tx_encode] show ?thesis by (metis prod.exhaust)
next
  case (Tx_release encoded)
  then have "ring_at n st cap ls (st_ring w)" "thr_acquiring (st_ring w) = Idle_consumer"
    "thr_view (st_ring w) \<noteq> None"
    using inv by (simp_all add: tx_inv_def tx_at_def Let_def)
  then show ?thesis using release_can_step sender_move.tx_release [OF Tx_release] by blast
next
  case (Tx_send encoded)
  from sender_move.tx_send [OF Tx_send] show ?thesis by (metis prod.exhaust)
qed (use assms(2) in simp)

text \<open>After a request to stop: the moves that the loop still makes, at most.\<close>

definition tx_work :: "sender_threads \<Rightarrow> nat" where
  "tx_work w = (case st_at w of
      Tx_returned \<Rightarrow> 0 | Tx_head \<Rightarrow> 1 | Tx_send _ \<Rightarrow> 2 | Tx_release _ \<Rightarrow> 3 | Tx_encode _ \<Rightarrow> 4
    | Tx_acquire \<Rightarrow> 4 + consumer_work (thr_acquiring (st_ring w)))"

lemma tx_work_decreases:
  assumes "sender_move w l w'" and inv: "tx_inv n st cap ls w" and "s_stop_requested (st_engine w)"
  shows "tx_work w' < tx_work w" and "s_stop_requested (st_engine w')"
proof -
  have acquiring: "thr_acquiring (st_ring w) \<noteq> Idle_consumer" if "st_at w = Tx_acquire"
    using inv that by (simp add: tx_inv_def tx_at_def Let_def)
  have "tx_work w' < tx_work w \<and> s_stop_requested (st_engine w')"
    using assms(1)
  proof cases
    case (tx_acquiring ring)
    then show ?thesis
      using consumer_work_decreases [OF tx_acquiring(4)] acquiring assms(3) by (simp add: tx_work_def)
  next
    case (tx_no_event err ring f s os)
    then show ?thesis
      using assms(3) by (cases f) (auto simp: tx_work_def after_flow_def no_event_def split: if_splits)
  next
    case (tx_send encoded stats os f s)
    then show ?thesis
      using assms(3)
      by (cases f) (auto simp: tx_work_def after_flow_def advance_sequence_def sender_request_stop_def
          split: sum.splits if_splits)
  qed (use assms(3) in \<open>simp_all add: tx_work_def\<close>)
  then show "tx_work w' < tx_work w" "s_stop_requested (st_engine w')" by simp_all
qed

end
