(* ===== verification/Ring_Calls.thy ===== *)
theory Ring_Calls
  imports Concurrent_Ring
begin

text \<open>
  A call that no other thread interferes with: run alone, with loads that are not stale, the
  programs of Ring_Steps compute exactly the functions \<open>try_publish\<close> and \<open>try_acquire\<close> of Spsc_Ring.
  So the theories that use these functions as single steps talk about the same code.
\<close>

section \<open>Publication\<close>

definition lone_producer_step :: "ring_threads \<Rightarrow> ring_threads \<Rightarrow> bool" where
  "lone_producer_step w w' \<longleftrightarrow> (\<exists>l. producer_step w l w')
     \<and> (\<forall>e r. thr_publishing w \<noteq> Return_publish e r)
     \<and> (\<forall>e pos. thr_publishing w = Load_read_cursor e pos \<longrightarrow>
          cached_read_position (thr_producer w') = consumer_position (thr_memory w))"

text \<open>What is left of a publication, as a function.\<close>

function rest_of_publish :: "byte list \<Rightarrow> SpscRing \<Rightarrow> producer_pc
    \<Rightarrow> (event \<times> PublishResult \<times> byte list \<times> SpscRing) option" where
  "rest_of_publish m r Idle_producer = None"
| "rest_of_publish m r (Load_state e) = rest_of_publish m r (after_state r e (pre_state m))"
| "rest_of_publish m r (Load_position e) = rest_of_publish m r (after_position r e (producer_position m))"
| "rest_of_publish m r (Load_read_cursor e pos) =
    rest_of_publish m (r\<lparr>cached_read_position := consumer_position m\<rparr>)
      (after_reload (r\<lparr>cached_read_position := consumer_position m\<rparr>) e pos)"
| "rest_of_publish m r (Store_header e pos) =
    rest_of_publish (fill_slot_header m (slot_of r pos) e) r (Copy_payload e pos 0)"
| "rest_of_publish m r (Copy_payload e pos k) = Some (e, Ok,
    write_u64 (store_bytes m (slot_of r pos + unat ring_slot_metadata_bytes + k) (drop k (payload e))) 64 (pos + 1), r)"
| "rest_of_publish m r (Return_publish e x) = Some (e, x, m, r)"
  by pat_completeness auto

termination
  by (relation "measure (\<lambda>(m, r, pc). producer_work pc)")
    (auto simp: after_state_def after_position_def after_reload_def)

lemma rest_is_try_publish:
  "has_header r \<Longrightarrow> rest_of_publish m r (Load_state e) = Some (e, try_publish m r e)"
  by (simp add: after_state_def after_position_def after_reload_def try_publish_def write_slot_def
      Let_def)

lemma lone_producer_step_rest:
  assumes "lone_producer_step w w'" and "thr_publishing w \<noteq> Idle_producer"
  shows "rest_of_publish (thr_memory w') (thr_producer w') (thr_publishing w') =
    rest_of_publish (thr_memory w) (thr_producer w) (thr_publishing w)"
proof -
  obtain l where step: "producer_step w l w'" using assms(1) by (auto simp: lone_producer_step_def)
  from step show ?thesis
  proof cases
    case (copy_payload e pos k)
    have "drop k (payload e) = payload e ! k # drop (Suc k) (payload e)"
      using copy_payload(4) by (simp add: Cons_nth_drop_Suc)
    then show ?thesis by (simp add: copy_payload copy_byte_def)
  next
    case (load_read_cursor e pos seen r)
    then show ?thesis using assms(1) by (auto simp: lone_producer_step_def)
  next
    case (return_publish e r)
    then show ?thesis using assms(1) by (simp add: lone_producer_step_def)
  qed (use assms in \<open>simp_all add: lone_producer_step_def\<close>)
qed

text \<open>The rest of the state is not touched.\<close>

definition same_consumer :: "ring_threads \<Rightarrow> ring_threads \<Rightarrow> bool" where
  "same_consumer w w' \<longleftrightarrow> thr_consumer w' = thr_consumer w \<and> thr_acquiring w' = thr_acquiring w
     \<and> thr_view w' = thr_view w"

lemma same_consumer_eq:
  "same_consumer w w' \<Longrightarrow> w' = w\<lparr>thr_memory := thr_memory w', thr_producer := thr_producer w',
    thr_publishing := thr_publishing w'\<rparr>"
  by (simp add: same_consumer_def)

lemma producer_step_frame: "producer_step w l w' \<Longrightarrow> same_consumer w w'"
  by (erule producer_step.cases) (simp_all add: same_consumer_def)

lemma lone_producer_run:
  assumes "lone_producer_step\<^sup>*\<^sup>* w w'" and "threads_ok n st cap w" and "thr_publishing w \<noteq> Idle_producer"
  shows "threads_ok n st cap w'" and "thr_publishing w' \<noteq> Idle_producer"
    and "rest_of_publish (thr_memory w') (thr_producer w') (thr_publishing w') =
      rest_of_publish (thr_memory w) (thr_producer w) (thr_publishing w)"
    and "same_consumer w w'"
proof -
  have "threads_ok n st cap w' \<and> thr_publishing w' \<noteq> Idle_producer
    \<and> rest_of_publish (thr_memory w') (thr_producer w') (thr_publishing w') =
      rest_of_publish (thr_memory w) (thr_producer w) (thr_publishing w) \<and> same_consumer w w'"
    using assms
  proof (induction rule: rtranclp_induct)
    case (step w1 w2)
    obtain l where l: "producer_step w1 l w2" using step.hyps(2) by (auto simp: lone_producer_step_def)
    have "thr_publishing w2 \<noteq> Idle_producer"
      using l step.hyps(2) by cases (auto simp: lone_producer_step_def after_state_def after_position_def
          after_reload_def)
    then show ?case
      using step producer_step_ok [OF l] lone_producer_step_rest [OF step.hyps(2)] producer_step_frame [OF l]
      by (simp add: same_consumer_def)
  qed (simp add: same_consumer_def)
  then show "threads_ok n st cap w'" "thr_publishing w' \<noteq> Idle_producer"
    "rest_of_publish (thr_memory w') (thr_producer w') (thr_publishing w') =
      rest_of_publish (thr_memory w) (thr_producer w) (thr_publishing w)" "same_consumer w w'"
    by simp_all
qed

lemma lone_producer_returns:
  assumes "threads_ok n st cap w" and "thr_publishing w \<noteq> Idle_producer"
  shows "\<exists>w' e r. lone_producer_step\<^sup>*\<^sup>* w w' \<and> thr_publishing w' = Return_publish e r"
  using assms
proof (induction "producer_work (thr_publishing w)" arbitrary: w rule: less_induct)
  case less
  show ?case
  proof (cases "\<exists>e r. thr_publishing w = Return_publish e r")
    case False
    have "\<exists>w1. lone_producer_step w w1"
    proof (cases "thr_publishing w")
      case (Load_read_cursor e pos)
      show ?thesis
        using producer_step.load_read_cursor [OF Load_read_cursor threads_okD(7) [OF less.prems(1)] order_refl refl]
          Load_read_cursor by (fastforce simp: lone_producer_step_def)
    qed (use False producer_can_step [OF less.prems] in \<open>auto simp: lone_producer_step_def\<close>)
    then obtain w1 where w1: "lone_producer_step w w1" ..
    then have run: "lone_producer_step\<^sup>*\<^sup>* w w1" by simp
    obtain l where "producer_step w l w1" using w1 by (auto simp: lone_producer_step_def)
    from less.hyps [OF producer_work_decreases [OF this less.prems(2)] lone_producer_run(1,2) [OF run less.prems]]
    show ?thesis using run by (meson rtranclp_trans)
  qed blast
qed

lemma lone_publication_iff:
  assumes ok: "threads_ok n st cap w" and start: "thr_publishing w = Load_state e"
  shows "lone_producer_step\<^sup>*\<^sup>* w w' \<and> thr_publishing w' = Return_publish e' r \<longleftrightarrow>
    e' = e \<and> try_publish (thr_memory w) (thr_producer w) e = (r, thr_memory w', thr_producer w')
      \<and> w' = w\<lparr>thr_memory := thr_memory w', thr_producer := thr_producer w',
          thr_publishing := Return_publish e r\<rparr>"
proof -
  have h: "has_header (thr_producer w)" using threads_okD(2) [OF ok] by (simp add: handle_ok_def)
  have busy: "thr_publishing w \<noteq> Idle_producer" by (simp add: start)
  have eq: "e2 = e \<and> try_publish (thr_memory w) (thr_producer w) e = (x, thr_memory w2, thr_producer w2)
      \<and> w2 = w\<lparr>thr_memory := thr_memory w2, thr_producer := thr_producer w2,
        thr_publishing := Return_publish e x\<rparr>"
    if "lone_producer_step\<^sup>*\<^sup>* w w2" "thr_publishing w2 = Return_publish e2 x" for w2 e2 x
    using lone_producer_run(3) [OF that(1) ok busy] that(2) rest_is_try_publish [OF h]
      same_consumer_eq [OF lone_producer_run(4) [OF that(1) ok busy]]
    by (simp add: start)
  obtain w2 e2 x where w2: "lone_producer_step\<^sup>*\<^sup>* w w2" "thr_publishing w2 = Return_publish e2 x"
    using lone_producer_returns [OF ok busy] by blast
  show ?thesis using eq w2 by (metis prod.inject)
qed

text \<open>
  C21. A publication that is not interfered with is \<open>try_publish\<close>: from the start of the call in any
  reachable state, the steps of the producer alone with fresh loads reach the return with an answer
  exactly when \<open>try_publish\<close> gives this answer, and then memory and handle are those that
  \<open>try_publish\<close> gives.
\<close>

theorem lone_publication_is_try_publish:
  assumes "new_threads config w0" and "ring_trace w0 ls w" and "thr_publishing w = Load_state e"
  shows "lone_producer_step\<^sup>*\<^sup>* w w' \<and> thr_publishing w' = Return_publish e' r \<longleftrightarrow>
    e' = e \<and> try_publish (thr_memory w) (thr_producer w) e = (r, thr_memory w', thr_producer w')
      \<and> w' = w\<lparr>thr_memory := thr_memory w', thr_producer := thr_producer w',
          thr_publishing := Return_publish e r\<rparr>"
  using lone_publication_iff [OF new_trace_ok [OF assms(1,2)] assms(3)] .

section \<open>Acquisition\<close>

definition lone_consumer_step :: "ring_threads \<Rightarrow> ring_threads \<Rightarrow> bool" where
  "lone_consumer_step w w' \<longleftrightarrow> (\<exists>l. consumer_step w l w')
     \<and> (\<forall>answer. thr_acquiring w \<noteq> Return_acquire answer)
     \<and> (\<forall>pos. thr_acquiring w = Load_closure pos \<longrightarrow>
          thr_acquiring w' = Load_write_cursor pos (pre_state (thr_memory w)))
     \<and> (\<forall>pos state. thr_acquiring w = Load_write_cursor pos state \<longrightarrow>
          cached_write_position (thr_consumer w') = producer_position (thr_memory w))"

function rest_of_acquire :: "byte list \<Rightarrow> SpscRing \<Rightarrow> consumer_pc
    \<Rightarrow> ((AcquireError + slot_view) \<times> SpscRing) option" where
  "rest_of_acquire m c Idle_consumer = None"
| "rest_of_acquire m c Check_acquired = rest_of_acquire m c (after_check m c)"
| "rest_of_acquire m c (Load_closure pos) = rest_of_acquire m c (Load_write_cursor pos (pre_state m))"
| "rest_of_acquire m c (Load_write_cursor pos state) =
    rest_of_acquire m (c\<lparr>cached_write_position := producer_position m\<rparr>)
      (after_write_cursor (c\<lparr>cached_write_position := producer_position m\<rparr>) pos state)"
| "rest_of_acquire m c (Read_header pos) = Some (read_slot m c pos)"
| "rest_of_acquire m c (Return_acquire answer) = Some (answer, c)"
  by pat_completeness auto

termination
  by (relation "measure (\<lambda>(m, c, pc). consumer_work pc)")
    (auto simp: after_check_def after_write_cursor_def)

lemma rest_is_try_acquire:
  "has_header c \<Longrightarrow> rest_of_acquire m c Check_acquired = Some (try_acquire m c)"
  by (simp add: after_check_def after_write_cursor_def try_acquire_def Let_def)

lemma lone_consumer_step_rest:
  assumes "lone_consumer_step w w'" and "thr_acquiring w \<noteq> Idle_consumer"
  shows "rest_of_acquire (thr_memory w') (thr_consumer w') (thr_acquiring w') =
    rest_of_acquire (thr_memory w) (thr_consumer w) (thr_acquiring w)"
proof -
  obtain l where step: "consumer_step w l w'" using assms(1) by (auto simp: lone_consumer_step_def)
  from step show ?thesis
  proof cases
    case (load_write_cursor pos state seen c)
    then show ?thesis using assms(1) by (auto simp: lone_consumer_step_def)
  next
    case (return_acquire answer)
    then show ?thesis using assms(1) by (simp add: lone_consumer_step_def)
  qed (use assms in \<open>simp_all add: lone_consumer_step_def\<close>)
qed

definition same_producer :: "ring_threads \<Rightarrow> ring_threads \<Rightarrow> bool" where
  "same_producer w w' \<longleftrightarrow> thr_producer w' = thr_producer w \<and> thr_publishing w' = thr_publishing w
     \<and> thr_memory w' = thr_memory w \<and> thr_view w' = thr_view w"

lemma same_producer_eq:
  "same_producer w w' \<Longrightarrow> w' = w\<lparr>thr_consumer := thr_consumer w', thr_acquiring := thr_acquiring w'\<rparr>"
  by (simp add: same_producer_def)

lemma lone_consumer_step_frame:
  assumes "lone_consumer_step w w'" and "thr_acquiring w \<noteq> Idle_consumer"
  shows "same_producer w w'" and "thr_acquiring w' \<noteq> Idle_consumer"
proof -
  obtain l where step: "consumer_step w l w'" using assms(1) by (auto simp: lone_consumer_step_def)
  from step have "same_producer w w' \<and> thr_acquiring w' \<noteq> Idle_consumer"
    by cases (use assms in \<open>simp_all add: lone_consumer_step_def same_producer_def after_check_def
        after_write_cursor_def\<close>)
  then show "same_producer w w'" "thr_acquiring w' \<noteq> Idle_consumer" by simp_all
qed

lemma lone_consumer_run:
  assumes "lone_consumer_step\<^sup>*\<^sup>* w w'" and "threads_ok n st cap w" and "thr_acquiring w \<noteq> Idle_consumer"
  shows "threads_ok n st cap w'" and "thr_acquiring w' \<noteq> Idle_consumer"
    and "rest_of_acquire (thr_memory w') (thr_consumer w') (thr_acquiring w') =
      rest_of_acquire (thr_memory w) (thr_consumer w) (thr_acquiring w)"
    and "same_producer w w'"
proof -
  have "threads_ok n st cap w' \<and> thr_acquiring w' \<noteq> Idle_consumer
    \<and> rest_of_acquire (thr_memory w') (thr_consumer w') (thr_acquiring w') =
      rest_of_acquire (thr_memory w) (thr_consumer w) (thr_acquiring w) \<and> same_producer w w'"
    using assms
  proof (induction rule: rtranclp_induct)
    case (step w1 w2)
    obtain l where l: "consumer_step w1 l w2" using step.hyps(2) by (auto simp: lone_consumer_step_def)
    show ?case
      using step consumer_step_ok [OF l] lone_consumer_step_rest [OF step.hyps(2)]
        lone_consumer_step_frame [OF step.hyps(2)]
      by (auto simp: same_producer_def)
  qed (simp add: same_producer_def)
  then show "threads_ok n st cap w'" "thr_acquiring w' \<noteq> Idle_consumer"
    "rest_of_acquire (thr_memory w') (thr_consumer w') (thr_acquiring w') =
      rest_of_acquire (thr_memory w) (thr_consumer w) (thr_acquiring w)" "same_producer w w'"
    by simp_all
qed

lemma lone_consumer_returns:
  assumes "threads_ok n st cap w" and "thr_acquiring w \<noteq> Idle_consumer"
  shows "\<exists>w' answer. lone_consumer_step\<^sup>*\<^sup>* w w' \<and> thr_acquiring w' = Return_acquire answer"
  using assms
proof (induction "consumer_work (thr_acquiring w)" arbitrary: w rule: less_induct)
  case less
  show ?case
  proof (cases "\<exists>answer. thr_acquiring w = Return_acquire answer")
    case False
    have "\<exists>w1. lone_consumer_step w w1"
    proof (cases "thr_acquiring w")
      case (Load_closure pos)
      show ?thesis
        using consumer_step.load_closure [OF Load_closure disjI1 [OF refl]] Load_closure
        by (fastforce simp: lone_consumer_step_def)
    next
      case (Load_write_cursor pos state)
      have "cached_write_position (thr_consumer w) \<le> producer_position (thr_memory w)"
        using threads_okD(6) [OF less.prems(1)] by (simp add: consumer_ok_def word_le_nat_alt)
      from consumer_step.load_write_cursor [OF Load_write_cursor this order_refl _ refl]
      show ?thesis using Load_write_cursor by (fastforce simp: lone_consumer_step_def)
    qed (use False consumer_can_step [OF less.prems] in \<open>auto simp: lone_consumer_step_def\<close>)
    then obtain w1 where w1: "lone_consumer_step w w1" ..
    then have run: "lone_consumer_step\<^sup>*\<^sup>* w w1" by simp
    obtain l where "consumer_step w l w1" using w1 by (auto simp: lone_consumer_step_def)
    from less.hyps [OF consumer_work_decreases [OF this less.prems(2)] lone_consumer_run(1,2) [OF run less.prems]]
    show ?thesis using run by (meson rtranclp_trans)
  qed blast
qed

lemma lone_acquisition_iff:
  assumes ok: "threads_ok n st cap w" and start: "thr_acquiring w = Check_acquired"
  shows "lone_consumer_step\<^sup>*\<^sup>* w w' \<and> thr_acquiring w' = Return_acquire answer \<longleftrightarrow>
    try_acquire (thr_memory w) (thr_consumer w) = (answer, thr_consumer w')
      \<and> w' = w\<lparr>thr_consumer := thr_consumer w', thr_acquiring := Return_acquire answer\<rparr>"
proof -
  have h: "has_header (thr_consumer w)" using threads_okD(3) [OF ok] by (simp add: handle_ok_def)
  have busy: "thr_acquiring w \<noteq> Idle_consumer" by (simp add: start)
  have eq: "try_acquire (thr_memory w) (thr_consumer w) = (x, thr_consumer w2)
      \<and> w2 = w\<lparr>thr_consumer := thr_consumer w2, thr_acquiring := Return_acquire x\<rparr>"
    if "lone_consumer_step\<^sup>*\<^sup>* w w2" "thr_acquiring w2 = Return_acquire x" for w2 x
    using lone_consumer_run(3) [OF that(1) ok busy] that(2) rest_is_try_acquire [OF h]
      same_producer_eq [OF lone_consumer_run(4) [OF that(1) ok busy]]
    by (simp add: start)
  obtain w2 x where w2: "lone_consumer_step\<^sup>*\<^sup>* w w2" "thr_acquiring w2 = Return_acquire x"
    using lone_consumer_returns [OF ok busy] by blast
  show ?thesis using eq w2 by (metis prod.inject)
qed

text \<open>
  C22. An acquisition that is not interfered with is \<open>try_acquire\<close>: from the start of the call in any
  reachable state, the steps of the consumer alone with fresh loads reach the return with an answer
  exactly when \<open>try_acquire\<close> gives this answer and handle; the memory is not written.
\<close>

theorem lone_acquisition_is_try_acquire:
  assumes "new_threads config w0" and "ring_trace w0 ls w" and "thr_acquiring w = Check_acquired"
  shows "lone_consumer_step\<^sup>*\<^sup>* w w' \<and> thr_acquiring w' = Return_acquire answer \<longleftrightarrow>
    try_acquire (thr_memory w) (thr_consumer w) = (answer, thr_consumer w')
      \<and> w' = w\<lparr>thr_consumer := thr_consumer w', thr_acquiring := Return_acquire answer\<rparr>"
  using lone_acquisition_iff [OF new_trace_ok [OF assms(1,2)] assms(3)] .

section \<open>A run of two threads\<close>

text \<open>The steps of a call, as a part of a run.\<close>

lemma ring_trace_append: "ring_trace w1 ls w2 \<Longrightarrow> ring_trace w0 ks w1 \<Longrightarrow> ring_trace w0 (ks @ ls) w2"
proof (induction rule: ring_trace.induct)
  case (one_more w ls w' l w'')
  then show ?case using ring_trace.one_more [of w0 "ks @ ls" w' l w''] by simp
qed simp

lemma ring_trace_step: "ring_step w l w' \<Longrightarrow> ring_trace w [l] w'"
  using ring_trace.one_more [OF ring_trace.no_step] by simp

lemma lone_producer_trace:
  "lone_producer_step\<^sup>*\<^sup>* w w' \<Longrightarrow> \<exists>ls. ring_trace w ls w' \<and> dequeued ls = []"
proof (induction rule: rtranclp_induct)
  case base
  show ?case using effect_lists(2) ring_trace.no_step by blast
next
  case (step w1 w2)
  then obtain ls l where t: "ring_trace w ls w1" "dequeued ls = []" "producer_step w1 l w2"
    by (auto simp: lone_producer_step_def)
  then have "dequeued (ls @ [l]) = []" by (auto elim: producer_step.cases)
  then show ?case using ring_trace.one_more [OF t(1) ring_step.by_producer [OF t(3)]] by blast
qed

lemma lone_consumer_trace:
  assumes "lone_consumer_step\<^sup>*\<^sup>* w w'" and "thr_acquiring w \<noteq> Idle_consumer"
  shows "\<exists>ls. ring_trace w ls w' \<and> enqueued ls = [] \<and> dequeued ls = []"
proof -
  from assms have "(\<exists>ls. ring_trace w ls w' \<and> enqueued ls = [] \<and> dequeued ls = [])
      \<and> thr_acquiring w' \<noteq> Idle_consumer"
  proof (induction rule: rtranclp_induct)
    case base
    show ?case using base effect_lists(1,2) ring_trace.no_step by blast
  next
    case (step w1 w2)
    then obtain ls l where t: "ring_trace w ls w1" "enqueued ls = []" "dequeued ls = []"
      "consumer_step w1 l w2" "thr_acquiring w1 \<noteq> Idle_consumer"
      by (auto simp: lone_consumer_step_def)
    then have "enqueued (ls @ [l]) = [] \<and> dequeued (ls @ [l]) = []" by (auto elim: consumer_step.cases)
    then show ?case
      using ring_trace.one_more [OF t(1) ring_step.by_consumer [OF t(4)]]
        lone_consumer_step_frame(2) [OF step.hyps(2) t(5)] by blast
  qed
  then show ?thesis by simp
qed

end
