(* ===== verification/Ring_Calls_Witnesses.thy ===== *)
theory Ring_Calls_Witnesses
  imports Ring_Calls Ring_Witnesses
begin

text \<open>
  A run of two threads on the ring of Ring_Witnesses: the producer publishes one event step by
  step, the consumer acquires it, and the properties of the concurrent ring are applied along it.
\<close>

definition demo_threads :: ring_threads where
  "demo_threads = start_threads demo_segment (make_ring demo_segment True) (make_ring demo_segment False)"

definition demo_calling :: ring_threads where
  "demo_calling = demo_threads\<lparr>thr_publishing := Load_state (demo_event 1)\<rparr>"

definition demo_returning :: ring_threads where
  "demo_returning = demo_threads\<lparr>thr_memory := segment demo_one, thr_producer := producer demo_one,
     thr_publishing := Return_publish (demo_event 1) Ok\<rparr>"

definition demo_acquiring :: ring_threads where
  "demo_acquiring = demo_returning\<lparr>thr_acquiring := Check_acquired\<rparr>"

definition demo_given :: ring_threads where
  "demo_given = demo_returning\<lparr>thr_consumer := consumer demo_held,
     thr_acquiring := Return_acquire (Inr demo_view)\<rparr>"

definition demo_holding :: ring_threads where
  "demo_holding = demo_given\<lparr>thr_acquiring := Idle_consumer, thr_view := Some demo_view\<rparr>"

lemma demo_new: "new_threads demo_config demo_threads"
proof -
  have a: "addressable (replicate 320 255)" by (simp add: addressable_def)
  show ?thesis
    unfolding new_threads_def demo_threads_def
    using demo_initialized attach_initialized(3) [OF a demo_initialized] a by blast
qed

lemma demo_geometry: "unat (cfg_slot_count demo_config) = 2" "ring_stride demo_threads = 64"
proof -
  show "unat (cfg_slot_count demo_config) = 2" by (simp add: demo_config_def)
  show "ring_stride demo_threads = 64"
    using demo_ok(1) by (simp add: ring_stride_def demo_threads_def start_threads_def system_ok_def
        producer_ok_def handle_ok_def demo_system_def)
qed

lemma demo_publish_handles:
  "try_publish demo_segment (make_ring demo_segment True) (demo_event 1) = (Ok, segment demo_one, producer demo_one)"
  "consumer demo_one = make_ring demo_segment False"
proof -
  obtain r m p where t: "try_publish demo_segment (make_ring demo_segment True) (demo_event 1) = (r, m, p)"
    by (metis prod_cases3)
  then have d: "r = Ok" "demo_one = demo_system\<lparr>segment := m, producer := p\<rparr>"
    using demo_publish by (auto simp: sys_publish_def demo_system_def)
  show "try_publish demo_segment (make_ring demo_segment True) (demo_event 1) = (Ok, segment demo_one, producer demo_one)"
    "consumer demo_one = make_ring demo_segment False"
    unfolding t d by (simp_all add: demo_system_def)
qed

lemma demo_acquire_handles:
  "try_acquire (segment demo_one) (make_ring demo_segment False) = (Inr demo_view, consumer demo_held)"
  using demo_acquire demo_publish_handles(2)
  by (auto simp: sys_acquire_def split: prod.splits dest: arg_cong [where f = consumer])

lemma demo_called: "ring_trace demo_threads [Silent] demo_calling"
proof -
  have "thr_publishing demo_threads = Idle_producer" "has_header (thr_producer demo_threads)"
    by (simp_all add: demo_threads_def start_threads_def make_ring_def)
  then show ?thesis
    using ring_trace_step [OF ring_step.by_producer [OF producer_step.call_publish]] demo_small(1)
    by (metis demo_calling_def)
qed

lemma demo_published:
  "lone_producer_step\<^sup>*\<^sup>* demo_calling demo_returning"
  "\<exists>ls. ring_trace demo_threads ls demo_returning \<and> enqueued ls = [demo_event 1] \<and> dequeued ls = []"
proof -
  note ok = new_trace_ok [OF demo_new demo_called]
  have "thr_publishing demo_calling = Load_state (demo_event 1)" by (simp add: demo_calling_def)
  from lone_publication_iff [OF ok this, of demo_returning "demo_event 1" Ok]
  show run: "lone_producer_step\<^sup>*\<^sup>* demo_calling demo_returning"
    using demo_publish_handles(1)
    by (simp add: demo_calling_def demo_returning_def demo_threads_def start_threads_def)
  obtain ls where ls: "ring_trace demo_calling ls demo_returning" "dequeued ls = []"
    using lone_producer_trace [OF run] by blast
  note t = ring_trace_append [OF ls(1) demo_called]
  have "contents (queue_of 2 64 demo_returning) = [demo_event 1]"
    using sys_eqs(1) [OF demo_one_ok(1)] demo_one_ok(2) by (simp add: queue_of_def demo_returning_def)
  then have "enqueued ([Silent] @ ls) = [demo_event 1]"
    using trace_fifo [OF t new_threads_ok(1) [OF demo_new]] new_threads_ok(2) [OF demo_new] ls(2)
    by (simp add: demo_geometry)
  then show "\<exists>ls. ring_trace demo_threads ls demo_returning \<and> enqueued ls = [demo_event 1] \<and> dequeued ls = []"
    using t ls(2) by (intro exI [of _ "[Silent] @ ls"]) simp
qed

lemma demo_acquired:
  "\<exists>ls. ring_trace demo_threads ls demo_acquiring \<and> enqueued ls = [demo_event 1] \<and> dequeued ls = []"
  "lone_consumer_step\<^sup>*\<^sup>* demo_acquiring demo_given"
  "\<exists>ls. ring_trace demo_threads ls demo_given \<and> enqueued ls = [demo_event 1] \<and> dequeued ls = []"
proof -
  obtain ls where ls: "ring_trace demo_threads ls demo_returning" "enqueued ls = [demo_event 1]" "dequeued ls = []"
    using demo_published(2) by blast
  have idle: "thr_acquiring demo_returning = Idle_consumer" "has_header (thr_consumer demo_returning)"
    by (simp_all add: demo_returning_def demo_threads_def start_threads_def make_ring_def)
  have "ring_step demo_returning Silent demo_acquiring"
    using ring_step.by_consumer [OF consumer_step.call_acquire [OF idle(1)]] idle(2)
    by (simp add: demo_acquiring_def)
  from ring_trace.one_more [OF ls(1) this]
  have t: "ring_trace demo_threads (ls @ [Silent]) demo_acquiring" .
  show "\<exists>ls. ring_trace demo_threads ls demo_acquiring \<and> enqueued ls = [demo_event 1] \<and> dequeued ls = []"
    using t ls by (intro exI [of _ "ls @ [Silent]"]) simp
  have c: "thr_acquiring demo_acquiring = Check_acquired" by (simp add: demo_acquiring_def)
  from lone_acquisition_iff [OF new_trace_ok [OF demo_new t] c, of demo_given "Inr demo_view"]
  show run: "lone_consumer_step\<^sup>*\<^sup>* demo_acquiring demo_given"
    using demo_acquire_handles
    by (simp add: demo_acquiring_def demo_given_def demo_returning_def demo_threads_def start_threads_def)
  obtain ks where ks: "ring_trace demo_acquiring ks demo_given" "enqueued ks = []" "dequeued ks = []"
    using lone_consumer_trace [OF run] by (auto simp: demo_acquiring_def)
  have cat: "enqueued (xs @ ys) = enqueued xs @ enqueued ys" "dequeued (xs @ ys) = dequeued xs @ dequeued ys"
    for xs ys by (simp_all add: enqueued_def dequeued_def)
  show "\<exists>ls. ring_trace demo_threads ls demo_given \<and> enqueued ls = [demo_event 1] \<and> dequeued ls = []"
    using ring_trace_append [OF ks(1) t] ls ks
    by (intro exI [of _ "(ls @ [Silent]) @ ks"]) (simp only: cat, simp)
qed

lemma demo_returns: "ring_step demo_given Silent demo_holding"
proof -
  have "thr_acquiring demo_given = Return_acquire (Inr demo_view)" by (simp add: demo_given_def)
  from ring_step.by_consumer [OF consumer_step.return_acquire [OF this]] show ?thesis
    by (simp add: demo_holding_def)
qed

section \<open>The properties along this run\<close>

theorem concurrent_ring_refines_queue_witness:
  "\<exists>ls. enqueued ls = [demo_event 1] \<and> dequeued ls = [] \<and> ring_trace demo_threads ls demo_given
    \<and> contents (queue_of 2 64 demo_holding) = [demo_event 1]"
proof -
  obtain ls where ls: "ring_trace demo_threads ls demo_given" "enqueued ls = [demo_event 1]" "dequeued ls = []"
    using demo_acquired(3) by blast
  show ?thesis
    using concurrent_ring_refines_queue [OF demo_new ls(1) demo_returns refl refl] ls
    by (auto simp: demo_geometry)
qed

theorem held_view_reads_next_event_witness:
  "thr_view demo_holding = Some demo_view \<and> deref (thr_memory demo_holding) demo_view = demo_event 1"
proof -
  obtain ls where ls: "ring_trace demo_threads ls demo_given" "enqueued ls = [demo_event 1]" "dequeued ls = []"
    using demo_acquired(3) by blast
  have v: "thr_view demo_holding = Some demo_view" by (simp add: demo_holding_def)
  show ?thesis
    using held_view_reads_next_event [OF demo_new ring_trace.one_more [OF ls(1) demo_returns] v] ls v by simp
qed

theorem no_slot_is_shared_witness:
  "consumer_reads demo_given = {224..<227} \<and> producer_writes demo_given \<inter> {224..<227} = {}"
proof -
  obtain ls where ls: "ring_trace demo_threads ls demo_given" using demo_acquired(3) by blast
  have "thr_view demo_given = None" by (simp add: demo_given_def demo_returning_def demo_threads_def start_threads_def)
  then have "consumer_reads demo_given = {224..<227}"
    by (simp add: consumer_reads_def) (simp add: demo_given_def demo_view_def)
  then show ?thesis using no_slot_is_shared [OF demo_new ls] by simp
qed

theorem calls_are_wait_free_witness:
  "producer_work (thr_publishing demo_calling) = 9 \<and> (\<exists>l w. producer_step demo_calling l w)"
  using calls_are_wait_free [OF demo_new demo_called] by (simp add: demo_calling_def demo_small)

theorem acquire_answers_are_right_witness:
  "deref (thr_memory demo_given) demo_view = demo_event 1"
proof -
  obtain ls where ls: "ring_trace demo_threads ls demo_given" "enqueued ls = [demo_event 1]" "dequeued ls = []"
    using demo_acquired(3) by blast
  have "thr_acquiring demo_given = Return_acquire (Inr demo_view)" by (simp add: demo_given_def)
  from acquire_answers_are_right [OF demo_new ls(1) this] show ?thesis by (simp add: ls(2,3))
qed

theorem lone_publication_is_try_publish_witness:
  "try_publish demo_segment (make_ring demo_segment True) (demo_event 1) =
    (Ok, thr_memory demo_returning, thr_producer demo_returning)"
proof -
  have "thr_publishing demo_calling = Load_state (demo_event 1)" by (simp add: demo_calling_def)
  from lone_publication_is_try_publish [OF demo_new demo_called this, of demo_returning "demo_event 1" Ok]
  show ?thesis
    using demo_published(1)
    by (simp add: demo_returning_def demo_calling_def demo_threads_def start_threads_def)
qed

theorem lone_acquisition_is_try_acquire_witness:
  "try_acquire (segment demo_one) (make_ring demo_segment False) = (Inr demo_view, thr_consumer demo_given)"
proof -
  obtain ls where ls: "ring_trace demo_threads ls demo_acquiring" using demo_acquired(1) by blast
  have "thr_acquiring demo_acquiring = Check_acquired" by (simp add: demo_acquiring_def)
  from lone_acquisition_is_try_acquire [OF demo_new ls this, of demo_given "Inr demo_view"]
  show ?thesis
    using demo_acquired(2)
    by (simp add: demo_given_def demo_acquiring_def demo_returning_def demo_threads_def start_threads_def)
qed

end
