(* ===== verification/Concurrent_Sender.thy ===== *)
theory Concurrent_Sender
  imports Sender_Threads Ring_Calls_Witnesses
begin

text \<open>
  The properties of the sender engine that runs concurrently with the application (Sender_Threads),
  from a new ring and a new engine on, and a run in which one event goes through.
\<close>

section \<open>Runs\<close>

lemma started_tx_inv:
  assumes "new_threads ring_config r" and "s = make_sender config seg ingress udp ds sid" and "sid \<noteq> 0"
    and "\<not> bad_sender_config config" and "sent_datagrams os = []"
  shows "tx_inv (unat (cfg_slot_count ring_config)) (ring_stride r)
    (unat (cfg_slot_payload_capacity ring_config)) [] (start_sender_threads r s os)"
proof -
  have "unat (ucast (max_datagram_bytes config) :: size_t) \<le> unat kMaxPacketBytes"
    using assms(4) by (simp add: bad_sender_config_def word_le_nat_alt not_less)
  then have ok: "sender_ok s" using assms(2,3) by (simp add: sender_ok_def make_sender_def unat_ucast_u32)
  have "send_outcomes os = []" using length_send_outcomes [of os] assms(5) by simp
  then have sent: "tx_sent [] s os"
    using assms(2,5)
    by (simp add: tx_defs make_sender_def zero_stats_def transmission_def balanced_def reached_def)
  show ?thesis
    using ok sent new_threads_idle [OF assms(1)] ring_at_new [OF assms(1)] by (simp add: tx_inv_def start_sender_threads_def tx_at_def Let_def)
qed

lemma sender_threads_run:
  assumes "new_threads ring_config r" and "s = make_sender config seg ingress udp ds sid" and "sid \<noteq> 0"
    and "\<not> bad_sender_config config" and "sent_datagrams os = []"
    and "sender_trace (start_sender_threads r s os) ls w"
  shows "tx_inv (unat (cfg_slot_count ring_config)) (ring_stride r)
      (unat (cfg_slot_payload_capacity ring_config)) ls w"
    and "s_session_id (st_engine w) = sid" "s_destinations (st_engine w) = ds" "s_config (st_engine w) = config"
  using tx_inv_trace [OF assms(6) started_tx_inv [OF assms(1-5)]] threads_same_engine [OF assms(6)] assms(2)
  by (simp_all add: same_engine_def start_sender_threads_def make_sender_def)

text \<open>The events that the loop is done with: all that it took, but one that it is about to send.\<close>

definition done_with :: "effect list \<Rightarrow> sender_threads \<Rightarrow> event list" where
  "done_with ls w = (case st_at w of Tx_send _ \<Rightarrow> butlast (dequeued ls) | _ \<Rightarrow> dequeued ls)"

lemma tx_inv_counted:
  assumes "tx_inv n st cap ls w"
  shows "\<exists>stats. tx_counted stats (done_with ls w) (st_engine w) (st_os w)
    \<and> ingress_errors (s_stats (st_engine w)) = 0
    \<and> (st_at w = Tx_head \<or> st_at w = Tx_returned \<longrightarrow> stats = s_stats (st_engine w))"
proof (cases "\<exists>encoded. st_at w = Tx_send encoded")
  case True
  then obtain es e stats where "dequeued ls = es @ [e]" "tx_counted stats es (st_engine w) (st_os w)"
    "s_stats (st_engine w) = stats\<lparr>events_in := events_in stats + 1\<rparr>"
    using assms by (auto simp: tx_inv_def tx_at_def Let_def tx_taken_def)
  then show ?thesis using True
    by (intro exI [of _ stats]) (auto simp: done_with_def tx_counted_def Let_def)
next
  case False
  have "\<exists>stats. tx_counted stats (dequeued ls) (st_engine w) (st_os w)
      \<and> (s_stats (st_engine w) = stats \<or> s_stats (st_engine w) = stats\<lparr>events_in := events_in stats + 1\<rparr>)
      \<and> (st_at w = Tx_head \<or> st_at w = Tx_returned \<longrightarrow> stats = s_stats (st_engine w))"
    using assms False by (cases "st_at w") (auto simp: tx_inv_def tx_at_def Let_def tx_sent_def tx_taken_def)
  moreover have "done_with ls w = dequeued ls" using False by (simp add: done_with_def split: sender_pc.split)
  ultimately show ?thesis by (auto simp: tx_counted_def Let_def)
qed

lemma tx_inv_done:
  assumes "tx_inv n st cap ls w"
  shows "\<exists>rest queued. enqueued ls = done_with ls w @ rest @ queued \<and> length rest \<le> 1 \<and> length queued \<le> n"
proof -
  have "tx_at ls w" "ring_at n st cap ls (st_ring w)" using assms by (simp_all add: tx_inv_def)
  then obtain rest queued where "dequeued ls = done_with ls w @ rest" "length rest \<le> 1"
    "enqueued ls = dequeued ls @ queued" "length queued \<le> n"
    using ring_at_fifo by (cases "st_at w") (fastforce simp: tx_at_def Let_def done_with_def)+
  then show ?thesis by (metis append_assoc)
qed

text \<open>
  C3. The concurrent sender: with the loop and the application interleaved load by load on the ring,
  what was handed to \<open>sendto\<close> is at every moment the encodings of the events the loop is done with, a
  prefix of the published ones in order, numbered from one without a gap, each to every destination;
  at the head of the loop and after it events_in counts exactly these events, packets_sent and
  send_errors the sends that succeeded and failed, events_out the events of which a send succeeded
  and events_dropped the others; and no acquisition ever fails with an ingress error.
\<close>

theorem concurrent_sender_transmits:
  assumes "new_threads ring_config r" and "s = make_sender config seg ingress udp ds sid" and "sid \<noteq> 0"
    and "\<not> bad_sender_config config" and "sent_datagrams os = []"
    and "sender_trace (start_sender_threads r s os) ls w" and "done = done_with ls w"
    and "stats = sender_stats (st_engine w)" and "outs = send_outcomes (st_os w)"
    and "k = length (filter (sendable (max_datagram_bytes config)) done)"
  shows "(\<exists>rest queued. enqueued ls = done @ rest @ queued \<and> length rest \<le> 1
      \<and> length queued \<le> unat (cfg_slot_count ring_config))
    \<and> sent_datagrams (st_os w) = transmission sid (max_datagram_bytes config) ds done
    \<and> ingress_errors stats = 0
    \<and> (st_at w = Tx_head \<or> st_at w = Tx_returned \<longrightarrow> events_in stats = of_nat (length done)
        \<and> events_out stats + events_dropped stats = of_nat (length done)
        \<and> packets_sent stats = of_nat (count_list outs True)
        \<and> send_errors stats = of_nat (count_list outs False)
        \<and> events_out stats = of_nat (length (filter (\<lambda>g. True \<in> set g) (groups (length ds) k outs))))"
proof -
  note t = sender_threads_run [OF assms(1-6)]
  obtain st where c: "tx_counted st done (st_engine w) (st_os w)" "ingress_errors (s_stats (st_engine w)) = 0"
    "st_at w = Tx_head \<or> st_at w = Tx_returned \<Longrightarrow> st = stats"
    using tx_inv_counted [OF t(1)] unfolding assms(7,8) sender_stats_def by blast
  have b: "balanced st (length done) k (length ds) outs"
    and "sent_datagrams (st_os w) = transmission sid (max_datagram_bytes config) ds done"
    using c(1) by (simp_all add: tx_counted_def Let_def t(2-4) assms(9,10))
  moreover have "events_in stats = of_nat (length done)
        \<and> events_out stats + events_dropped stats = of_nat (length done)
        \<and> packets_sent stats = of_nat (count_list outs True)
        \<and> send_errors stats = of_nat (count_list outs False)
        \<and> events_out stats = of_nat (length (filter (\<lambda>g. True \<in> set g) (groups (length ds) k outs)))"
    if "st_at w = Tx_head \<or> st_at w = Tx_returned"
    using b unfolding c(3) [OF that] balanced_def reached_def by (elim conjE) (intro conjI; assumption)
  ultimately show ?thesis
    using tx_inv_done [OF t(1), folded assms(7)] c(2) unfolding assms(8) sender_stats_def by blast
qed


text \<open>
  C4. The concurrent sender neither hangs nor loses an event: wherever the application stopped, in the
  middle of a publication or anywhere else, the loop can make its next step; after a request to stop
  every step of the loop brings its end nearer, at most 9 steps away; and when it ends without such a
  request, the application has closed the ring and every event ever published was taken and sent.
\<close>

theorem concurrent_sender_loses_nothing:
  assumes "new_threads ring_config r" and "s = make_sender config seg ingress udp ds sid" and "sid \<noteq> 0"
    and "\<not> bad_sender_config config" and "sent_datagrams os = []"
    and "sender_trace (start_sender_threads r s os) ls w"
  shows "(st_at w \<noteq> Tx_returned \<longrightarrow> (\<exists>l w'. sender_move w l w'))
    \<and> (s_stop_requested (st_engine w) \<longrightarrow> tx_work w \<le> 9
      \<and> (\<forall>l w'. sender_move w l w' \<longrightarrow> tx_work w' < tx_work w \<and> s_stop_requested (st_engine w')))
    \<and> (st_at w = Tx_returned \<and> \<not> s_stop_requested (st_engine w) \<longrightarrow> Closing \<in> set ls
      \<and> sent_datagrams (st_os w) = transmission sid (max_datagram_bytes config) ds (enqueued ls))"
proof -
  note t = sender_threads_run [OF assms(1-6)]
  have "dequeued ls = enqueued ls \<and> Closing \<in> set ls \<and> done_with ls w = dequeued ls"
    if "st_at w = Tx_returned" "\<not> s_stop_requested (st_engine w)"
    using t(1) that by (simp add: tx_inv_def tx_at_def Let_def done_with_def)
  moreover have "tx_work w \<le> 9"
    by (cases "st_at w"; cases "thr_acquiring (st_ring w)") (simp_all add: tx_work_def)
  ultimately show ?thesis
    using tx_can_move [OF t(1)] tx_inv_counted [OF t(1)] tx_work_decreases [OF _ t(1)]
    by (auto simp: tx_counted_def Let_def t(2-4))
qed

section \<open>A run in which an event goes through\<close>

lemma sender_trace_append:
  "sender_trace w1 ls w2 \<Longrightarrow> sender_trace w0 ks w1 \<Longrightarrow> sender_trace w0 (ks @ ls) w2"
proof (induction rule: sender_trace.induct)
  case (tx_more w ls w' l w'')
  then show ?case using sender_trace.tx_more [of w0 "ks @ ls" w' l w''] by simp
qed simp

lemma sender_trace_move: "sender_trace w0 ks w1 \<Longrightarrow> sender_move w1 l w2 \<Longrightarrow> sender_trace w0 (ks @ [l]) w2"
  by (rule sender_trace.tx_more [OF _ by_engine])

text \<open>The steps of a call of the ring as steps of the program.\<close>

lemma application_run:
  "lone_producer_step\<^sup>*\<^sup>* r r' \<Longrightarrow> \<exists>ls. sender_trace (w\<lparr>st_ring := r\<rparr>) ls (w\<lparr>st_ring := r'\<rparr>) \<and> dequeued ls = []"
proof (induction rule: rtranclp_induct)
  case base
  show ?case using sender_trace.tx_start effect_lists(2) by blast
next
  case (step r1 r2)
  then obtain ls l where t: "sender_trace (w\<lparr>st_ring := r\<rparr>) ls (w\<lparr>st_ring := r1\<rparr>)" "dequeued ls = []"
    "producer_step r1 l r2" by (auto simp: lone_producer_step_def)
  have "sender_threads_step (w\<lparr>st_ring := r1\<rparr>) l (w\<lparr>st_ring := r2\<rparr>)"
    using by_application [of "w\<lparr>st_ring := r1\<rparr>" l r2] t(3) by simp
  from sender_trace.tx_more [OF t(1) this] show ?case
    using t(2) producer_side(4) [of r1 l r2 ls] t(3) by auto
qed

abbreviation tx_acquiring_at :: "sender_threads \<Rightarrow> ring_threads \<Rightarrow> sender_threads" where
  "tx_acquiring_at w r \<equiv> w\<lparr>st_ring := r, st_at := Tx_acquire\<rparr>"

lemma engine_run:
  assumes "lone_consumer_step\<^sup>*\<^sup>* r r'" and "thr_acquiring r \<noteq> Idle_consumer"
  shows "\<exists>ls. sender_trace (tx_acquiring_at w r) ls (tx_acquiring_at w r') \<and> dequeued ls = []"
proof -
  from assms have "(\<exists>ls. sender_trace (tx_acquiring_at w r) ls (tx_acquiring_at w r') \<and> dequeued ls = [])
      \<and> thr_acquiring r' \<noteq> Idle_consumer"
  proof (induction rule: rtranclp_induct)
    case base
    show ?case using base sender_trace.tx_start effect_lists(2) by blast
  next
    case (step r1 r2)
    then obtain ls l where t: "sender_trace (tx_acquiring_at w r) ls (tx_acquiring_at w r1)" "dequeued ls = []"
      "consumer_step r1 l r2" "\<forall>a. thr_acquiring r1 \<noteq> Return_acquire a" "thr_acquiring r1 \<noteq> Idle_consumer"
      by (auto simp: lone_consumer_step_def)
    have "sender_move (tx_acquiring_at w r1) l ((tx_acquiring_at w r1)\<lparr>st_ring := r2\<rparr>)"
      by (rule sender_move.tx_acquiring) (use t(3,4) in simp_all)
    moreover have "(tx_acquiring_at w r1)\<lparr>st_ring := r2\<rparr> = tx_acquiring_at w r2" by simp
    ultimately have "sender_move (tx_acquiring_at w r1) l (tx_acquiring_at w r2)" by (simp only:)
    moreover have "dequeued (ls @ [l]) = []"
      using t(2,3,5) by (auto elim: consumer_step.cases)
    ultimately show ?case
      using sender_trace_move [OF t(1)] lone_consumer_step_frame(2) [OF step.hyps(2) t(5)] by blast
  qed
  then show ?thesis by simp
qed

text \<open>The rest of a pass that was given an event.\<close>

lemma rest_of_pass:
  assumes inv: "tx_inv n st cap ls w" and "st_at w = Tx_encode v"
  shows "\<exists>ks w'. sender_trace w ks w' \<and> dequeued ks = [deref (thr_memory (st_ring w)) v]
    \<and> (st_at w' = Tx_head \<or> st_at w' = Tx_returned)"
proof -
  let ?r = "st_ring w"
  have at: "ring_at n st cap ls ?r" "thr_acquiring ?r = Idle_consumer" "thr_view ?r = Some v"
    using assms by (simp_all add: tx_inv_def tx_at_def Let_def)
  obtain encoded packet where e: "encode_event (st_engine w) (st_packet w) (deref (thr_memory ?r) v)
      = (encoded, packet)" by fastforce
  define w1 where "w1 = w\<lparr>st_packet := packet, st_at := Tx_release encoded\<rparr>"
  have 1: "sender_move w Silent w1" unfolding w1_def by (rule sender_move.tx_encode [OF assms(2) e])
  obtain x r where r: "consumer_step ?r (Dequeued x) r" using release_can_step [OF at] by blast
  then have x: "x = deref (thr_memory ?r) v" using consumer_release [OF r] at(3) by auto
  define w2 where "w2 = w1\<lparr>st_ring := r, st_at := Tx_send encoded\<rparr>"
  have 2: "sender_move w1 (Dequeued x) w2"
    unfolding w2_def by (rule sender_move.tx_release) (use r in \<open>simp_all add: w1_def\<close>)
  have at2: "st_at w2 = Tx_send encoded" by (simp add: w2_def)
  obtain stats os f s where 3: "run_state (transmit (st_engine w2)
      (subspan (st_packet w2) 0 (unat (max_datagram_bytes (s_config (st_engine w2))))) encoded
      (s_stats (st_engine w2))) (st_os w2) = (stats, os)"
    "advance_sequence ((st_engine w2)\<lparr>s_stats := stats\<rparr>) encoded = (f, s)"
    by (metis prod.exhaust)
  note t = sender_trace_move [OF sender_trace_move [OF sender_trace_move [OF sender_trace.tx_start 1] 2]
      sender_move.tx_send [OF at2 3]]
  show ?thesis using t by (intro exI conjI; assumption?) (simp_all add: x after_flow_def)
qed

definition demo_tx_threads :: sender_threads where
  "demo_tx_threads = start_sender_threads demo_threads demo_sender demo_os"

lemma demo_tx_start:
  "tx_inv 2 64 (unat (cfg_slot_payload_capacity demo_config)) [] demo_tx_threads"
  "st_ring demo_tx_threads = demo_threads" "st_at demo_tx_threads = Tx_head"
  "\<not> s_stop_requested (st_engine demo_tx_threads)"
proof -
  have "(9 :: u32) \<noteq> 0" by simp
  from started_tx_inv [OF demo_new demo_sender_def this demo_config_ok demo_sent_nothing]
  show "tx_inv 2 64 (unat (cfg_slot_payload_capacity demo_config)) [] demo_tx_threads"
    by (simp only: demo_tx_threads_def demo_geometry)
qed (simp_all add: demo_tx_threads_def start_sender_threads_def demo_sender_def make_sender_def)

lemma demo_tx_published:
  "\<exists>ls. sender_trace demo_tx_threads ls (demo_tx_threads\<lparr>st_ring := demo_returning\<rparr>) \<and> dequeued ls = []"
proof -
  let ?w = demo_tx_threads
  have idle: "thr_publishing demo_threads = Idle_producer" "has_header (thr_producer demo_threads)"
    by (simp_all add: demo_threads_def start_threads_def make_ring_def)
  have "producer_step demo_threads Silent demo_calling"
    using producer_step.call_publish [OF idle(1)] idle(2) demo_small(1) by (metis demo_calling_def)
  from by_application [OF this [folded demo_tx_start(2)]]
  have 1: "sender_trace ?w [Silent] (?w\<lparr>st_ring := demo_calling\<rparr>)"
    using sender_trace.tx_more [OF sender_trace.tx_start] by fastforce
  obtain ks where "sender_trace (?w\<lparr>st_ring := demo_calling\<rparr>) ks (?w\<lparr>st_ring := demo_returning\<rparr>)"
    "dequeued ks = []" using application_run [OF demo_published(1)] by blast
  then show ?thesis using sender_trace_append [OF _ 1] by (intro exI [of _ "[Silent] @ ks"]) simp
qed

lemma demo_tx_given:
  "\<exists>ls. sender_trace demo_tx_threads ls (tx_acquiring_at demo_tx_threads demo_given) \<and> dequeued ls = []"
proof -
  let ?w = demo_tx_threads
  obtain ks where 1: "sender_trace ?w ks (?w\<lparr>st_ring := demo_returning\<rparr>)" "dequeued ks = []"
    using demo_tx_published by blast
  have "thr_acquiring demo_returning = Idle_consumer" "has_header (thr_consumer demo_returning)"
    by (simp_all add: demo_threads_def demo_returning_def start_threads_def make_ring_def)
  then have "consumer_step demo_returning Silent demo_acquiring"
    using consumer_step.call_acquire [of demo_returning] by (simp add: demo_acquiring_def)
  then have 2: "sender_move (?w\<lparr>st_ring := demo_returning\<rparr>) Silent (tx_acquiring_at ?w demo_acquiring)"
    using tx_call [of "?w\<lparr>st_ring := demo_returning\<rparr>" demo_acquiring] demo_tx_start by simp
  have "thr_acquiring demo_acquiring \<noteq> Idle_consumer" by (simp add: demo_acquiring_def)
  from engine_run [OF demo_acquired(2) this]
  obtain js where 3: "sender_trace (tx_acquiring_at ?w demo_acquiring) js (tx_acquiring_at ?w demo_given)"
    "dequeued js = []" by blast
  have cat: "dequeued (xs @ ys) = dequeued xs @ dequeued ys" for xs ys by (simp add: dequeued_def)
  show ?thesis
    using sender_trace_append [OF 3(1) sender_trace_move [OF 1(1) 2]] 1(2) 3(2)
    by (intro exI [of _ "(ks @ [Silent]) @ js"]) (simp only: cat, simp)
qed

lemma demo_holding_reads: "deref (thr_memory demo_holding) demo_view = demo_event 1"
proof -
  have "deref (segment demo_one) demo_view = demo_event 1" by code_simp
  then show ?thesis by (simp add: demo_holding_def demo_given_def demo_returning_def)
qed

lemma demo_tx_run:
  "\<exists>ls w. sender_trace demo_tx_threads ls w \<and> dequeued ls = [demo_event 1] \<and> (st_at w = Tx_head \<or> st_at w = Tx_returned)"
proof -
  let ?w = "tx_acquiring_at demo_tx_threads demo_given"
  obtain ls where t: "sender_trace demo_tx_threads ls ?w" "dequeued ls = []" using demo_tx_given by blast
  have a: "st_at ?w = Tx_acquire" "thr_acquiring (st_ring ?w) = Return_acquire (Inr demo_view)"
    by (simp_all add: demo_given_def)
  have h: "consumer_step (st_ring ?w) Silent demo_holding"
    using consumer_step.return_acquire [OF a(2)] by (simp add: demo_holding_def)
  define w1 where "w1 = ?w\<lparr>st_ring := demo_holding, st_engine := (st_engine ?w)\<lparr>s_stats :=
     (s_stats (st_engine ?w))\<lparr>events_in := events_in (s_stats (st_engine ?w)) + 1\<rparr>\<rparr>, st_at := Tx_encode demo_view\<rparr>"
  have t1: "sender_trace demo_tx_threads (ls @ [Silent]) w1"
    unfolding w1_def by (rule sender_trace_move [OF t(1) tx_event [OF a h refl]])
  have w1: "st_at w1 = Tx_encode demo_view" "st_ring w1 = demo_holding" by (simp_all add: w1_def)
  note i = tx_inv_trace [OF t1 demo_tx_start(1)]
  have "deref (thr_memory demo_holding) demo_view = demo_event 1" by (rule demo_holding_reads)
  with rest_of_pass [OF i w1(1)] obtain ks w' where k: "sender_trace w1 ks w'" "dequeued ks = [demo_event 1]"
    "st_at w' = Tx_head \<or> st_at w' = Tx_returned" by (auto simp: w1(2))
  have "dequeued ((ls @ [Silent]) @ ks) = dequeued ls @ dequeued ks" by (simp add: dequeued_def)
  then show ?thesis using sender_trace_append [OF k(1) t1] k(2,3) t(2) by (metis append_Nil)
qed

theorem concurrent_sender_transmits_witness:
  "\<exists>ls w. sender_trace demo_tx_threads ls w \<and> dequeued ls = [demo_event 1]
    \<and> sent_datagrams (st_os w) = [(packet_of 9 1 (demo_event 1), native demo_destination)]"
proof -
  obtain ls w where t: "sender_trace demo_tx_threads ls w" "dequeued ls = [demo_event 1]"
    "st_at w = Tx_head \<or> st_at w = Tx_returned" using demo_tx_run by blast
  then have d: "done_with ls w = [demo_event 1]" by (auto simp: done_with_def)
  have "(9 :: u32) \<noteq> 0" by simp
  from concurrent_sender_transmits [OF demo_new demo_sender_def this demo_config_ok demo_sent_nothing
      t(1) [unfolded demo_tx_threads_def] refl refl refl refl]
  have "sent_datagrams (st_os w) = transmission 9 60 [demo_destination] [demo_event 1]"
    by (simp only: d demo_limit)
  then show ?thesis
    using t demo_sendable by (auto simp: transmission_def datagrams_for_def)
qed

theorem concurrent_sender_loses_nothing_witness:
  "\<exists>ls w l w'. sender_trace demo_tx_threads ls w \<and> dequeued ls = [] \<and> thr_acquiring (st_ring w) = Return_acquire (Inr demo_view)
    \<and> sender_move w l w'"
proof -
  let ?w = "tx_acquiring_at demo_tx_threads demo_given"
  obtain ls where t: "sender_trace demo_tx_threads ls ?w" "dequeued ls = []" using demo_tx_given by blast
  have "(9 :: u32) \<noteq> 0" by simp
  from concurrent_sender_loses_nothing [OF demo_new demo_sender_def this demo_config_ok demo_sent_nothing
      t(1) [unfolded demo_tx_threads_def]]
  obtain l w' where "sender_move ?w l w'" by (auto simp: demo_tx_threads_def)
  moreover have "thr_acquiring (st_ring ?w) = Return_acquire (Inr demo_view)" by (simp add: demo_given_def)
  ultimately show ?thesis using t by blast
qed

end
