(* ===== verification/Decoder.thy ===== *)
theory Decoder
  imports Protocol_Types
begin

text \<open>
  \<open>decode_data\<close> (src/protocol/decoder.cpp). The payload view the decoder returns is the
  subspan of the packet it covers, given by its bytes. The lemmas show that the decoder accepts
  exactly the one-event DATA packets of docs/protocol.md and returns what they carry.
\<close>

definition decode_data :: "byte list \<Rightarrow> DecodeError + decoded_data_view" where
  "decode_data packet =
    (if span_size packet < kCommonHeaderBytes then Inl Truncated
     else if span_size packet > kMaxPacketBytes then Inl PacketTooLarge
     else if packet ! 0 \<noteq> kMagic then Inl InvalidMagic
     else
       let version_and_type = packet ! 1
       in if drop_bit 4 version_and_type \<noteq> kVersion then Inl UnsupportedVersion
     else if version_and_type AND 0x0f \<noteq> message_type_value Data then Inl UnsupportedType
     else if ucast (read_u16 packet 2) \<noteq> span_size packet then Inl PacketLengthMismatch
     else
       let session_id = read_u32 packet 4
       in if session_id = 0 then Inl InvalidSessionId
     else if span_size packet < kMinDataPacketBytes then Inl Truncated
     else
       let packet_sequence = read_u64 packet 8
       in if packet_sequence = 0 then Inl InvalidPacketSequence
     else
       let event_sequence = read_u64 packet 16
       in if event_sequence = 0 then Inl InvalidEventSequence
     else
       let timestamp = read_u64 packet 24;
           stream = read_u32 packet 32
       in if read_u32 packet 36 \<noteq> 0 then Inl MalformedFrame
     else
       let payload_size = (ucast (read_u16 packet 40) :: size_t)
       in if payload_size > kMaxSingleEventPayloadBytes then Inl MalformedFrame
     else
       let frame_size =
             align_up (kEventFrameHeaderBytes + payload_size) kEventFrameAlignmentBytes
       in if \<not> has_bytes (span_size packet) kDataFixedBytes frame_size then Inl MalformedFrame
     else
       let payload_offset = kDataFixedBytes + kEventFrameHeaderBytes;
           padding = subspan packet (unat (payload_offset + payload_size))
             (unat (kDataFixedBytes + frame_size - (payload_offset + payload_size)))
       in if \<not> list_all (\<lambda>value. value = 0) padding then Inl NonZeroPadding
     else if span_size packet \<noteq> kDataFixedBytes + frame_size then Inl UnsupportedBatch
     else Inr \<lparr>dd_session_id = session_id, dd_packet_sequence = packet_sequence,
            dd_event = \<lparr>stream_id = stream, sequence = event_sequence,
              source_timestamp_ns = timestamp,
              payload = subspan packet (unat payload_offset) (unat payload_size)\<rparr>\<rparr>)"

section \<open>Reading a packet with a well-formed header\<close>

lemma nth_data_header: "i < 42 \<Longrightarrow> (data_header len sid seq e @ rest) ! i = data_header len sid seq e ! i"
  by (simp add: nth_append)

lemma header_reads:
  fixes e :: event and rest :: "byte list" and len :: nat and sid :: u32 and seq :: u64
  defines "p \<equiv> data_header len sid seq e @ rest"
  shows "p ! 0 = 0x4c" "p ! Suc 0 = 0x11"
    and "read_u16 p 2 = word_of_nat len" "read_u32 p 4 = sid" "read_u64 p 8 = seq"
    and "read_u64 p 16 = sequence e" "read_u64 p 24 = source_timestamp_ns e"
    and "read_u32 p 32 = stream_id e" "read_u32 p 36 = 0"
    and "read_u16 p 40 = word_of_nat (length (payload e))"
  unfolding p_def
  by (simp add: data_header_def,
      (rule read_u16_digits read_u32_digits read_u64_digits
       | simp add: data_header_def nth_append)+)

lemma ucast_u16_of_nat: "n < 65536 \<Longrightarrow> ucast (word_of_nat n :: u16) = (word_of_nat n :: size_t)"
  by (rule word_of_nat_unat) (simp add: unsigned_ucast_eq unat_of_nat take_bit_nat_eq_self_iff)

text \<open>
  A packet whose first frame is well formed and which ends at its declared length is accepted
  when the frame is its last byte, and is an unsupported batch when bytes follow.
\<close>

lemma decode_first_frame:
  assumes e: "encodable sid seq e"
    and len: "len = packet_len (length (payload e)) + length rest" and "len \<le> 1416"
  shows "decode_data (first_frame_packet len sid seq e @ rest) =
    (if rest = [] then
       Inr \<lparr>dd_session_id = sid, dd_packet_sequence = seq,
         dd_event = \<lparr>stream_id = stream_id e, sequence = sequence e,
           source_timestamp_ns = source_timestamp_ns e, payload = payload e\<rparr>\<rparr>
     else Inl UnsupportedBatch)"
proof -
  let ?n = "length (payload e)"
  define p where "p = first_frame_packet len sid seq e @ rest"
  define ps :: size_t where "ps = word_of_nat ?n"
  define fs where "fs = align_up (6 + ps) 4"
  have n: "?n \<le> 1374" using e by (simp add: encodable_def)
  have p: "p = data_header len sid seq e
      @ (payload e @ replicate (padding_len ?n) 0 @ rest)"
    by (simp add: p_def first_frame_packet_def)
  note reads = header_reads [of len sid seq e "payload e @ replicate (padding_len ?n) 0 @ rest",
      folded p]
  have lp: "length p = len" using len by (simp add: p_def)
  have us: "unat (span_size p) = len"
    using assms(3) lp by (simp add: unat_span_size addressable_def)
  have ge: "44 \<le> len" using packet_len_min [of ?n] len by simp
  have rl: "ucast (read_u16 p 2) = span_size p"
    using assms(3) lp by (simp add: reads ucast_u16_of_nat span_size_def)
  have rp: "ucast (read_u16 p 40) = ps"
    using n by (simp add: reads ucast_u16_of_nat ps_def)
  have ups: "unat ps = ?n" using n by (simp add: unat_of_nat ps_def)
  have psn: "unat ps \<le> 1374" using n ups by simp
  note sizes = frame_sizes [OF psn, folded fs_def, unfolded ups]
  have pad: "subspan p (42 + ?n) (padding_len ?n) = replicate (padding_len ?n) 0"
    by (simp add: p subspan_def)
  have pay: "subspan p 42 ?n = payload e"
    by (simp add: p subspan_def)
  have hb: "has_bytes (span_size p) 36 fs"
    using us sizes(1) len by (simp add: has_bytes_iff packet_len_def)
  have eqend: "span_size p = 36 + fs \<longleftrightarrow> rest = []"
    using us sizes(2) len by (auto simp: word_unat_eq_iff)
  have guards: "\<not> span_size p < 8" "\<not> 1416 < span_size p" "\<not> span_size p < 44" "\<not> 1374 < ps"
    using ge assms(3) us n ups by (simp_all add: word_less_nat_alt)
  have "(36 :: size_t) + 6 = 42" "p ! 1 = 0x11" by (simp_all add: reads)
  then show ?thesis
    unfolding p_def [symmetric] decode_data_def Let_def wire_constants rp fs_def [symmetric]
    using e guards
    by (simp only: rl sizes(3,4) pad hb eqend ups)
      (simp add: reads encodable_def pay list_all_iff)
qed

section \<open>Accepted packets are canonical\<close>

lemma version_type_byte:
  fixes b :: byte
  assumes "drop_bit 4 b = 1" and "b AND 15 = 1"
  shows "b = 0x11"
proof -
  have "unat b div 16 = 1"
    using arg_cong [OF assms(1), of unat] by (simp add: unat_drop_bit_eq drop_bit_nat_def)
  moreover have "unat b mod 16 = 1"
    using arg_cong [OF assms(2), of unat] unat_and_pow2_minus_1 [of b 4] by simp
  ultimately have "unat b = 17" by presburger
  then show ?thesis using word_of_nat_unat [of b 17] by simp
qed

lemma list_all_zero: "list_all (\<lambda>v. v = 0) xs \<Longrightarrow> xs = replicate (length xs) 0"
  by (induction xs) auto

text \<open>The tests a packet has passed when the decoder returns a view of it.\<close>

lemma decode_data_tests:
  fixes p :: "byte list"
  defines "ps \<equiv> ucast (read_u16 p 40) :: size_t"
  assumes "addressable p" and dec: "decode_data p = Inr d"
  shows "44 \<le> length p" "length p \<le> 1416" "p ! 0 = 0x4c" "p ! 1 = 0x11"
    and "ucast (read_u16 p 2) = span_size p"
    and "read_u32 p 4 \<noteq> 0" "read_u64 p 8 \<noteq> 0" "read_u64 p 16 \<noteq> 0" "read_u32 p 36 = 0"
    and "unat ps \<le> 1374" "length p = packet_len (unat ps)"
    and "list_all (\<lambda>v. v = 0) (subspan p (42 + unat ps) (padding_len (unat ps)))"
    and "d = \<lparr>dd_session_id = read_u32 p 4, dd_packet_sequence = read_u64 p 8,
         dd_event = \<lparr>stream_id = read_u32 p 32, sequence = read_u64 p 16,
           source_timestamp_ns = read_u64 p 24, payload = subspan p 42 (unat ps)\<rparr>\<rparr>"
proof -
  define fs where "fs = align_up (6 + ps) 4"
  have us: "unat (span_size p) = length p" using assms(2) by (rule unat_span_size)
  have tests: "\<not> span_size p < 8" "\<not> 1416 < span_size p" "p ! 0 = 0x4c"
      "drop_bit 4 (p ! 1) = 1" "p ! 1 AND 15 = 1" "ucast (read_u16 p 2) = span_size p"
      "read_u32 p 4 \<noteq> 0" "\<not> span_size p < 44" "read_u64 p 8 \<noteq> 0" "read_u64 p 16 \<noteq> 0"
      "read_u32 p 36 = 0" "\<not> 1374 < ps" "has_bytes (span_size p) 36 fs"
      "list_all (\<lambda>v. v = 0) (subspan p (unat (42 + ps)) (unat (36 + fs - (42 + ps))))"
      "span_size p = 36 + fs"
      "d = \<lparr>dd_session_id = read_u32 p 4, dd_packet_sequence = read_u64 p 8,
         dd_event = \<lparr>stream_id = read_u32 p 32, sequence = read_u64 p 16,
           source_timestamp_ns = read_u64 p 24, payload = subspan p 42 (unat ps)\<rparr>\<rparr>"
    using dec
    unfolding decode_data_def Let_def wire_constants ps_def [symmetric] fs_def [symmetric]
    by (simp_all split: if_splits)
  show n: "unat ps \<le> 1374" using tests(12) by (simp add: word_less_nat_alt)
  note sizes = frame_sizes [OF n, folded fs_def]
  show "44 \<le> length p" "length p \<le> 1416"
    using tests(2,8) us by (simp_all add: word_less_nat_alt)
  show "p ! 1 = 0x11" using tests(4,5) by (rule version_type_byte)
  show "length p = packet_len (unat ps)" using tests(15) us sizes(2) by simp
  show "list_all (\<lambda>v. v = 0) (subspan p (42 + unat ps) (padding_len (unat ps)))"
    using tests(14) by (simp only: sizes)
  show "d = \<lparr>dd_session_id = read_u32 p 4, dd_packet_sequence = read_u64 p 8,
         dd_event = \<lparr>stream_id = read_u32 p 32, sequence = read_u64 p 16,
           source_timestamp_ns = read_u64 p 24, payload = subspan p 42 (unat ps)\<rparr>\<rparr>"
    by (rule tests)
qed (use dec in \<open>simp_all add: decode_data_def Let_def wire_constants split: if_splits\<close>)

text \<open>An accepted packet is the layout of the view that is returned.\<close>

lemma decoded_packet_of:
  assumes "addressable p" and dec: "decode_data p = Inr d"
  shows "encodable (dd_session_id d) (dd_packet_sequence d) (dd_event d)"
    and "p = packet_of (dd_session_id d) (dd_packet_sequence d) (dd_event d)"
proof -
  note t = decode_data_tests [OF assms]
  define n where "n = unat (ucast (read_u16 p 40) :: size_t)"
  note t = t [folded n_def]
  have ev: "length (payload (dd_event d)) = n" "42 + n + padding_len n = length p"
    using t(11) padding_len(1) [of n] by (simp_all add: t(13))
  show "encodable (dd_session_id d) (dd_packet_sequence d) (dd_event d)"
    using t ev by (simp add: encodable_def)
  have len16: "word_of_nat (length p) = read_u16 p 2"
    using ucast_ucast_u16 [of "read_u16 p 2"] by (simp add: t(5) span_size_def ucast_of_nat)
  have n16: "word_of_nat n = read_u16 p 40" by (simp add: n_def ucast_ucast_u16)
  have first: "[p ! 0, p ! 1] = subspan p 0 2"
    using t(1) by (cases p rule: list.exhaust; cases "tl p" rule: list.exhaust)
      (auto simp: subspan_def)
  have pad: "replicate (padding_len n) 0 = subspan p (42 + n) (padding_len n)"
    using list_all_zero [OF t(12)] ev(2) by simp
  have fields: "dd_session_id d = read_u32 p 4" "dd_packet_sequence d = read_u64 p 8"
      "sequence (dd_event d) = read_u64 p 16" "source_timestamp_ns (dd_event d) = read_u64 p 24"
      "stream_id (dd_event d) = read_u32 p 32" "payload (dd_event d) = subspan p 42 n"
    by (simp_all add: t(13))
  have len_n: "length (subspan p 42 n) = n" using ev(1) by (simp only: fields)
  have two: "p ! 1 = 0x11" "packet_len n = length p" using t(4,11) by simp_all
  have "packet_of (dd_session_id d) (dd_packet_sequence d) (dd_event d) =
      [p ! 0, p ! 1] @ le_bytes 2 (read_u16 p 2) @ le_bytes 4 (read_u32 p 4)
      @ le_bytes 8 (read_u64 p 8) @ le_bytes 8 (read_u64 p 16) @ le_bytes 8 (read_u64 p 24)
      @ le_bytes 4 (read_u32 p 32) @ le_bytes 4 (read_u32 p 36) @ le_bytes 2 (read_u16 p 40)
      @ subspan p 42 n @ subspan p (42 + n) (padding_len n)"
    by (simp only: packet_of_def first_frame_packet_def data_header_def fields len_n two t(3,9)
        len16 n16 pad append_assoc)
  also have "\<dots> = subspan p 0 (42 + (n + padding_len n))"
    unfolding first using t(1) by (simp add: le_bytes_read subspan_join)
  also have "42 + (n + padding_len n) = length p" using ev(2) by simp
  finally show "p = packet_of (dd_session_id d) (dd_packet_sequence d) (dd_event d)"
    by (simp add: subspan_all)
qed

section \<open>The decoder's contract\<close>

lemma decode_packet_of:
  assumes "encodable sid seq e"
  shows "decode_data (packet_of sid seq e) =
    Inr \<lparr>dd_session_id = sid, dd_packet_sequence = seq, dd_event = e\<rparr>"
  using decode_first_frame [OF assms, of "packet_len (length (payload e))" "[]"]
    packet_len_max [of "length (payload e)"] assms
  by (simp add: packet_of_def encodable_def)

text \<open>
  C25. The decoder accepts exactly the one-event DATA packets of the protocol: a datagram decodes
  to a view if and only if the view's session, packet and event sequences are nonzero, its
  payload is within the limit, and the datagram is, byte for byte, the version 1 layout of that
  view. No two byte sequences decode to the same view, no trailing byte or nonzero padding byte
  is ever accepted.
\<close>

theorem decode_data_accepts_exactly_layout:
  assumes "addressable p"
  shows "decode_data p = Inr d \<longleftrightarrow>
    encodable (dd_session_id d) (dd_packet_sequence d) (dd_event d)
    \<and> p = packet_of (dd_session_id d) (dd_packet_sequence d) (dd_event d)"
proof
  assume "decode_data p = Inr d"
  with decoded_packet_of [OF assms] show
    "encodable (dd_session_id d) (dd_packet_sequence d) (dd_event d)
     \<and> p = packet_of (dd_session_id d) (dd_packet_sequence d) (dd_event d)" by blast
next
  assume "encodable (dd_session_id d) (dd_packet_sequence d) (dd_event d)
     \<and> p = packet_of (dd_session_id d) (dd_packet_sequence d) (dd_event d)"
  then show "decode_data p = Inr d"
    using decode_packet_of [of "dd_session_id d" "dd_packet_sequence d" "dd_event d"] by simp
qed

text \<open>The known packet of the encoder's unit test, and the view it carries.\<close>

definition known_packet :: "byte list" where
  "known_packet =
     [0x4c, 0x11, 0x30, 0x00, 0x04, 0x03, 0x02, 0x01, 0x08, 0x07, 0x06, 0x05, 0x04, 0x03, 0x02, 0x01,
      0x18, 0x17, 0x16, 0x15, 0x14, 0x13, 0x12, 0x11, 0x28, 0x27, 0x26, 0x25, 0x24, 0x23, 0x22, 0x21,
      0x34, 0x33, 0x32, 0x31, 0x00, 0x00, 0x00, 0x00, 0x03, 0x00, 0xde, 0xad, 0xbe, 0x00, 0x00, 0x00]"

definition known_view :: decoded_data_view where
  "known_view = \<lparr>dd_session_id = 0x01020304, dd_packet_sequence = 0x0102030405060708,
     dd_event = \<lparr>stream_id = 0x31323334, sequence = 0x1112131415161718,
       source_timestamp_ns = 0x2122232425262728, payload = [0xDE, 0xAD, 0xBE]\<rparr>\<rparr>"

theorem decode_data_accepts_exactly_layout_witness: "decode_data known_packet = Inr known_view"
proof -
  have "addressable known_packet" by (simp add: addressable_def known_packet_def)
  moreover have "encodable (dd_session_id known_view) (dd_packet_sequence known_view)
      (dd_event known_view)"
    by (simp add: known_view_def encodable_def)
  moreover have "known_packet = packet_of (dd_session_id known_view)
      (dd_packet_sequence known_view) (dd_event known_view)"
    by code_simp
  ultimately show ?thesis using decode_data_accepts_exactly_layout by blast
qed

end
