(* ===== verification/Gap_Detector.thy ===== *)
theory Gap_Detector
  imports Prelude
begin

text \<open>
  \<open>GapDetector\<close> (include/lle/gap_detector.hpp, src/reliability/gap_detector.cpp): sequence
  checking within one session. The lemmas give the effect of one call and, for any run of calls,
  the accounting of every packet sequence as accepted once or reported missing once.
\<close>

datatype PacketStatus = Accepted | DuplicateOrOld | WrongSession

record CheckResult =
  status :: PacketStatus
  gap :: u64
  first_missing :: u64
  last_missing :: u64

record GapDetector =
  active_session :: u32
  last_sequence :: u64

definition default_result :: CheckResult where
  "default_result = \<lparr>status = Accepted, gap = 0, first_missing = 0, last_missing = 0\<rparr>"

definition initial_detector :: GapDetector where
  "initial_detector = \<lparr>active_session = 0, last_sequence = 0\<rparr>"

text \<open>The statements after the early returns: measure the gap and advance.\<close>

definition accept_packet :: "GapDetector \<Rightarrow> u64 \<Rightarrow> CheckResult \<times> GapDetector" where
  "accept_packet g packet_sequence =
    (let result = default_result\<lparr>gap := packet_sequence - last_sequence g - 1\<rparr>;
         result = (if gap result > 0
           then result\<lparr>first_missing := last_sequence g + 1, last_missing := packet_sequence - 1\<rparr>
           else result)
     in (result, g\<lparr>last_sequence := packet_sequence\<rparr>))"

definition gap_check :: "GapDetector \<Rightarrow> u32 \<Rightarrow> u64 \<Rightarrow> CheckResult \<times> GapDetector" where
  "gap_check g session_id packet_sequence =
    (if active_session g = 0
       then accept_packet (g\<lparr>active_session := session_id\<rparr>) packet_sequence
     else if session_id \<noteq> active_session g
       then (default_result\<lparr>status := WrongSession\<rparr>, g)
     else if packet_sequence \<le> last_sequence g
       then (default_result\<lparr>status := DuplicateOrOld\<rparr>, g)
     else accept_packet g packet_sequence)"

section \<open>One call\<close>

text \<open>A detector that has not chosen a session has not advanced.\<close>

definition detector_ok :: "GapDetector \<Rightarrow> bool" where
  "detector_ok g \<longleftrightarrow> (active_session g = 0 \<longrightarrow> last_sequence g = 0)"

text \<open>The inclusive range a result reports, as a set of sequence numbers.\<close>

definition missing :: "CheckResult \<Rightarrow> nat set" where
  "missing r = (if gap r = 0 then {} else {unat (first_missing r)..unat (last_missing r)})"

lemma gap_minus: "(l :: u64) < s \<Longrightarrow> unat (s - l - 1) = unat s - unat l - 1"
proof -
  assume lt: "l < s"
  then have "s - l \<noteq> 0" by auto
  then have "unat (s - l - 1) = unat (s - l) - 1" by (rule unat_minus_one)
  also have "unat (s - l) = unat s - unat l" using lt by (simp add: unat_sub order_less_imp_le)
  finally show ?thesis by simp
qed

lemma accept_packet_result:
  assumes "last_sequence g < seq"
  shows "status (fst (accept_packet g seq)) = Accepted"
    and "unat (gap (fst (accept_packet g seq))) = unat seq - unat (last_sequence g) - 1"
    and "missing (fst (accept_packet g seq)) = {unat (last_sequence g) + 1..<unat seq}"
    and "snd (accept_packet g seq) = g\<lparr>last_sequence := seq\<rparr>"
proof -
  let ?l = "last_sequence g"
  have lt: "unat ?l < unat seq" using assms by (simp add: word_less_nat_alt)
  have g: "unat (seq - ?l - 1) = unat seq - unat ?l - 1" using assms by (rule gap_minus)
  have "unat seq < 2 ^ 64" using unsigned_less [of seq] by simp
  with lt have "?l \<noteq> u64_max" by auto
  then have f: "unat (?l + 1) = unat ?l + 1" by (rule unat_plus_1)
  have e: "unat (seq - 1) = unat seq - 1"
    using lt by (intro unat_minus_one) auto
  have z: "seq - ?l - 1 = 0 \<longleftrightarrow> unat seq = unat ?l + 1"
    using g lt unat_0_iff [of "seq - ?l - 1"] by linarith
  show "status (fst (accept_packet g seq)) = Accepted"
    by (simp add: accept_packet_def default_result_def Let_def)
  show "unat (gap (fst (accept_packet g seq))) = unat seq - unat ?l - 1"
    using g by (simp add: accept_packet_def default_result_def Let_def)
  show "missing (fst (accept_packet g seq)) = {unat ?l + 1..<unat seq}"
    using z lt by (auto simp: accept_packet_def default_result_def Let_def missing_def f e word_gt_0)
  show "snd (accept_packet g seq) = g\<lparr>last_sequence := seq\<rparr>"
    by (simp add: accept_packet_def Let_def)
qed

text \<open>The packets that a detector accepts.\<close>

definition accepts :: "GapDetector \<Rightarrow> u32 \<Rightarrow> u64 \<Rightarrow> bool" where
  "accepts g sid seq \<longleftrightarrow> (active_session g = 0 \<or> sid = active_session g) \<and> last_sequence g < seq"

lemma gap_check_accept:
  assumes "accepts g sid seq"
  obtains r where "gap_check g sid seq = (r, \<lparr>active_session = sid, last_sequence = seq\<rparr>)"
    and "status r = Accepted"
    and "missing r = {unat (last_sequence g) + 1..<unat seq}"
    and "unat (gap r) = unat seq - unat (last_sequence g) - 1"
proof -
  let ?g = "g\<lparr>active_session := sid\<rparr>"
  have lt: "last_sequence ?g < seq" using assms by (simp add: accepts_def)
  have "gap_check g sid seq = accept_packet ?g seq"
    using assms by (auto simp: gap_check_def accepts_def)
  with accept_packet_result [OF lt] show ?thesis
    by (intro that [of "fst (accept_packet ?g seq)"]) (auto simp: prod_eq_iff)
qed

lemma gap_check_reject:
  assumes "\<not> accepts g sid seq" and "detector_ok g" and "seq \<noteq> 0"
  shows "gap_check g sid seq =
    (default_result\<lparr>status :=
       if active_session g \<noteq> 0 \<and> sid \<noteq> active_session g then WrongSession else DuplicateOrOld\<rparr>, g)"
  using assms by (auto simp: gap_check_def accepts_def detector_ok_def not_less word_gt_0)

text \<open>
  One call is decided by the session and the highest sequence accepted so far. A packet is
  accepted exactly when no session is active yet or it belongs to the active session, and its
  sequence is above every one accepted before; then the range reported missing is exactly the
  sequences skipped, and the detector moves to the packet. Any other packet changes nothing and
  reports no gap: another session's packet as such, an old one as a duplicate.
\<close>

theorem gap_check_decides:
  assumes "detector_ok g" and "seq \<noteq> 0"
  shows "case gap_check g sid seq of (r, g') \<Rightarrow>
    (if active_session g \<noteq> 0 \<and> sid \<noteq> active_session g
       then status r = WrongSession \<and> missing r = {} \<and> g' = g
     else if seq \<le> last_sequence g
       then status r = DuplicateOrOld \<and> missing r = {} \<and> g' = g
     else status r = Accepted \<and> missing r = {unat (last_sequence g) + 1..<unat seq}
       \<and> unat (gap r) = card (missing r)
       \<and> g' = \<lparr>active_session = sid, last_sequence = seq\<rparr>)"
proof (cases "accepts g sid seq")
  case True
  then show ?thesis
    by (rule gap_check_accept) (use True in \<open>auto simp: accepts_def\<close>)
next
  case False
  then show ?thesis
    using gap_check_reject [OF False assms]
    by (auto simp: accepts_def missing_def default_result_def)
qed

theorem gap_check_decides_witness:
  "case gap_check \<lparr>active_session = 7, last_sequence = 1\<rparr> 7 6 of (r, g') \<Rightarrow>
     status r = Accepted \<and> missing r = {2..<6} \<and> unat (gap r) = 4
     \<and> g' = \<lparr>active_session = 7, last_sequence = 6\<rparr>"
proof -
  let ?g = "\<lparr>active_session = 7, last_sequence = 1\<rparr>"
  obtain r g' where c: "gap_check ?g 7 6 = (r, g')" by fastforce
  have "detector_ok ?g" "(6 :: u64) \<noteq> 0" by (simp_all add: detector_ok_def)
  note d = gap_check_decides [OF this, of 7]
  have "\<not> (6 :: u64) \<le> 1" by (simp add: word_le_nat_alt)
  with d show ?thesis by (simp add: c flip: numeral_2_eq_2)
qed

section \<open>A run of calls\<close>

fun gap_run :: "GapDetector \<Rightarrow> (u32 \<times> u64) list \<Rightarrow> CheckResult list \<times> GapDetector" where
  "gap_run g [] = ([], g)"
| "gap_run g ((sid, seq) # ps) =
    (let (r, g1) = gap_check g sid seq; (rs, g2) = gap_run g1 ps in (r # rs, g2))"

text \<open>The sequences accepted in a run, in the order of the calls, and those reported missing.\<close>

definition accepted_seqs :: "(u32 \<times> u64) list \<Rightarrow> CheckResult list \<Rightarrow> nat list" where
  "accepted_seqs ps rs = [unat (snd p). (p, r) \<leftarrow> zip ps rs, status r = Accepted]"

definition missing_seqs :: "CheckResult list \<Rightarrow> nat set" where
  "missing_seqs rs = (\<Union>r \<in> set rs. missing r)"

definition gap_total :: "CheckResult list \<Rightarrow> nat" where
  "gap_total rs = (\<Sum>r \<leftarrow> rs. unat (gap r))"

text \<open>What the decoder guarantees for the packets it lets through.\<close>

definition identified :: "(u32 \<times> u64) list \<Rightarrow> bool" where
  "identified ps \<longleftrightarrow> list_all (\<lambda>(sid, seq). sid \<noteq> 0 \<and> seq \<noteq> 0) ps"

lemma interval_step:
  fixes l s t :: nat
  assumes "l < s" and "s \<le> t" and u: "A \<union> M = {s + 1..t}" and "A \<inter> M = {}"
  shows "insert s A \<union> ({l + 1..<s} \<union> M) = {l + 1..t}"
    and "insert s A \<inter> ({l + 1..<s} \<union> M) = {}" and "\<And>x. x \<in> A \<Longrightarrow> s < x"
proof -
  have A: "s < x" if "x \<in> A" for x using subsetD [OF equalityD1 [OF u], of x] that by simp
  have M: "s < x" if "x \<in> M" for x using subsetD [OF equalityD1 [OF u], of x] that by simp
  have "insert s A \<union> ({l + 1..<s} \<union> M) = {l + 1..<s} \<union> {s} \<union> (A \<union> M)" by blast
  also have "\<dots> = {l + 1..t}" unfolding u using assms(1,2) by auto
  finally show "insert s A \<union> ({l + 1..<s} \<union> M) = {l + 1..t}" .
  show "insert s A \<inter> ({l + 1..<s} \<union> M) = {}"
    using assms(4) A M by fastforce
  show "s < x" if "x \<in> A" for x using that by (rule A)
qed

lemma run_accounting:
  assumes "detector_ok g" and "identified ps" and "gap_run g ps = (rs, g')"
  shows "unat (last_sequence g) \<le> unat (last_sequence g')
    \<and> sorted_wrt (<) (accepted_seqs ps rs)
    \<and> set (accepted_seqs ps rs) \<union> missing_seqs rs
        = {unat (last_sequence g) + 1..unat (last_sequence g')}
    \<and> set (accepted_seqs ps rs) \<inter> missing_seqs rs = {}
    \<and> unat (last_sequence g) + length (accepted_seqs ps rs) + gap_total rs
        = unat (last_sequence g')"
  using assms
proof (induction g ps arbitrary: rs g' rule: gap_run.induct)
  case (1 g)
  then show ?case by (simp add: accepted_seqs_def missing_seqs_def gap_total_def)
next
  case (2 g sid seq ps)
  have id: "sid \<noteq> 0" "seq \<noteq> 0" "identified ps" using "2.prems"(2) by (simp_all add: identified_def)
  obtain r g1 where c: "gap_check g sid seq = (r, g1)" by fastforce
  obtain rs1 where r1: "gap_run g1 ps = (rs1, g')" and rs: "rs = r # rs1"
    using "2.prems"(3) c by (auto split: prod.splits)
  show ?case
  proof (cases "accepts g sid seq")
    case True
    from gap_check_accept [OF True] c have st: "status r = Accepted"
      and m: "missing r = {unat (last_sequence g) + 1..<unat seq}"
      and gp: "unat (gap r) = unat seq - unat (last_sequence g) - 1"
      and g1: "g1 = \<lparr>active_session = sid, last_sequence = seq\<rparr>"
      by (metis prod.inject)+
    have lt: "unat (last_sequence g) < unat seq"
      using True by (simp add: accepts_def word_less_nat_alt)
    have ok1: "detector_ok g1" using g1 id(1) by (simp add: detector_ok_def)
    note IH = "2.IH" [OF c [symmetric] refl ok1 id(3) r1, unfolded g1]
    have acc: "accepted_seqs ((sid, seq) # ps) rs = unat seq # accepted_seqs ps rs1"
      by (simp add: accepted_seqs_def rs st)
    have mis: "missing_seqs rs = {unat (last_sequence g) + 1..<unat seq} \<union> missing_seqs rs1"
      by (simp add: missing_seqs_def rs m)
    have tot: "gap_total rs = unat seq - unat (last_sequence g) - 1 + gap_total rs1"
      by (simp add: gap_total_def rs gp)
    from IH have "unat seq \<le> unat (last_sequence g')"
      "set (accepted_seqs ps rs1) \<union> missing_seqs rs1 = {unat seq + 1..unat (last_sequence g')}"
      "set (accepted_seqs ps rs1) \<inter> missing_seqs rs1 = {}" by simp_all
    note step = interval_step [OF lt this]
    from IH lt step show ?thesis
      unfolding acc mis tot by simp
  next
    case False
    from gap_check_reject [OF False "2.prems"(1) id(2)] c have g1: "g1 = g"
      and r: "status r \<noteq> Accepted" "gap r = 0"
      by (auto simp: default_result_def)
    note IH = "2.IH" [OF c [symmetric] refl _ id(3) r1, unfolded g1, OF "2.prems"(1)]
    from IH r show ?thesis
      by (simp add: rs accepted_seqs_def missing_seqs_def gap_total_def missing_def)
  qed
qed

text \<open>
  C26. Every packet sequence is accounted for exactly once. After any run of calls on a new
  detector with identified packets, in whatever order and from whatever sessions, the sequences
  accepted and the sequences reported missing are disjoint and together are 1 up to the highest
  sequence accepted; the accepted ones are strictly increasing, so no event is delivered twice or
  out of order; and the gap counts add up to exactly the sequences not accepted.
\<close>

theorem gap_run_partitions_sequences:
  assumes "identified ps" and "gap_run initial_detector ps = (rs, g)"
  shows "sorted_wrt (<) (accepted_seqs ps rs)
    \<and> set (accepted_seqs ps rs) \<union> missing_seqs rs = {1..unat (last_sequence g)}
    \<and> set (accepted_seqs ps rs) \<inter> missing_seqs rs = {}
    \<and> length (accepted_seqs ps rs) + gap_total rs = unat (last_sequence g)"
  using run_accounting [OF _ assms]
  by (simp add: initial_detector_def detector_ok_def)

text \<open>The packets 1, 6, 9 of the detector's unit test, with an old and a foreign one between.\<close>

theorem gap_run_partitions_sequences_witness:
  "\<exists>rs g. gap_run initial_detector [(7, 1), (7, 6), (7, 6), (8, 100), (7, 9)] = (rs, g)
     \<and> last_sequence g = 9
     \<and> accepted_seqs [(7, 1), (7, 6), (7, 6), (8, 100), (7, 9)] rs = [1, 6, 9]
     \<and> {1, 6, 9} \<union> missing_seqs rs = {1..9} \<and> gap_total rs = 6"
proof -
  let ?ps = "[(7, 1), (7, 6), (7, 6), (8, 100), (7, 9)] :: (u32 \<times> u64) list"
  obtain rs g where r: "gap_run initial_detector ?ps = (rs, g)" by fastforce
  have l: "last_sequence (snd (gap_run initial_detector ?ps)) = 9"
    and a: "accepted_seqs ?ps (fst (gap_run initial_detector ?ps)) = [1, 6, 9]"
    by code_simp+
  have "identified ?ps" by code_simp
  from gap_run_partitions_sequences [OF this r] l a r show ?thesis
    by (intro exI [of _ rs] exI [of _ g]) simp
qed

text \<open>
  The first packet pins the session: after any further run the active session is still the
  one chosen, every packet of another session has been turned down as such, and the highest
  accepted sequence never moves backwards.
\<close>

theorem gap_run_pins_session:
  assumes "active_session g \<noteq> 0" and "gap_run g ps = (rs, g')"
  shows "active_session g' = active_session g \<and> last_sequence g \<le> last_sequence g'
    \<and> list_all2 (\<lambda>(sid, seq) r. sid \<noteq> active_session g \<longrightarrow> status r = WrongSession) ps rs"
  using assms
proof (induction g ps arbitrary: rs g' rule: gap_run.induct)
  case (1 g)
  then show ?case by simp
next
  case (2 g sid seq ps)
  obtain r g1 where c: "gap_check g sid seq = (r, g1)" by fastforce
  obtain rs1 where r1: "gap_run g1 ps = (rs1, g')" and rs: "rs = r # rs1"
    using "2.prems"(2) c by (auto split: prod.splits)
  have step: "active_session g1 = active_session g" "last_sequence g \<le> last_sequence g1"
    "sid \<noteq> active_session g \<longrightarrow> status r = WrongSession"
    using c "2.prems"(1)
    by (auto simp: gap_check_def accept_packet_def Let_def split: if_splits)
  with "2.IH" [OF c [symmetric] refl _ r1] "2.prems"(1) rs show ?case by auto
qed

theorem gap_run_pins_session_witness:
  "\<exists>rs g'. gap_run \<lparr>active_session = 7, last_sequence = 1\<rparr> [(8, 1), (8, 100), (7, 2)] = (rs, g')
     \<and> active_session g' = 7 \<and> map status rs = [WrongSession, WrongSession, Accepted]"
proof -
  let ?g = "\<lparr>active_session = 7, last_sequence = 1\<rparr>"
  let ?ps = "[(8, 1), (8, 100), (7, 2)] :: (u32 \<times> u64) list"
  obtain rs g' where r: "gap_run ?g ?ps = (rs, g')" by fastforce
  have "map status (fst (gap_run ?g ?ps)) = [WrongSession, WrongSession, Accepted]" by code_simp
  moreover have "active_session ?g \<noteq> 0" by simp
  from gap_run_pins_session [OF this r] have "active_session g' = 7" by simp
  ultimately show ?thesis using r by auto
qed

end
