(* ===== verification/Receiver_Engine.thy ===== *)
theory Receiver_Engine
  imports Engine_Types Decoder Gap_Detector
begin

text \<open>
  The receiver engine (include/lle/receiver.hpp, src/receiver/receiver.cpp). \<open>receiver_pass\<close> is one
  pass through the loop of \<open>run()\<close>: wait for a datagram, decode it, check its sequence and publish
  its event on the egress ring. The step function \<open>receiver_step\<close> puts it among the consumer that
  reads the ring and the thread that requests the stop.
\<close>

section \<open>The engine\<close>

record Receiver =
  r_config :: ReceiverConfig
  r_segment :: SharedMemorySegment
  r_egress :: SpscRing
  r_udp :: UdpReceiver
  r_stop_requested :: bool
  r_stats :: EngineStats
  r_gap_detector :: GapDetector

definition make_receiver :: "ReceiverConfig \<Rightarrow> SharedMemorySegment \<Rightarrow> SpscRing \<Rightarrow> UdpReceiver \<Rightarrow> Receiver" where
  "make_receiver config seg egress udp =
     \<lparr>r_config = config, r_segment = seg, r_egress = egress, r_udp = udp, r_stop_requested = False,
      r_stats = zero_stats, r_gap_detector = initial_detector\<rparr>"

definition receiver_request_stop :: "Receiver \<Rightarrow> Receiver" where
  "receiver_request_stop r = r\<lparr>r_stop_requested := True\<rparr>"

definition receiver_stats :: "Receiver \<Rightarrow> EngineStats" where
  [simp]: "receiver_stats r = r_stats r"

definition move_receiver_engine :: "Receiver \<Rightarrow> Receiver \<times> Receiver" where
  "move_receiver_engine other =
     (other, receiver_request_stop (other\<lparr>r_segment := moved_from (r_segment other),
        r_egress := empty_ring, r_udp := snd (move_receiver_socket (r_udp other))\<rparr>))"

text \<open>
  The destructor of an engine that still owns its segment closes the ring and unlinks the name;
  then the members go in reverse order: the socket, the ring handle, the segment.
\<close>

definition destroy_receiver_engine :: "byte list \<Rightarrow> Receiver \<Rightarrow> (os, byte list) state" where
  "destroy_receiver_engine m r = do {
     (m, seg) \<leftarrow> (if seg_owner (r_segment r) then do {
         let m = snd (close_publication m (r_egress r));
         (_, seg) \<leftarrow> unlink (r_segment r);
         State_Monad.return (m, seg)
       } else State_Monad.return (m, r_segment r));
     _ \<leftarrow> destroy_receiver_socket (r_udp r);
     _ \<leftarrow> destroy_segment seg;
     State_Monad.return m
   }"

section \<open>Initialization\<close>

definition bad_receiver_config :: "ReceiverConfig \<Rightarrow> bool" where
  "bad_receiver_config config \<longleftrightarrow> egress_shm_name config = []
     \<or> rx_delivery_mode config \<noteq> BestEffort \<or> rx_cpu config \<noteq> -1 \<or> busy_poll_us config \<noteq> 0"

text \<open>The part before the instance id: validate, parse the listen address, bind.\<close>

definition receiver_bind :: "ReceiverConfig \<Rightarrow> (os, InitError + size_t \<times> UdpReceiver) state" where
  "receiver_bind config =
    (if bad_receiver_config config then State_Monad.return (Inl InitError.InvalidConfig)
     else case required_bytes (egress_ring config) of
       Inl _ \<Rightarrow> State_Monad.return (Inl InitError.InvalidConfig)
     | Inr sz \<Rightarrow> do {
         let text = (if address (listen config) = [] then ''0.0.0.0'' else c_str (address (listen config)));
         a \<leftarrow> call (Inet_pton_call text);
         if ret a \<noteq> 1 then State_Monad.return (Inl AddressResolution)
         else do {
           u \<leftarrow> bind_address \<lparr>native = \<lparr>sin_family = AF_INET, sin_port = htons (port (listen config)),
                  sin_addr = ucast (answer a)\<rparr>\<rparr>;
           case u of
             Inl _ \<Rightarrow> State_Monad.return (Inl InitError.Socket)
           | Inr udp \<Rightarrow> State_Monad.return (Inr (sz, udp))
         }
       })"

text \<open>The part after it: create the segment and the ring in it. The socket is closed on an error.\<close>

definition receiver_create :: "ReceiverConfig \<Rightarrow> size_t \<Rightarrow> UdpReceiver \<Rightarrow> u64
    \<Rightarrow> (os, InitError + Receiver \<times> byte list) state" where
  "receiver_create config sz udp instance_id = do {
     sg \<leftarrow> create_shm (egress_shm_name config) sz;
     case sg of
       Inl _ \<Rightarrow> do { _ \<leftarrow> destroy_receiver_socket udp; State_Monad.return (Inl SharedMemory) }
     | Inr (seg, m) \<Rightarrow>
         (case initialize_ring (seg_address seg) m (egress_ring config) instance_id of
            (Inl _, m) \<Rightarrow> do {
              (_, seg) \<leftarrow> unlink seg;
              _ \<leftarrow> destroy_segment seg;
              _ \<leftarrow> destroy_receiver_socket udp;
              State_Monad.return (Inl Ring)
            }
          | (Inr egress, m) \<Rightarrow> State_Monad.return (Inr (make_receiver config seg egress udp, m)))
   }"

definition receiver_initialize ::
  "ReceiverConfig \<Rightarrow> os \<Rightarrow> ((InitError + Receiver \<times> byte list) \<times> os) option" where
  "receiver_initialize config w =
    (case run_state (receiver_bind config) w of
       (Inl err, w) \<Rightarrow> Some (Inl err, w)
     | (Inr (sz, udp), w) \<Rightarrow>
         (case nonzero_random 8 w of
            None \<Rightarrow> None
          | Some (None, w) \<Rightarrow>
              let (_, w) = run_state (destroy_receiver_socket udp) w in Some (Inl Ring, w)
          | Some (Some instance_id, w) \<Rightarrow>
              Some (run_state (receiver_create config sz udp instance_id) w)))"

section \<open>The loop\<close>

definition receive_timeout_ms :: int where "receive_timeout_ms = 10"

text \<open>The end of a pass: publish an accepted event.\<close>

definition deliver :: "byte list \<Rightarrow> Receiver \<Rightarrow> event \<Rightarrow> flow \<times> byte list \<times> Receiver" where
  "deliver m r event =
    (let st = (r_stats r)\<lparr>events_in := events_in (r_stats r) + 1\<rparr>;
         (published, m, egress) = try_publish m (r_egress r) event;
         r = r\<lparr>r_egress := egress\<rparr>
     in if published = Ok
          then (Continue, m, r\<lparr>r_stats := st\<lparr>events_out := events_out st + 1\<rparr>\<rparr>)
        else
          let st = st\<lparr>events_dropped := events_dropped st + 1\<rparr>;
              st = (if published = Full then st\<lparr>egress_full := egress_full st + 1\<rparr>
                    else st\<lparr>egress_errors := egress_errors st + 1\<rparr>)
          in (if published = PublishResult.Closed then Break else Continue, m, r\<lparr>r_stats := st\<rparr>))"

text \<open>A decoded datagram: check its session and sequence.\<close>

definition sequence_check :: "byte list \<Rightarrow> Receiver \<Rightarrow> decoded_data_view
    \<Rightarrow> flow \<times> byte list \<times> Receiver" where
  "sequence_check m r decoded =
    (let (checked, detector) =
           gap_check (r_gap_detector r) (dd_session_id decoded) (dd_packet_sequence decoded);
         r = r\<lparr>r_gap_detector := detector\<rparr>;
         st = r_stats r
     in if status checked \<noteq> Accepted then
          let st = (if status checked = DuplicateOrOld
                then st\<lparr>duplicate_or_old_packets := duplicate_or_old_packets st + 1\<rparr>
                else st\<lparr>wrong_session_packets := wrong_session_packets st + 1\<rparr>)
          in (Continue, m, r\<lparr>r_stats := st\<lparr>events_dropped := events_dropped st + 1\<rparr>\<rparr>)
        else
          let st = (if gap checked > 0
                then st\<lparr>gaps_detected := gaps_detected st + 1,
                        packets_missed := packets_missed st + gap checked\<rparr>
                else st)
          in deliver m (r\<lparr>r_stats := st\<rparr>) (dd_event decoded))"

definition handle_datagram :: "byte list \<Rightarrow> Receiver \<Rightarrow> byte list \<Rightarrow> flow \<times> byte list \<times> Receiver" where
  "handle_datagram m r bytes =
    (let st = (r_stats r)\<lparr>packets_received := packets_received (r_stats r) + 1\<rparr>
     in case decode_data bytes of
          Inl _ \<Rightarrow> (Continue, m, r\<lparr>r_stats := st\<lparr>malformed_packets := malformed_packets st + 1\<rparr>\<rparr>)
        | Inr decoded \<Rightarrow> sequence_check m (r\<lparr>r_stats := st\<rparr>) decoded)"

definition handle_receive_error :: "Receiver \<Rightarrow> UdpError \<Rightarrow> flow \<times> Receiver" where
  "handle_receive_error r error =
    (let st = r_stats r
     in if code error = Timeout \<or> error_number error = EINTR then (Continue, r)
        else if code error = DatagramTooLarge
          then (Continue, r\<lparr>r_stats := st\<lparr>packets_received := packets_received st + 1,
                  malformed_packets := malformed_packets st + 1\<rparr>\<rparr>)
        else (Break, r\<lparr>r_stats := st\<lparr>receive_errors := receive_errors st + 1\<rparr>\<rparr>))"

definition receiver_pass :: "byte list \<Rightarrow> byte list \<Rightarrow> Receiver
    \<Rightarrow> (os, flow \<times> byte list \<times> byte list \<times> Receiver) state" where
  "receiver_pass m packet r = do {
     (datagram, packet) \<leftarrow> receive (r_udp r) packet receive_timeout_ms;
     State_Monad.return
       (case datagram of
          Inl error \<Rightarrow> let (flow, r) = handle_receive_error r error in (flow, m, packet, r)
        | Inr d \<Rightarrow>
            let (flow, m, r) = handle_datagram m r (subspan packet 0 (unat (datagram_size d)))
            in (flow, m, packet, r))
   }"

text \<open>After the loop: publish closure behind the last event.\<close>

definition receiver_finish :: "byte list \<Rightarrow> Receiver \<Rightarrow> byte list" where
  "receiver_finish m r = snd (close_publication m (r_egress r))"

section \<open>The engine among other threads\<close>

text \<open>
  The world of a running receiver, with the handle and the held view of the consumer.
  \<open>datagrams\<close>, \<open>delivered\<close> and \<open>consumed\<close> record the datagrams that \<open>receive\<close> returned, the events
  published with Ok and the events the consumer read at their release.
\<close>

record receiver_world =
  rw_memory :: "byte list"
  rw_packet :: "byte list"
  rw_receiver :: Receiver
  rw_client :: SpscRing
  rw_view :: "slot_view option"
  rw_os :: os
  rw_running :: bool
  rw_datagrams :: "byte list list"
  rw_delivered :: "event list"
  rw_consumed :: "event list"

datatype receiver_action = Client_acquire | Client_release | Stop_receiver | Receiver_pass

text \<open>The events a datagram makes the engine publish with Ok.\<close>

definition published_by :: "byte list \<Rightarrow> Receiver \<Rightarrow> byte list \<Rightarrow> event list" where
  "published_by m r bytes =
    (case decode_data bytes of
       Inl _ \<Rightarrow> []
     | Inr d \<Rightarrow> if status (fst (gap_check (r_gap_detector r) (dd_session_id d) (dd_packet_sequence d))) = Accepted
         \<and> fst (try_publish m (r_egress r) (dd_event d)) = Ok then [dd_event d] else [])"

fun receiver_step :: "receiver_world \<Rightarrow> receiver_action \<Rightarrow> receiver_world" where
  "receiver_step w Client_acquire =
    (let (r, client) = try_acquire (rw_memory w) (rw_client w)
     in w\<lparr>rw_client := client, rw_view := (case r of Inr v \<Rightarrow> Some v | Inl _ \<Rightarrow> rw_view w)\<rparr>)"
| "receiver_step w Client_release =
    (let (r, m, client) = release (rw_memory w) (rw_client w)
     in w\<lparr>rw_memory := m, rw_client := client, rw_view := None,
          rw_consumed := (case rw_view w of
              Some v \<Rightarrow> if r then rw_consumed w @ [deref (rw_memory w) v] else rw_consumed w
            | None \<Rightarrow> rw_consumed w)\<rparr>)"
| "receiver_step w Stop_receiver = w\<lparr>rw_receiver := receiver_request_stop (rw_receiver w)\<rparr>"
| "receiver_step w Receiver_pass =
    (if \<not> rw_running w then w
     else if r_stop_requested (rw_receiver w)
       then w\<lparr>rw_running := False, rw_memory := receiver_finish (rw_memory w) (rw_receiver w)\<rparr>
     else
       let ((flow, m, packet, r), os) =
             run_state (receiver_pass (rw_memory w) (rw_packet w) (rw_receiver w)) (rw_os w);
           ((datagram, buffer), _) =
             run_state (receive (r_udp (rw_receiver w)) (rw_packet w) receive_timeout_ms) (rw_os w);
           news = (case datagram of
               Inr d \<Rightarrow> [subspan buffer 0 (unat (datagram_size d))] | Inl _ \<Rightarrow> [])
       in w\<lparr>rw_memory := (if flow = Break then receiver_finish m r else m), rw_packet := packet,
            rw_receiver := r, rw_os := os, rw_running := (flow = Continue),
            rw_datagrams := rw_datagrams w @ news,
            rw_delivered := rw_delivered w @
              concat (map (published_by (rw_memory w) (rw_receiver w)) news)\<rparr>)"

definition receiver_run :: "receiver_world \<Rightarrow> receiver_action list \<Rightarrow> receiver_world" where
  "receiver_run w actions = foldl receiver_step w actions"

definition start_receiver :: "Receiver \<Rightarrow> byte list \<Rightarrow> SpscRing \<Rightarrow> os \<Rightarrow> receiver_world" where
  "start_receiver r m client w = \<lparr>rw_memory = m, rw_packet = replicate (unat kMaxPacketBytes) 0,
     rw_receiver = r, rw_client = client, rw_view = None, rw_os = w, rw_running = True,
     rw_datagrams = [], rw_delivered = [], rw_consumed = []\<rparr>"

end
