(* ===== verification/Receiver_Run.thy ===== *)
theory Receiver_Run
  imports Receiver_Engine Ring_Setup "HOL-Library.Sublist"
begin

text \<open>
  What a running receiver does with the datagrams it gets. The specification runs the gap detector
  over the datagrams that decode; the lemmas show that the engine, for every interleaving with the
  consumer, publishes a subsequence of the accepted events, and that its counters are those of the
  specification.
\<close>

section \<open>The specification of a run\<close>

definition decoded :: "byte list list \<Rightarrow> decoded_data_view list" where
  "decoded ds = concat (map (\<lambda>x. case decode_data x of Inr d \<Rightarrow> [d] | Inl _ \<Rightarrow> []) ds)"

definition ident :: "decoded_data_view \<Rightarrow> u32 \<times> u64" where
  "ident d = (dd_session_id d, dd_packet_sequence d)"

definition verdicts :: "byte list list \<Rightarrow> CheckResult list" where
  "verdicts ds = fst (gap_run initial_detector (map ident (decoded ds)))"

definition detector_after :: "byte list list \<Rightarrow> GapDetector" where
  "detector_after ds = snd (gap_run initial_detector (map ident (decoded ds)))"

definition accepted_views :: "byte list list \<Rightarrow> decoded_data_view list" where
  "accepted_views ds = map fst (filter (\<lambda>(d, r). status r = Accepted) (zip (decoded ds) (verdicts ds)))"

lemma gap_run_snoc:
  "gap_run g (ps @ [p]) = (let (rs, g1) = gap_run g ps; (r, g2) = gap_check g1 (fst p) (snd p) in (rs @ [r], g2))"
  by (induction g ps rule: gap_run.induct; cases p) (auto simp: Let_def split: prod.splits)

lemma length_gap_run [simp]: "length (fst (gap_run g ps)) = length ps"
  by (induction g ps rule: gap_run.induct) (auto simp: Let_def split: prod.splits)

lemma decoded_snoc [simp]:
  "decoded (ds @ [x]) = decoded ds @ (case decode_data x of Inr d \<Rightarrow> [d] | Inl _ \<Rightarrow> [])"
  by (simp add: decoded_def)

lemma spec_snoc_bad:
  assumes "decode_data x = Inl e"
  shows "verdicts (ds @ [x]) = verdicts ds" "detector_after (ds @ [x]) = detector_after ds"
    "accepted_views (ds @ [x]) = accepted_views ds" "decoded (ds @ [x]) = decoded ds"
  using assms by (simp_all add: verdicts_def detector_after_def accepted_views_def)

lemma spec_snoc_good:
  assumes "decode_data x = Inr d"
    and "gap_check (detector_after ds) (dd_session_id d) (dd_packet_sequence d) = (r, g)"
  shows "verdicts (ds @ [x]) = verdicts ds @ [r]" and "detector_after (ds @ [x]) = g"
    and "accepted_views (ds @ [x]) = accepted_views ds @ (if status r = Accepted then [d] else [])"
    and "decoded (ds @ [x]) = decoded ds @ [d]"
proof -
  show v: "verdicts (ds @ [x]) = verdicts ds @ [r]" and "detector_after (ds @ [x]) = g"
    and dd: "decoded (ds @ [x]) = decoded ds @ [d]"
    using assms by (auto simp: verdicts_def detector_after_def gap_run_snoc ident_def Let_def
        split: prod.splits)
  have "length (verdicts ds) = length (decoded ds)" by (simp add: verdicts_def)
  then show "accepted_views (ds @ [x]) = accepted_views ds @ (if status r = Accepted then [d] else [])"
    by (simp add: accepted_views_def v dd del: decoded_snoc)
qed

text \<open>The counters after the datagrams \<open>ds\<close> and \<open>t\<close> truncated ones, with \<open>k\<close> events published.\<close>

definition rx_balanced :: "EngineStats \<Rightarrow> byte list list \<Rightarrow> nat \<Rightarrow> nat \<Rightarrow> bool" where
  "rx_balanced st ds t k \<longleftrightarrow>
     packets_received st = of_nat (length ds + t)
     \<and> malformed_packets st + of_nat (length (decoded ds)) = of_nat (length ds + t)
     \<and> duplicate_or_old_packets st = of_nat (length (filter (\<lambda>r. status r = DuplicateOrOld) (verdicts ds)))
     \<and> wrong_session_packets st = of_nat (length (filter (\<lambda>r. status r = WrongSession) (verdicts ds)))
     \<and> gaps_detected st = of_nat (length (filter (\<lambda>r. gap r > 0) (verdicts ds)))
     \<and> packets_missed st = sum_list (map gap (verdicts ds))
     \<and> events_in st = of_nat (length (accepted_views ds))
     \<and> events_out st = of_nat k
     \<and> events_out st + egress_full st + egress_errors st = events_in st
     \<and> events_dropped st = duplicate_or_old_packets st + wrong_session_packets st
         + egress_full st + egress_errors st"

section \<open>One datagram\<close>

text \<open>What \<open>deliver\<close> does to the ring, the detector and the counters.\<close>

definition receiver_system :: "byte list \<Rightarrow> Receiver \<Rightarrow> SpscRing \<Rightarrow> ring_system" where
  "receiver_system m r client = \<lparr>segment = m, producer = r_egress r, consumer = client\<rparr>"

lemma deliver_effect:
  assumes ok: "system_ok n st cap (receiver_system m r client)" and "addressable (payload e)"
    and d: "deliver m r e = (flow, m', r')"
    and p: "out = (if fst (try_publish m (r_egress r) e) = Ok then [e] else [])"
  shows "system_ok n st cap (receiver_system m' r' client)"
    and "sys_items (receiver_system m' r' client) = sys_items (receiver_system m r client) @ out"
    and "sys_view (receiver_system m' r' client) = sys_view (receiver_system m r client)"
    and "r_gap_detector r' = r_gap_detector r" "r_udp r' = r_udp r"
    and "events_in (r_stats r') = events_in (r_stats r) + 1"
    and "events_out (r_stats r') = events_out (r_stats r) + of_nat (length out)"
    and "egress_full (r_stats r') + egress_errors (r_stats r') + of_nat (length out) =
      egress_full (r_stats r) + egress_errors (r_stats r) + 1"
    and "events_dropped (r_stats r') + of_nat (length out) = events_dropped (r_stats r) + 1"
    and "packets_received (r_stats r') = packets_received (r_stats r)"
      "malformed_packets (r_stats r') = malformed_packets (r_stats r)"
      "duplicate_or_old_packets (r_stats r') = duplicate_or_old_packets (r_stats r)"
      "wrong_session_packets (r_stats r') = wrong_session_packets (r_stats r)"
      "gaps_detected (r_stats r') = gaps_detected (r_stats r)"
      "packets_missed (r_stats r') = packets_missed (r_stats r)"
proof -
  obtain q mm eg where t: "try_publish m (r_egress r) e = (q, mm, eg)" by (metis prod_cases3)
  have out: "m' = mm" "r_egress r' = eg" "r_gap_detector r' = r_gap_detector r" "r_udp r' = r_udp r"
    using d by (auto simp: deliver_def t Let_def split: if_splits)
  have "sys_publish (receiver_system m r client) e = (q, receiver_system m' r' client)"
    by (simp add: sys_publish_def receiver_system_def t out)
  from sys_publish_keeps [OF ok _ this] assms(2)
  show "system_ok n st cap (receiver_system m' r' client)"
    "sys_items (receiver_system m' r' client) = sys_items (receiver_system m r client) @ out"
    "sys_view (receiver_system m' r' client) = sys_view (receiver_system m r client)"
    by (simp_all add: sys_admits_def p t)
  show "r_gap_detector r' = r_gap_detector r" "r_udp r' = r_udp r" by (fact out)+
  show "events_in (r_stats r') = events_in (r_stats r) + 1"
    "events_out (r_stats r') = events_out (r_stats r) + of_nat (length out)"
    "egress_full (r_stats r') + egress_errors (r_stats r') + of_nat (length out) =
      egress_full (r_stats r) + egress_errors (r_stats r) + 1"
    "events_dropped (r_stats r') + of_nat (length out) = events_dropped (r_stats r) + 1"
    "packets_received (r_stats r') = packets_received (r_stats r)"
    "malformed_packets (r_stats r') = malformed_packets (r_stats r)"
    "duplicate_or_old_packets (r_stats r') = duplicate_or_old_packets (r_stats r)"
    "wrong_session_packets (r_stats r') = wrong_session_packets (r_stats r)"
    "gaps_detected (r_stats r') = gaps_detected (r_stats r)"
    "packets_missed (r_stats r') = packets_missed (r_stats r)"
    using d p by (auto simp: deliver_def t Let_def split: if_splits)
qed

lemma gap_check_rejected:
  "gap_check g sid seq = (r, g') \<Longrightarrow> status r \<noteq> Accepted \<Longrightarrow> gap r = 0
    \<and> (status r = DuplicateOrOld \<or> status r = WrongSession) \<and> g' = g"
  by (auto simp: gap_check_def accept_packet_def default_result_def Let_def split: if_splits)

text \<open>The counters of an accepted packet, before and after its delivery.\<close>

definition counted_accept :: "EngineStats \<Rightarrow> u64 \<Rightarrow> EngineStats" where
  "counted_accept st g = (let st = st\<lparr>packets_received := packets_received st + 1\<rparr>
     in if g > 0 then st\<lparr>gaps_detected := gaps_detected st + 1, packets_missed := packets_missed st + g\<rparr>
        else st)"

lemma counted_accept_fields:
  "packets_received (counted_accept st g) = packets_received st + 1"
  "malformed_packets (counted_accept st g) = malformed_packets st"
  "duplicate_or_old_packets (counted_accept st g) = duplicate_or_old_packets st"
  "wrong_session_packets (counted_accept st g) = wrong_session_packets st"
  "gaps_detected (counted_accept st g) = gaps_detected st + (if g > 0 then 1 else 0)"
  "packets_missed (counted_accept st g) = packets_missed st + g"
  "events_in (counted_accept st g) = events_in st" "events_out (counted_accept st g) = events_out st"
  "egress_full (counted_accept st g) = egress_full st" "egress_errors (counted_accept st g) = egress_errors st"
  "events_dropped (counted_accept st g) = events_dropped st"
  by (simp_all add: counted_accept_def word_gt_0 Let_def)

lemma rx_balanced_accepted:
  assumes "decode_data x = Inr d" and "status q = Accepted"
    and "gap_check (detector_after ds) (dd_session_id d) (dd_packet_sequence d) = (q, g)"
    and "rx_balanced st ds t k" and "st1 = counted_accept st (gap q)"
    and "events_in st' = events_in st1 + 1" "events_out st' = events_out st1 + of_nat j"
      "egress_full st' + egress_errors st' + of_nat j = egress_full st1 + egress_errors st1 + 1"
      "events_dropped st' + of_nat j = events_dropped st1 + 1"
      "packets_received st' = packets_received st1" "malformed_packets st' = malformed_packets st1"
      "duplicate_or_old_packets st' = duplicate_or_old_packets st1"
      "wrong_session_packets st' = wrong_session_packets st1"
      "gaps_detected st' = gaps_detected st1" "packets_missed st' = packets_missed st1"
  shows "rx_balanced st' (ds @ [x]) t (k + j)"
proof -
  note sp = spec_snoc_good [OF assms(1,3)]
  have "events_dropped st' = events_dropped st + 1 - of_nat j"
    and eg: "egress_full st' + egress_errors st' = egress_full st + egress_errors st + 1 - of_nat j"
    using assms(8,9) unfolding assms(5) by (simp_all add: counted_accept_fields eq_diff_eq)
  then have drop: "events_dropped st' = duplicate_or_old_packets st + wrong_session_packets st
      + egress_full st' + egress_errors st'"
    using assms(4) by (simp add: rx_balanced_def add.assoc)
  have "events_out st' + egress_full st' + egress_errors st' = events_out st' + (egress_full st' + egress_errors st')"
    by (simp only: add.assoc)
  also have "\<dots> = events_out st + (egress_full st + egress_errors st + 1)"
    using assms(7) unfolding assms(5) eg by (simp add: counted_accept_fields)
  also have "\<dots> = events_in st'"
    using assms(4,6) unfolding assms(5) by (auto simp: counted_accept_fields rx_balanced_def add.assoc)
  finally have sum: "events_out st' + egress_full st' + egress_errors st' = events_in st'" .
  show ?thesis
    unfolding rx_balanced_def
    using assms(2,4,6,7,10-15) sum drop unfolding assms(5)
    by (simp add: rx_balanced_def sp(1,3,4) counted_accept_fields algebra_simps word_gt_0 del: decoded_snoc)
qed

text \<open>A datagram that the detector accepts.\<close>

lemma accepted_effect:
  assumes ok: "system_ok n st cap (receiver_system m r client)"
    and det: "r_gap_detector r = detector_after ds" and small: "addressable x"
    and bal: "rx_balanced (r_stats r) ds t k" and Inr: "decode_data x = Inr d"
    and gc: "gap_check (r_gap_detector r) (dd_session_id d) (dd_packet_sequence d) = (q, g)"
    and True: "status q = Accepted"
    and sc: "sequence_check m (r\<lparr>r_stats := (r_stats r)\<lparr>packets_received := packets_received (r_stats r) + 1\<rparr>\<rparr>) d
      = (flow, m', r')"
    and out: "out = published_by m r x"
  shows "system_ok n st cap (receiver_system m' r' client)
    \<and> sys_items (receiver_system m' r' client) = sys_items (receiver_system m r client) @ out
    \<and> sys_view (receiver_system m' r' client) = sys_view (receiver_system m r client)
    \<and> r_gap_detector r' = detector_after (ds @ [x]) \<and> r_udp r' = r_udp r
    \<and> rx_balanced (r_stats r') (ds @ [x]) t (k + length out)
    \<and> subseq out (drop (length (accepted_views ds)) (map dd_event (accepted_views (ds @ [x]))))"
proof -
  note sp = spec_snoc_good [OF Inr gc [unfolded det]]
  define st1 where "st1 = counted_accept (r_stats r) (gap q)"
  define r1 where "r1 = r\<lparr>r_gap_detector := g, r_stats := st1\<rparr>"
  have dl: "deliver m r1 (dd_event d) = (flow, m', r')"
    using sc True
    by (cases "gap q > 0") (simp_all add: sequence_check_def gc Let_def r1_def st1_def counted_accept_def)
  have o: "out = (if fst (try_publish m (r_egress r1) (dd_event d)) = Ok then [dd_event d] else [])"
    using out True by (simp add: published_by_def Inr gc r1_def)
  have ok1: "system_ok n st cap (receiver_system m r1 client)"
    using ok by (simp add: receiver_system_def r1_def)
  have "length (payload (dd_event d)) \<le> 1374"
    using decoded_packet_of(1) [OF small Inr] by (simp add: encodable_def)
  then have ad: "addressable (payload (dd_event d))" by (intro addressable_smallI) simp
  note e = deliver_effect [OF ok1 ad dl o]
  have "r_stats r1 = st1" by (simp add: r1_def)
  from rx_balanced_accepted [OF Inr True gc [unfolded det] bal st1_def e(6-15) [unfolded this]]
  have "rx_balanced (r_stats r') (ds @ [x]) t (k + length out)" .
  moreover have "subseq out (drop (length (accepted_views ds)) (map dd_event (accepted_views (ds @ [x]))))"
    using o by (auto simp: sp(3) True)
  ultimately show ?thesis
    using e(1-5) sp(2) by (simp add: r1_def receiver_system_def)
qed

lemma handle_datagram_effect:
  assumes ok: "system_ok n st cap (receiver_system m r client)"
    and det: "r_gap_detector r = detector_after ds" and small: "addressable x"
    and bal: "rx_balanced (r_stats r) ds t k"
    and h: "handle_datagram m r x = (flow, m', r')" and out: "out = published_by m r x"
  shows "system_ok n st cap (receiver_system m' r' client)
    \<and> sys_items (receiver_system m' r' client) = sys_items (receiver_system m r client) @ out
    \<and> sys_view (receiver_system m' r' client) = sys_view (receiver_system m r client)
    \<and> r_gap_detector r' = detector_after (ds @ [x]) \<and> r_udp r' = r_udp r
    \<and> rx_balanced (r_stats r') (ds @ [x]) t (k + length out)
    \<and> subseq out (drop (length (accepted_views ds)) (map dd_event (accepted_views (ds @ [x]))))"
proof (cases "decode_data x")
  case (Inl err)
  note sp = spec_snoc_bad [OF Inl, of ds]
  have "m' = m" "r' = r\<lparr>r_stats := (r_stats r)\<lparr>packets_received := packets_received (r_stats r) + 1,
      malformed_packets := malformed_packets (r_stats r) + 1\<rparr>\<rparr>" "out = []"
    using h out by (simp_all add: handle_datagram_def Inl published_by_def Let_def)
  then show ?thesis
    using ok det bal sp
    by (auto simp: receiver_system_def rx_balanced_def algebra_simps simp del: decoded_snoc)
next
  case (Inr d)
  let ?st = "(r_stats r)\<lparr>packets_received := packets_received (r_stats r) + 1\<rparr>"
  obtain q g where gc: "gap_check (r_gap_detector r) (dd_session_id d) (dd_packet_sequence d) = (q, g)"
    by fastforce
  note sp = spec_snoc_good [OF Inr gc [unfolded det]]
  have sc: "sequence_check m (r\<lparr>r_stats := ?st\<rparr>) d = (flow, m', r')"
    using h by (simp add: handle_datagram_def Inr)
  show ?thesis
  proof (cases "status q = Accepted")
    case False
    note rej = gap_check_rejected [OF gc False]
    have "m' = m" "out = []" "r_egress r' = r_egress r" "r_gap_detector r' = g" "r_udp r' = r_udp r"
      using sc out False
      by (auto simp: sequence_check_def gc Let_def published_by_def Inr split: if_splits)
    moreover have "rx_balanced (r_stats r') (ds @ [x]) t k"
      using sc False rej bal
      by (auto simp: sequence_check_def gc Let_def rx_balanced_def sp(1,3,4)
          simp del: decoded_snoc split: if_splits)
    ultimately show ?thesis using ok sp by (simp add: receiver_system_def)
  next
    case True
    show ?thesis by (rule accepted_effect [OF ok det small bal Inr gc True sc out])
  qed
qed

section \<open>Whole runs\<close>

text \<open>
  What the code relies on of \<open>recvmsg\<close>: it stores at most the size of the buffer, and returns how
  many bytes it stored.
\<close>

definition honest_recvmsg :: "os \<Rightarrow> bool" where
  "honest_recvmsg w \<longleftrightarrow> (\<forall>i. 0 \<le> ret (replies w i) \<longrightarrow>
     ret (replies w i) \<le> 1416 \<and> int (length (contents (replies w i))) = ret (replies w i))"

text \<open>The datagrams that the system delivered in full to the receiving calls of a trace.\<close>

definition delivered_datagram :: "os \<Rightarrow> byte list \<Rightarrow> bool" where
  "delivered_datagram w x \<longleftrightarrow> (\<exists>i. x = contents (replies w i) \<and> 0 \<le> ret (replies w i))"

lemma receive_result:
  assumes "run_state (receive s buffer t) w = ((Inr d, buffer'), w')"
  shows "\<exists>i. 0 \<le> ret (replies w i) \<and> datagram_size d = word_of_int (ret (replies w i))
    \<and> buffer' = store_bytes buffer 0 (contents (replies w i))"
proof (cases "0 \<le> t")
  case True
  then show ?thesis
    using assms by (intro exI [of _ "Suc (length (trace w))"])
      (auto simp: receive_def receive_message_def Let_def split: if_splits)
next
  case False
  then show ?thesis
    using assms by (intro exI [of _ "length (trace w)"])
      (auto simp: receive_def receive_message_def Let_def split: if_splits)
qed

lemma run_receive_data:
  assumes "run_state (receive s buffer t) w = ((Inr d, buffer'), w')" and "length buffer = 1416"
    and "honest_recvmsg w"
  shows "delivered_datagram w (subspan buffer' 0 (unat (datagram_size d)))"
    and "length (subspan buffer' 0 (unat (datagram_size d))) \<le> 1416"
proof -
  obtain i where i: "0 \<le> ret (replies w i)" "datagram_size d = word_of_int (ret (replies w i))"
    "buffer' = store_bytes buffer 0 (contents (replies w i))"
    using receive_result [OF assms(1)] by blast
  have l: "ret (replies w i) \<le> 1416" "int (length (contents (replies w i))) = ret (replies w i)"
    using assms(3) i(1) by (auto simp: honest_recvmsg_def)
  then have "ret (replies w i) = int (length (contents (replies w i)))" by simp
  then have "unat (datagram_size d) = length (contents (replies w i))"
    using l(1) by (simp add: i(2) unat_of_nat)
  then have "subspan buffer' 0 (unat (datagram_size d)) = contents (replies w i)"
    using l assms(2) subspan_store_same [of 0 "contents (replies w i)" buffer] by (simp add: i(3))
  then show "delivered_datagram w (subspan buffer' 0 (unat (datagram_size d)))"
    "length (subspan buffer' 0 (unat (datagram_size d))) \<le> 1416"
    using l i(1) by (auto simp: delivered_datagram_def)
qed

definition world_system :: "receiver_world \<Rightarrow> ring_system" where
  "world_system w = receiver_system (rw_memory w) (rw_receiver w) (rw_client w)"

definition receiver_inv :: "nat \<Rightarrow> nat \<Rightarrow> nat \<Rightarrow> receiver_world \<Rightarrow> bool" where
  "receiver_inv n st cap w \<longleftrightarrow> system_ok n st cap (world_system w)
     \<and> rw_view w = sys_view (world_system w)
     \<and> rw_delivered w = rw_consumed w @ sys_items (world_system w)
     \<and> length (rw_packet w) = 1416 \<and> honest_recvmsg (rw_os w)
     \<and> (\<forall>x \<in> set (rw_datagrams w). delivered_datagram (rw_os w) x)
     \<and> r_gap_detector (rw_receiver w) = detector_after (rw_datagrams w)
     \<and> subseq (rw_delivered w) (map dd_event (accepted_views (rw_datagrams w)))
     \<and> (\<exists>t. rx_balanced (r_stats (rw_receiver w)) (rw_datagrams w) t (length (rw_delivered w)))"

text \<open>The consumer's calls are those of a client of the queue.\<close>

lemma receiver_inv_acquire:
  assumes "receiver_inv n st cap w"
  shows "receiver_inv n st cap (receiver_step w Client_acquire)"
proof -
  obtain r c where a: "try_acquire (rw_memory w) (rw_client w) = (r, c)" by fastforce
  have ok: "system_ok n st cap (world_system w)" using assms by (simp add: receiver_inv_def)
  have s: "sys_acquire (world_system w) = (r, world_system (receiver_step w Client_acquire))"
    by (simp add: sys_acquire_def world_system_def receiver_system_def a)
  note k = sys_acquire_keeps [OF ok s]
  show ?thesis
    using assms k by (cases r) (auto simp: receiver_inv_def a)
qed

lemma receiver_inv_release:
  assumes "receiver_inv n st cap w"
  shows "receiver_inv n st cap (receiver_step w Client_release)"
proof (cases "sys_view (world_system w)")
  case None
  then have "\<not> acquired (rw_client w)"
    by (simp add: sys_view_def world_system_def receiver_system_def split: if_splits)
  then have "receiver_step w Client_release = w\<lparr>rw_view := None\<rparr>"
    using assms None by (simp add: release_def receiver_inv_def)
  moreover have "w\<lparr>rw_view := None\<rparr> = w" using assms None by (simp add: receiver_inv_def)
  ultimately show ?thesis using assms by (simp del: receiver_step.simps)
next
  case (Some v)
  have ok: "system_ok n st cap (world_system w)" and v: "rw_view w = Some v"
    using assms Some by (simp_all add: receiver_inv_def)
  note first = sys_view_first [OF ok Some]
  obtain r m c where rel: "release (rw_memory w) (rw_client w) = (r, m, c)" by (metis prod_cases3)
  let ?w = "receiver_step w Client_release"
  have s: "sys_release (world_system w) = (r, world_system ?w)"
    by (simp add: sys_release_def world_system_def receiver_system_def rel)
  have k: "r = True" "system_ok n st cap (world_system ?w)"
    "sys_items (world_system ?w) = tl (sys_items (world_system w))" "sys_view (world_system ?w) = None"
    using sys_release_keeps [OF ok first(1)] s by auto
  have "deref (rw_memory w) v = hd (sys_items (world_system w))"
    using first(2) by (simp add: sys_deref_def world_system_def receiver_system_def)
  then have f: "rw_consumed ?w = rw_consumed w @ [hd (sys_items (world_system w))]" "rw_view ?w = None"
    "rw_delivered ?w = rw_delivered w" "rw_packet ?w = rw_packet w" "rw_os ?w = rw_os w"
    "rw_datagrams ?w = rw_datagrams w" "rw_receiver ?w = rw_receiver w"
    using v k(1) by (simp_all add: rel)
  show ?thesis
    using assms first(2) k by (auto simp: receiver_inv_def f simp del: receiver_step.simps)
qed

lemma finish_keeps:
  assumes "system_ok n st cap (receiver_system m r client)"
  shows "system_ok n st cap (receiver_system (receiver_finish m r) r client)"
    and "sys_items (receiver_system (receiver_finish m r) r client) = sys_items (receiver_system m r client)"
    and "sys_view (receiver_system (receiver_finish m r) r client) = sys_view (receiver_system m r client)"
proof -
  have "receiver_system (receiver_finish m r) r client = receiver_system m r client
    \<or> receiver_system (receiver_finish m r) r client = (receiver_system m r client)\<lparr>segment :=
        write_u32 (segment (receiver_system m r client)) 40 (ring_state_value RingState.Closed)\<rparr>"
    by (simp add: receiver_finish_def close_publication_def receiver_system_def)
  with closed_system [OF assms] assms
  show "system_ok n st cap (receiver_system (receiver_finish m r) r client)"
    "sys_items (receiver_system (receiver_finish m r) r client) = sys_items (receiver_system m r client)"
    "sys_view (receiver_system (receiver_finish m r) r client) = sys_view (receiver_system m r client)"
    by metis+
qed

text \<open>One pass of the loop.\<close>

lemma rx_balanced_truncated:
  "rx_balanced st ds t k \<Longrightarrow> rx_balanced (st\<lparr>packets_received := packets_received st + 1,
     malformed_packets := malformed_packets st + 1\<rparr>) ds (t + 1) k"
  by (auto simp: rx_balanced_def algebra_simps)

lemma rx_balanced_receive_error:
  "rx_balanced (st\<lparr>receive_errors := x\<rparr>) ds t k = rx_balanced st ds t k"
  by (simp add: rx_balanced_def)

lemma handle_receive_error_effect:
  assumes "handle_receive_error r err = (flow, r')" and "rx_balanced (r_stats r) ds t k"
  shows "r_egress r' = r_egress r \<and> r_gap_detector r' = r_gap_detector r \<and> r_udp r' = r_udp r
    \<and> (\<exists>t. rx_balanced (r_stats r') ds t k)"
  using assms rx_balanced_truncated [OF assms(2)]
  by (auto simp: handle_receive_error_def Let_def rx_balanced_receive_error split: if_splits)

lemma subseq_extend:
  assumes "subseq a (map f xs)" and "subseq b (drop (length xs) (map f ys))" and "take (length xs) ys = xs"
  shows "subseq (a @ b) (map f ys)"
proof -
  have "map f ys = map f xs @ drop (length xs) (map f ys)"
    using assms(3) by (metis append_take_drop_id take_map)
  then show ?thesis using list_emb_append_mono [OF assms(1,2)] by simp
qed

lemma accepted_views_prefix: "take (length (accepted_views ds)) (accepted_views (ds @ [x])) = accepted_views ds"
proof (cases "decode_data x")
  case (Inr d)
  obtain q g where "gap_check (detector_after ds) (dd_session_id d) (dd_packet_sequence d) = (q, g)"
    by fastforce
  from spec_snoc_good(3) [OF Inr this] show ?thesis by simp
qed (simp add: spec_snoc_bad)

lemma receiver_inv_pass:
  assumes inv: "receiver_inv n st cap w" and "rw_running w" and "\<not> r_stop_requested (rw_receiver w)"
  shows "receiver_inv n st cap (receiver_step w Receiver_pass)"
proof -
  let ?r = "rw_receiver w" and ?m = "rw_memory w" and ?ds = "rw_datagrams w"
  let ?w = "receiver_step w Receiver_pass"
  have i: "system_ok n st cap (receiver_system ?m ?r (rw_client w))" "rw_view w = sys_view (receiver_system ?m ?r (rw_client w))"
    "rw_delivered w = rw_consumed w @ sys_items (receiver_system ?m ?r (rw_client w))"
    "length (rw_packet w) = 1416" "honest_recvmsg (rw_os w)"
    "\<forall>x \<in> set ?ds. delivered_datagram (rw_os w) x" "r_gap_detector ?r = detector_after ?ds"
    "subseq (rw_delivered w) (map dd_event (accepted_views ?ds))"
    using inv by (auto simp: receiver_inv_def world_system_def)
  obtain t where bal: "rx_balanced (r_stats ?r) ?ds t (length (rw_delivered w))"
    using inv by (auto simp: receiver_inv_def)
  obtain datagram packet os where rc:
    "run_state (receive (r_udp ?r) (rw_packet w) receive_timeout_ms) (rw_os w) = ((datagram, packet), os)"
    by (rule run_pair)
  have os: "length packet = 1416" "extends (rw_os w) os" using run_receive [OF rc] i(4) by auto
  then have os': "honest_recvmsg os" "delivered_datagram os x = delivered_datagram (rw_os w) x" for x
    using i(5) by (simp_all add: extends_def honest_recvmsg_def delivered_datagram_def)
  show ?thesis
  proof (cases datagram)
    case (Inl err)
    obtain flow r' where h: "handle_receive_error ?r err = (flow, r')" by fastforce
    note e = handle_receive_error_effect [OF h bal]
    have f: "rw_memory ?w = (if flow = Break then receiver_finish ?m r' else ?m)" "rw_packet ?w = packet"
      "rw_receiver ?w = r'" "rw_os ?w = os" "rw_datagrams ?w = ?ds" "rw_delivered ?w = rw_delivered w"
      "rw_consumed ?w = rw_consumed w" "rw_view ?w = rw_view w" "rw_client ?w = rw_client w"
      using assms(2,3) by (simp_all add: receiver_pass_def rc Inl h)
    have sys: "receiver_system m r' c = receiver_system m ?r c" "receiver_finish m r' = receiver_finish m ?r" for m c
      using e by (simp_all add: receiver_system_def receiver_finish_def)
    show ?thesis
      unfolding receiver_inv_def world_system_def f
      using i e os os' finish_keeps [OF i(1)] by (simp add: sys)
  next
    case (Inr d)
    let ?x = "subspan packet 0 (unat (datagram_size d))"
    note x = run_receive_data [OF rc [unfolded Inr] i(4,5)]
    have small: "addressable ?x" using x(2) by (intro addressable_smallI) simp
    obtain flow m' r' where h: "handle_datagram ?m ?r ?x = (flow, m', r')" by (metis prod_cases3)
    let ?out = "published_by ?m ?r ?x"
    note e = handle_datagram_effect [OF i(1,7) small bal h refl]
    have f: "rw_memory ?w = (if flow = Break then receiver_finish m' r' else m')" "rw_packet ?w = packet"
      "rw_receiver ?w = r'" "rw_os ?w = os" "rw_datagrams ?w = ?ds @ [?x]"
      "rw_delivered ?w = rw_delivered w @ ?out"
      "rw_consumed ?w = rw_consumed w" "rw_view ?w = rw_view w" "rw_client ?w = rw_client w"
      using assms(2,3) by (simp_all add: receiver_pass_def rc Inr h)
    have "subseq (rw_delivered w @ ?out) (map dd_event (accepted_views (?ds @ [?x])))"
      using e i(8) accepted_views_prefix by (intro subseq_extend [OF i(8)]) auto
    moreover have "system_ok n st cap (receiver_system m' r' (rw_client w))" using e by simp
    note k = finish_keeps [OF this]
    ultimately show ?thesis
      unfolding receiver_inv_def world_system_def f
      using i e os os' x(1) k by (auto simp: add.assoc)
  qed
qed

lemma receiver_inv_step:
  assumes "receiver_inv n st cap w"
  shows "receiver_inv n st cap (receiver_step w a)"
proof (cases a)
  case Client_acquire
  then show ?thesis using assms receiver_inv_acquire by simp
next
  case Client_release
  then show ?thesis using assms receiver_inv_release by simp
next
  case Stop_receiver
  then show ?thesis using assms
    by (auto simp: receiver_inv_def receiver_request_stop_def world_system_def receiver_system_def)
next
  case Receiver_pass
  consider "\<not> rw_running w" | "rw_running w" "r_stop_requested (rw_receiver w)"
    | "rw_running w" "\<not> r_stop_requested (rw_receiver w)" by blast
  then show ?thesis
  proof cases
    case 2
    have "system_ok n st cap (receiver_system (rw_memory w) (rw_receiver w) (rw_client w))"
      using assms by (simp add: receiver_inv_def world_system_def)
    from finish_keeps [OF this] show ?thesis
      using assms 2 by (auto simp: Receiver_pass receiver_inv_def world_system_def)
  next
    case 3
    then show ?thesis unfolding Receiver_pass using assms by (intro receiver_inv_pass)
  qed (use assms Receiver_pass in simp)
qed

lemma receiver_inv_run: "receiver_inv n st cap w \<Longrightarrow> receiver_inv n st cap (receiver_run w actions)"
  by (induction actions arbitrary: w) (simp_all add: receiver_run_def receiver_inv_step del: receiver_step.simps)

section \<open>What the detector accepts\<close>

lemma accepted_properties:
  assumes "\<forall>x \<in> set ds. addressable x"
  shows "sorted_wrt (<) (map dd_packet_sequence (accepted_views ds))
    \<and> (\<forall>d \<in> set (accepted_views ds). dd_packet_sequence d \<le> last_sequence (detector_after ds)
        \<and> dd_session_id d = active_session (detector_after ds) \<and> dd_session_id d \<noteq> 0
        \<and> (\<exists>x \<in> set ds. decode_data x = Inr d))
    \<and> detector_ok (detector_after ds)"
  using assms
proof (induction ds rule: rev_induct)
  case Nil
  then show ?case
    by (simp add: accepted_views_def decoded_def verdicts_def detector_after_def detector_ok_def
        initial_detector_def)
next
  case (snoc x ds)
  let ?g = "detector_after ds"
  note ih = snoc.IH
  have small: "\<forall>x \<in> set ds. addressable x" "addressable x" using snoc.prems by simp_all
  show ?case
  proof (cases "decode_data x")
    case (Inl err)
    then show ?thesis using ih [OF small(1)] by (auto simp: spec_snoc_bad)
  next
    case (Inr d)
    obtain q g where gc: "gap_check ?g (dd_session_id d) (dd_packet_sequence d) = (q, g)" by fastforce
    note sp = spec_snoc_good [OF Inr gc]
    have id: "dd_session_id d \<noteq> 0" "dd_packet_sequence d \<noteq> 0"
      using decoded_packet_of(1) [OF small(2) Inr] by (simp_all add: encodable_def)
    have ok: "detector_ok ?g" using ih [OF small(1)] by simp
    show ?thesis
    proof (cases "accepts ?g (dd_session_id d) (dd_packet_sequence d)")
      case False
      have "q = default_result\<lparr>status := if active_session ?g \<noteq> 0 \<and> dd_session_id d \<noteq> active_session ?g
          then WrongSession else DuplicateOrOld\<rparr>" "g = ?g"
        using gap_check_reject [OF False ok id(2)] gc by auto
      then have "accepted_views (ds @ [x]) = accepted_views ds" "detector_after (ds @ [x]) = ?g"
        using sp(2,3) by simp_all
      then show ?thesis using ih [OF small(1)] by (simp add: bex_Un) metis
    next
      case True
      obtain q' where q: "gap_check ?g (dd_session_id d) (dd_packet_sequence d) =
          (q', \<lparr>active_session = dd_session_id d, last_sequence = dd_packet_sequence d\<rparr>)" "status q' = Accepted"
        using gap_check_accept [OF True] by metis
      have a: "accepted_views (ds @ [x]) = accepted_views ds @ [d]"
        "detector_after (ds @ [x]) = \<lparr>active_session = dd_session_id d, last_sequence = dd_packet_sequence d\<rparr>"
        using sp(2,3) q gc by auto
      have "\<forall>e \<in> set (accepted_views ds). dd_packet_sequence e < dd_packet_sequence d
          \<and> dd_session_id e = dd_session_id d"
        using ih [OF small(1)] True by (auto simp: accepts_def)
      then show ?thesis
        using ih [OF small(1)] Inr id
        by (auto simp: a sorted_wrt_append detector_ok_def order_less_imp_le)
    qed
  qed
qed

end
