(* ===== verification/Receiver_Properties.thy ===== *)
theory Receiver_Properties
  imports Receiver_Run Ring_Witnesses
begin

text \<open>
  The properties of the receiver engine, for every interleaving of its loop with the consumer of the
  egress ring and the thread that asks for the stop, and for every sequence of datagrams and errors
  that the system delivers.
\<close>

lemma start_receiver_inv:
  assumes "addressable m0" and "initialize_ring addr m0 ring_config instance_id = (Inr egress, m)"
    and "attach_ring addr' m = Inr client" and "r = make_receiver config seg egress udp"
    and "honest_recvmsg w"
  shows "\<exists>st cap. receiver_inv (unat (cfg_slot_count ring_config)) st cap (start_receiver r m client w)"
    and "initializer egress" and "pre_state m = 2"
proof -
  note i = attach_initialized [OF assms(1,2)]
  let ?n = "unat (cfg_slot_count ring_config)" and ?cap = "unat (cfg_slot_payload_capacity ring_config)"
  have "addressable m" using assms(1) i(4) by (simp add: addressable_def)
  then have cl: "client = make_ring m False" using attach_ring_iff [of m addr' client] assms(3) by simp
  obtain st where r: "ring_ok ?n st ?cap m" "handle_ok ?n st ?cap egress" "handle_ok ?n st ?cap client"
    "ring_items ?n st m = []" using i(1) cl by auto
  note mk = make_ring_handles [OF r(1)]
  have ok: "system_ok ?n st ?cap (receiver_system m r client)"
    using r mk i(2) cl by (auto simp: system_ok_def receiver_system_def assms(4) make_receiver_def)
  have view: "sys_view (receiver_system m r client) = None"
    by (simp add: sys_view_def receiver_system_def cl make_ring_def)
  have "rx_balanced zero_stats [] 0 0"
    by (simp add: rx_balanced_def zero_stats_def decoded_def verdicts_def accepted_views_def)
  then have "receiver_inv ?n st ?cap (start_receiver r m client w)"
    using ok view r(4) assms(5) sys_eqs(1) [OF ok]
    by (auto simp: receiver_inv_def world_system_def start_receiver_def receiver_system_def assms(4)
        make_receiver_def kMaxPacketBytes_def detector_after_def decoded_def accepted_views_def verdicts_def)
  then show "\<exists>st cap. receiver_inv ?n st cap (start_receiver r m client w)" by blast
  show "initializer egress" "pre_state m = 2" using i by (simp_all add: make_ring_def)
qed

lemma delivered_small:
  "honest_recvmsg w \<Longrightarrow> delivered_datagram w x \<Longrightarrow> addressable x"
  by (rule addressable_smallI) (auto simp: honest_recvmsg_def delivered_datagram_def)

text \<open>
  C16. What the receiver hands to its consumer: whatever the interleaving and whatever arrives, the
  events the consumer reads are, in order, the first ones of those published on the egress ring, and
  these are a subsequence of the events of accepted datagrams: every one came out of a datagram that
  decodes, all of one session, with strictly increasing packet sequences. Nothing is invented,
  altered, doubled or reordered.
\<close>

theorem receiver_delivers_accepted_events:
  assumes "addressable m0" and "initialize_ring addr m0 ring_config instance_id = (Inr egress, m)"
    and "attach_ring addr' m = Inr client" and "r = make_receiver config seg egress udp"
    and "honest_recvmsg os" and "w = receiver_run (start_receiver r m client os) actions"
  shows "(\<exists>queued. rw_delivered w = rw_consumed w @ queued \<and> length queued \<le> unat (cfg_slot_count ring_config))
    \<and> subseq (rw_delivered w) (map dd_event (accepted_views (rw_datagrams w)))
    \<and> sorted_wrt (<) (map dd_packet_sequence (accepted_views (rw_datagrams w)))
    \<and> (\<exists>sid. \<forall>d \<in> set (accepted_views (rw_datagrams w)). dd_session_id d = sid
        \<and> (\<exists>x \<in> set (rw_datagrams w). decode_data x = Inr d))"
proof -
  obtain st cap where "receiver_inv (unat (cfg_slot_count ring_config)) st cap (start_receiver r m client os)"
    using start_receiver_inv(1) [OF assms(1-5)] by blast
  then have inv: "receiver_inv (unat (cfg_slot_count ring_config)) st cap w"
    unfolding assms(6) by (rule receiver_inv_run)
  then have i: "system_ok (unat (cfg_slot_count ring_config)) st cap (world_system w)"
    "rw_delivered w = rw_consumed w @ sys_items (world_system w)"
    "subseq (rw_delivered w) (map dd_event (accepted_views (rw_datagrams w)))"
    "\<forall>x \<in> set (rw_datagrams w). addressable x"
    by (auto simp: receiver_inv_def dest: delivered_small)
  show ?thesis
    using i(2,3) sys_bounded [OF i(1)] accepted_properties [OF i(4)] by blast
qed

section \<open>What the counters count\<close>

text \<open>The datagrams that did not fit in the buffer, as the calls of a process show them.\<close>

fun truncated :: "syscall \<times> reply \<Rightarrow> bool" where
  "truncated (Recvmsg_call fd n, r) \<longleftrightarrow> 0 \<le> ret r \<and> answer r AND MSG_TRUNC \<noteq> 0"
| "truncated _ \<longleftrightarrow> False"

definition truncated_datagrams :: "os \<Rightarrow> nat" where
  "truncated_datagrams w = length (filter truncated (trace w))"

lemma truncated_in_receive:
  assumes "run_state (receive s buffer t) w = ((r, buffer'), w')"
  shows "truncated_datagrams w' = truncated_datagrams w
    + (case r of Inl err \<Rightarrow> if code err = DatagramTooLarge then 1 else 0 | Inr _ \<Rightarrow> 0)"
    and "r = Inl err \<Longrightarrow> code err = DatagramTooLarge \<Longrightarrow> error_number err = 0"
  using assms
  by (auto simp: receive_def receive_message_def Let_def truncated_datagrams_def split: if_splits)

text \<open>
  The answers other than Ok that \<open>try_publish\<close> gives for the event of a datagram, and those of a whole
  run, in order.
\<close>

definition refusals_of :: "byte list \<Rightarrow> Receiver \<Rightarrow> byte list \<Rightarrow> PublishResult list" where
  "refusals_of m r bytes =
    (case decode_data bytes of
       Inl _ \<Rightarrow> []
     | Inr d \<Rightarrow> if status (fst (gap_check (r_gap_detector r) (dd_session_id d) (dd_packet_sequence d))) = Accepted
         then filter (\<lambda>q. q \<noteq> Ok) [fst (try_publish m (r_egress r) (dd_event d))] else [])"

definition new_datagrams :: "receiver_world \<Rightarrow> receiver_world \<Rightarrow> byte list list" where
  "new_datagrams w w' = drop (length (rw_datagrams w)) (rw_datagrams w')"

fun refusals :: "receiver_world \<Rightarrow> receiver_action list \<Rightarrow> PublishResult list" where
  "refusals w [] = []"
| "refusals w (a # actions) =
    concat (map (refusals_of (rw_memory w) (rw_receiver w)) (new_datagrams w (receiver_step w a)))
      @ refusals (receiver_step w a) actions"

abbreviation full_count :: "PublishResult list \<Rightarrow> u64" where
  "full_count qs \<equiv> of_nat (count_list qs Full)"

abbreviation other_count :: "PublishResult list \<Rightarrow> u64" where
  "other_count qs \<equiv> of_nat (length (filter (\<lambda>q. q \<noteq> Full) qs))"

lemma handle_datagram_counts:
  assumes "handle_datagram m r bytes = (flow, m', r')"
  shows "packets_received (r_stats r') = packets_received (r_stats r) + 1"
    and "egress_full (r_stats r') = egress_full (r_stats r) + full_count (refusals_of m r bytes)"
    and "egress_errors (r_stats r') = egress_errors (r_stats r) + other_count (refusals_of m r bytes)"
proof -
  have "packets_received (r_stats r') = packets_received (r_stats r) + 1
      \<and> egress_full (r_stats r') = egress_full (r_stats r) + full_count (refusals_of m r bytes)
      \<and> egress_errors (r_stats r') = egress_errors (r_stats r) + other_count (refusals_of m r bytes)"
  proof (cases "decode_data bytes")
    case (Inl err)
    then show ?thesis using assms by (auto simp: handle_datagram_def refusals_of_def Let_def)
  next
    case (Inr d)
    obtain checked g where "gap_check (r_gap_detector r) (dd_session_id d) (dd_packet_sequence d) = (checked, g)"
      by fastforce
    moreover obtain q m1 e where "try_publish m (r_egress r) (dd_event d) = (q, m1, e)" by (metis prod_cases3)
    ultimately show ?thesis using assms
      by (auto simp: handle_datagram_def sequence_check_def deliver_def refusals_of_def Inr Let_def split: if_splits)
  qed
  then show "packets_received (r_stats r') = packets_received (r_stats r) + 1"
    "egress_full (r_stats r') = egress_full (r_stats r) + full_count (refusals_of m r bytes)"
    "egress_errors (r_stats r') = egress_errors (r_stats r) + other_count (refusals_of m r bytes)"
    by simp_all
qed

text \<open>How far one moment of a run is from another one, in the counters and in what they count.\<close>

definition counts_between :: "receiver_world \<Rightarrow> receiver_world \<Rightarrow> PublishResult list \<Rightarrow> bool" where
  "counts_between w w' qs \<longleftrightarrow> (let st = r_stats (rw_receiver w); st' = r_stats (rw_receiver w') in
     packets_received st' + of_nat (length (rw_datagrams w) + truncated_datagrams (rw_os w)) =
       packets_received st + of_nat (length (rw_datagrams w') + truncated_datagrams (rw_os w'))
     \<and> egress_full st' = egress_full st + full_count qs
     \<and> egress_errors st' = egress_errors st + other_count qs)"

lemma counts_between_refl: "counts_between w w []"
  by (simp add: counts_between_def)

lemma balance_trans:
  fixes a0 :: u64
  assumes "a1 + n0 = a0 + n1" and "a2 + n1 = a1 + n2"
  shows "a2 + n0 = a0 + n2"
proof -
  have "a1 = a0 + n1 - n0" "a2 = a1 + n2 - n1" by (simp_all add: eq_diff_eq assms)
  then show ?thesis by simp
qed

lemma counts_between_trans:
  assumes "counts_between w w1 ps" and "counts_between w1 w2 qs"
  shows "counts_between w w2 (ps @ qs)"
proof -
  note a = assms [unfolded counts_between_def Let_def]
  have "packets_received (r_stats (rw_receiver w2)) + of_nat (length (rw_datagrams w) + truncated_datagrams (rw_os w)) =
       packets_received (r_stats (rw_receiver w)) + of_nat (length (rw_datagrams w2) + truncated_datagrams (rw_os w2))"
    by (rule balance_trans [OF conjunct1 [OF a(1)] conjunct1 [OF a(2)]])
  moreover have "egress_full (r_stats (rw_receiver w2)) = egress_full (r_stats (rw_receiver w)) + full_count (ps @ qs)"
    "egress_errors (r_stats (rw_receiver w2)) = egress_errors (r_stats (rw_receiver w)) + other_count (ps @ qs)"
    using conjunct2 [OF a(1)] conjunct2 [OF a(2)] by simp_all
  ultimately show ?thesis unfolding counts_between_def Let_def by blast
qed

lemma step_counts:
  "counts_between w (receiver_step w a)
    (concat (map (refusals_of (rw_memory w) (rw_receiver w)) (new_datagrams w (receiver_step w a))))"
proof (cases "a = Receiver_pass \<and> rw_running w \<and> \<not> r_stop_requested (rw_receiver w)")
  case False
  then show ?thesis
    by (cases a) (auto simp: counts_between_def new_datagrams_def Let_def receiver_request_stop_def split: prod.splits)
next
  case True
  obtain datagram packet os where rc: "run_state (receive (r_udp (rw_receiver w)) (rw_packet w) receive_timeout_ms) (rw_os w)
      = ((datagram, packet), os)" by (metis prod.exhaust)
  note t = truncated_in_receive [OF rc]
  show ?thesis
  proof (cases datagram)
    case (Inl err)
    obtain flow r' where h: "handle_receive_error (rw_receiver w) err = (flow, r')" by fastforce
    have "code err = DatagramTooLarge \<Longrightarrow> error_number err \<noteq> EINTR" using t(2) [OF Inl] by (simp add: EINTR_def)
    then have "packets_received (r_stats r') = packets_received (r_stats (rw_receiver w))
          + (if code err = DatagramTooLarge then 1 else 0)
        \<and> egress_full (r_stats r') = egress_full (r_stats (rw_receiver w))
        \<and> egress_errors (r_stats r') = egress_errors (r_stats (rw_receiver w))"
      using h by (auto simp: handle_receive_error_def Let_def split: if_splits)
    then show ?thesis
      using True t(1) by (auto simp: counts_between_def new_datagrams_def Let_def receiver_pass_def rc Inl h)
  next
    case (Inr d)
    let ?x = "subspan packet 0 (unat (datagram_size d))"
    obtain flow m' r' where h: "handle_datagram (rw_memory w) (rw_receiver w) ?x = (flow, m', r')"
      by (metis prod_cases3)
    show ?thesis
      using True t(1) handle_datagram_counts [OF h]
      by (auto simp: counts_between_def new_datagrams_def Let_def receiver_pass_def rc Inr h)
  qed
qed

lemma run_counts: "counts_between w (receiver_run w actions) (refusals w actions)"
proof (induction actions arbitrary: w)
  case Nil
  show ?case by (simp add: receiver_run_def counts_between_refl)
next
  case (Cons a actions)
  show ?case
    using counts_between_trans [OF step_counts [of w a] Cons [of "receiver_step w a"]]
    by (simp add: receiver_run_def del: receiver_step.simps)
qed

text \<open>
  C31. The counters say what became of every datagram. packets_received counts the datagrams that
  \<open>receive\<close> returned and those that the calls of this run show as truncated; malformed_packets the ones
  that do not decode or were truncated; duplicate_or_old_packets and wrong_session_packets those that
  a gap detector run over the decoded ones rejects, gaps_detected and packets_missed the gaps that it
  reports; events_in the accepted events, events_out the published ones, egress_full the answers Full
  of the ring and egress_errors its other refusals. All equations are modulo 2^64 as the counters are.
\<close>

theorem receiver_counters_balance:
  assumes "addressable m0" and "initialize_ring addr m0 ring_config instance_id = (Inr egress, m)"
    and "attach_ring addr' m = Inr client" and "r = make_receiver config seg egress udp"
    and "honest_recvmsg os" and "w = receiver_run (start_receiver r m client os) actions"
    and "stats = receiver_stats (rw_receiver w)"
    and "(results, detector) = gap_run initial_detector (map ident (decoded (rw_datagrams w)))"
    and "refused = refusals (start_receiver r m client os) actions"
  shows "packets_received stats + of_nat (truncated_datagrams os)
        = of_nat (length (rw_datagrams w) + truncated_datagrams (rw_os w))
    \<and> malformed_packets stats + of_nat (length (decoded (rw_datagrams w))) = packets_received stats
    \<and> duplicate_or_old_packets stats = of_nat (length (filter (\<lambda>q. status q = DuplicateOrOld) results))
    \<and> wrong_session_packets stats = of_nat (length (filter (\<lambda>q. status q = WrongSession) results))
    \<and> gaps_detected stats = of_nat (length (filter (\<lambda>q. gap q > 0) results))
    \<and> packets_missed stats = sum_list (map gap results)
    \<and> events_in stats = of_nat (length (accepted_views (rw_datagrams w)))
    \<and> events_out stats = of_nat (length (rw_delivered w))
    \<and> events_out stats + egress_full stats + egress_errors stats = events_in stats
    \<and> egress_full stats = of_nat (count_list refused Full)
    \<and> egress_errors stats = of_nat (length (filter (\<lambda>q. q \<noteq> Full) refused))
    \<and> events_dropped stats = duplicate_or_old_packets stats + wrong_session_packets stats
        + egress_full stats + egress_errors stats
    \<and> r_gap_detector (rw_receiver w) = detector"
proof -
  obtain st cap where "receiver_inv (unat (cfg_slot_count ring_config)) st cap (start_receiver r m client os)"
    using start_receiver_inv(1) [OF assms(1-5)] by blast
  then have inv: "receiver_inv (unat (cfg_slot_count ring_config)) st cap w"
    unfolding assms(6) by (rule receiver_inv_run)
  have v: "verdicts (rw_datagrams w) = results" "detector_after (rw_datagrams w) = detector"
    by (simp_all add: verdicts_def detector_after_def flip: assms(8))
  obtain t where b: "rx_balanced stats (rw_datagrams w) t (length (rw_delivered w))"
    using inv by (auto simp: receiver_inv_def assms(7))
  have "packets_received stats + of_nat (truncated_datagrams os)
        = of_nat (length (rw_datagrams w) + truncated_datagrams (rw_os w))"
    "egress_full stats = full_count refused" "egress_errors stats = other_count refused"
    using run_counts [of "start_receiver r m client os" actions]
    by (simp_all add: counts_between_def Let_def assms(4,6,7,9) start_receiver_def make_receiver_def zero_stats_def)
  moreover have "malformed_packets stats + of_nat (length (decoded (rw_datagrams w))) = packets_received stats"
    using b by (simp add: rx_balanced_def)
  moreover have "r_gap_detector (rw_receiver w) = detector" using inv v by (simp add: receiver_inv_def)
  moreover note b [unfolded rx_balanced_def v]
  ultimately show ?thesis by (elim conjE) (intro conjI; assumption)
qed

section \<open>The end of the loop\<close>

text \<open>The ring is Ready while the loop runs and Closed when \<open>run()\<close> has returned.\<close>

definition open_while_running :: "receiver_world \<Rightarrow> bool" where
  "open_while_running w \<longleftrightarrow> initializer (r_egress (rw_receiver w))
     \<and> pre_state (rw_memory w) = (if rw_running w then ring_state_value Ready else ring_state_value RingState.Closed)"

lemma try_publish_initializer: "try_publish m p e = (r, m', p') \<Longrightarrow> initializer p' = initializer p"
  by (auto simp: try_publish_def Let_def split: if_splits)

lemma handle_datagram_state:
  assumes "system_ok n st cap (receiver_system m r client)" and "addressable x"
    and "handle_datagram m r x = (flow, m', r')"
  shows "pre_state m' = pre_state m \<and> initializer (r_egress r') = initializer (r_egress r)"
proof -
  have s: "ring_ok n st cap m" "producer_ok n st cap m (r_egress r)"
    using assms(1) by (simp_all add: system_ok_def receiver_system_def)
  have p: "pre_state m1 = pre_state m \<and> initializer q = initializer (r_egress r)"
    if "try_publish m (r_egress r) e = (res, m1, q)" "addressable (payload e)" for e res m1 q
  proof -
    have "m1 = m \<or> m1 = published_ring m (r_egress r) e \<and> publishable n st cap m (r_egress r) e"
      using that(1) try_publish_cases [OF s that(2)] publishableI [OF s, of e]
      by (auto split: if_splits simp del: length_ring_items)
    then show ?thesis using published_cursors(3) try_publish_initializer [OF that(1)] by auto
  qed
  show ?thesis
  proof (cases "decode_data x")
    case (Inr d)
    have "length (payload (dd_event d)) \<le> 1374"
      using decoded_packet_of(1) [OF assms(2) Inr] by (simp add: encodable_def)
    then have ad: "addressable (payload (dd_event d))" by (intro addressable_smallI) simp
    obtain res m1 q where t: "try_publish m (r_egress r) (dd_event d) = (res, m1, q)" by (metis prod_cases3)
    obtain c g where gc: "gap_check (r_gap_detector r) (dd_session_id d) (dd_packet_sequence d) = (c, g)"
      by fastforce
    show ?thesis
    proof (cases "status c = Accepted")
      case True
      have "m' = m1 \<and> r_egress r' = q"
        using assms(3) True
        by (cases "gap c > 0")
          (auto simp: handle_datagram_def Inr sequence_check_def gc deliver_def t Let_def split: if_splits)
      then show ?thesis using p [OF t ad] by simp
    next
      case False
      then show ?thesis
        using assms(3) by (auto simp: handle_datagram_def Inr sequence_check_def gc Let_def split: if_splits)
    qed
  qed (use assms(3) in \<open>auto simp: handle_datagram_def Let_def\<close>)
qed

lemma finish_state:
  assumes "geometry n st cap m" and "initializer (r_egress r)"
  shows "pre_state (receiver_finish m r) = ring_state_value RingState.Closed"
  using closed_frame(1) [OF assms(1) refl] assms(2) by (simp add: receiver_finish_def close_publication_def)

lemma open_while_running_pass:
  assumes "receiver_inv n st cap w" and "open_while_running w"
    and "rw_running w" and "\<not> r_stop_requested (rw_receiver w)"
  shows "open_while_running (receiver_step w Receiver_pass)"
proof -
  have ok: "system_ok n st cap (receiver_system (rw_memory w) (rw_receiver w) (rw_client w))"
    using assms(1) by (simp add: receiver_inv_def world_system_def)
  then have g: "geometry n st cap (rw_memory w)" by (simp add: system_ok_def receiver_system_def ring_ok_def)
  obtain datagram packet os where rc: "run_state (receive (r_udp (rw_receiver w)) (rw_packet w)
      receive_timeout_ms) (rw_os w) = ((datagram, packet), os)" by (rule run_pair)
  show ?thesis
  proof (cases datagram)
    case (Inl err)
    obtain flow r' where h: "handle_receive_error (rw_receiver w) err = (flow, r')" by fastforce
    have e: "r_egress r' = r_egress (rw_receiver w)"
      using h by (auto simp: handle_receive_error_def Let_def split: if_splits)
    show ?thesis using assms(2-4) finish_state [OF g, of r']
      by (cases flow) (simp_all add: open_while_running_def receiver_pass_def rc Inl h e)
  next
    case (Inr d)
    let ?x = "subspan packet 0 (unat (datagram_size d))"
    have "length ?x \<le> 1416"
      using run_receive_data(2) [OF rc [unfolded Inr]] assms(1) by (simp add: receiver_inv_def)
    then have small: "addressable ?x" by (intro addressable_smallI) simp
    obtain flow m' r' where h: "handle_datagram (rw_memory w) (rw_receiver w) ?x = (flow, m', r')"
      by (metis prod_cases3)
    note e = handle_datagram_state [OF ok small h]
    have "\<exists>t k. rx_balanced (r_stats (rw_receiver w)) (rw_datagrams w) t k"
      "r_gap_detector (rw_receiver w) = detector_after (rw_datagrams w)"
      using assms(1) by (auto simp: receiver_inv_def)
    then have "geometry n st cap m'"
      using handle_datagram_effect [OF ok _ small _ h refl]
      by (auto simp: system_ok_def receiver_system_def ring_ok_def)
    then show ?thesis using assms(2-4) e finish_state [of n st cap m' r']
      by (cases flow) (simp_all add: open_while_running_def receiver_pass_def rc Inr h)
  qed
qed

lemma open_while_running_step:
  assumes "receiver_inv n st cap w" and "open_while_running w"
  shows "open_while_running (receiver_step w a)"
proof -
  have ok: "system_ok n st cap (receiver_system (rw_memory w) (rw_receiver w) (rw_client w))"
    using assms(1) by (simp add: receiver_inv_def world_system_def)
  then have ring: "ring_ok n st cap (rw_memory w)" by (simp add: system_ok_def receiver_system_def)
  then have g: "geometry n st cap (rw_memory w)" by (simp add: ring_ok_def)
  show ?thesis
  proof (cases a)
    case Client_release
    have "192 \<le> length (rw_memory w)" using geometryD(5) [OF g] by simp
    moreover obtain q m c where rel: "release (rw_memory w) (rw_client w) = (q, m, c)" by (metis prod_cases3)
    ultimately have "pre_state m = pre_state (rw_memory w)"
      by (auto simp: release_def preamble_defs write_bytes mem_simps split: if_splits)
    then show ?thesis using assms(2)
      by (simp add: Client_release open_while_running_def rel)
  next
    case Receiver_pass
    consider "\<not> rw_running w" | "rw_running w" "r_stop_requested (rw_receiver w)"
      | "rw_running w" "\<not> r_stop_requested (rw_receiver w)" by blast
    then show ?thesis
    proof cases
      case 2
      then show ?thesis using assms(2) finish_state [OF g]
        by (simp add: Receiver_pass open_while_running_def)
    next
      case 3
      then show ?thesis unfolding Receiver_pass by (rule open_while_running_pass [OF assms])
    qed (use assms(2) Receiver_pass in simp)
  qed (use assms(2) in \<open>auto simp: open_while_running_def receiver_request_stop_def split: prod.splits\<close>)
qed

lemma open_while_running_run:
  "receiver_inv n st cap w \<Longrightarrow> open_while_running w \<Longrightarrow> open_while_running (receiver_run w actions)"
  by (induction actions arbitrary: w)
    (simp_all add: receiver_run_def receiver_inv_step open_while_running_step del: receiver_step.simps)

text \<open>
  \<open>run()\<close> never returns with the ring open, and never closes it early: as long as the loop runs the
  state word says Ready, and once it has ended, by a stop, a receive error or a refused publication,
  the word says Closed, so that the consumer can drain and finish. A requested stop ends the loop at
  its next pass.
\<close>

theorem receiver_closes_exactly_at_return:
  assumes "addressable m0" and "initialize_ring addr m0 ring_config instance_id = (Inr egress, m)"
    and "attach_ring addr' m = Inr client" and "r = make_receiver config seg egress udp"
    and "honest_recvmsg os" and "w = receiver_run (start_receiver r m client os) actions"
  shows "pre_state (rw_memory w) =
      (if rw_running w then ring_state_value Ready else ring_state_value RingState.Closed)
    \<and> \<not> rw_running (receiver_run w [Stop_receiver, Receiver_pass])"
proof -
  obtain st cap where i: "receiver_inv (unat (cfg_slot_count ring_config)) st cap (start_receiver r m client os)"
    using start_receiver_inv(1) [OF assms(1-5)] by blast
  have "open_while_running (start_receiver r m client os)"
    using start_receiver_inv(2,3) [OF assms(1-5)]
    by (simp add: open_while_running_def start_receiver_def assms(4) make_receiver_def)
  from open_while_running_run [OF i this] show ?thesis
    by (simp add: open_while_running_def assms(6) receiver_run_def receiver_request_stop_def)
qed

section \<open>A concrete receiver\<close>

definition demo_packet :: "byte list" where
  "demo_packet = packet_of 9 1 (demo_event 1)"

text \<open>A network that delivers this packet at every call.\<close>

definition demo_rx_os :: os where
  "demo_rx_os = \<lparr>replies = \<lambda>_. \<lparr>ret = 48, errno = 0, answer = 1, contents = demo_packet,
     peer = \<lparr>sin_family = 2, sin_port = 0, sin_addr = 0\<rparr>\<rparr>, trace = []\<rparr>"

definition demo_rx_config :: ReceiverConfig where
  "demo_rx_config = \<lparr>listen = \<lparr>address = [], port = 9000\<rparr>, nack_target = \<lparr>address = [], port = 0\<rparr>,
     egress_shm_name = ''/out'', egress_ring = demo_config, rx_delivery_mode = BestEffort,
     reorder_window_packets = 0, recovery_timeout_us = 0, rx_cpu = -1, busy_poll_us = 0\<rparr>"

definition demo_receiver :: Receiver where
  "demo_receiver = make_receiver demo_rx_config empty_segment (make_ring demo_segment True)
     \<lparr>rx_fd = 4, local_port = 9000\<rparr>"

definition demo_rx_start :: receiver_world where
  "demo_rx_start = start_receiver demo_receiver demo_segment (make_ring demo_segment False) demo_rx_os"

lemma demo_packet_value [code]: "demo_packet = [76, 17, 48, 0, 9, 0, 0, 0, 1, 0, 0, 0, 0, 0, 0, 0,
    1, 0, 0, 0, 0, 0, 0, 0, 77, 0, 0, 0, 0, 0, 0, 0, 5, 0, 0, 0, 0, 0, 0, 0, 3, 0, 1, 2, 1, 0, 0, 0]"
  by code_simp

lemma demo_honest: "honest_recvmsg demo_rx_os"
  by (simp add: honest_recvmsg_def demo_rx_os_def demo_packet_value)

text \<open>One pass of the loop, and what it leads to.\<close>

definition demo_rx_end :: receiver_world where
  "demo_rx_end = receiver_run demo_rx_start [Receiver_pass]"

lemma demo_handled_datagram: "published_by demo_segment demo_receiver demo_packet = [demo_event 1]"
  "fst (handle_datagram demo_segment demo_receiver demo_packet) = Continue"
  "egress_full (r_stats (snd (snd (handle_datagram demo_segment demo_receiver demo_packet)))) = 0"
  "egress_errors (r_stats (snd (snd (handle_datagram demo_segment demo_receiver demo_packet)))) = 0"
  by code_simp+

lemma demo_receive:
  "\<exists>p v. run_state (receive (r_udp demo_receiver) (rw_packet demo_rx_start) receive_timeout_ms) demo_rx_os =
    ((Inr \<lparr>datagram_size = 48, datagram_peer = p\<rparr>, store_bytes (rw_packet demo_rx_start) 0 demo_packet), v)"
  by (simp add: receive_def receive_message_def receive_timeout_ms_def demo_rx_os_def Let_def
      POLLIN_def MSG_TRUNC_def)

lemma demo_rx_facts:
  "rw_delivered demo_rx_end = [demo_event 1]" "rw_datagrams demo_rx_end = [demo_packet]" "rw_running demo_rx_end"
  "egress_full (r_stats (rw_receiver demo_rx_end)) = 0" "egress_errors (r_stats (rw_receiver demo_rx_end)) = 0"
proof -
  obtain p v where rc: "run_state (receive (r_udp demo_receiver) (rw_packet demo_rx_start) receive_timeout_ms) demo_rx_os =
    ((Inr \<lparr>datagram_size = 48, datagram_peer = p\<rparr>, store_bytes (rw_packet demo_rx_start) 0 demo_packet), v)"
    using demo_receive by blast
  have "length demo_packet = 48" by (simp add: demo_packet_value)
  then have x: "subspan (store_bytes (rw_packet demo_rx_start) 0 demo_packet) 0 48 = demo_packet"
    using subspan_store_same [of 0 demo_packet "rw_packet demo_rx_start"]
    by (simp add: demo_rx_start_def start_receiver_def kMaxPacketBytes_def)
  obtain m r where h: "handle_datagram demo_segment demo_receiver demo_packet = (Continue, m, r)"
    using demo_handled_datagram(2) by (metis prod.collapse)
  have w: "rw_running demo_rx_start" "rw_receiver demo_rx_start = demo_receiver" "rw_os demo_rx_start = demo_rx_os"
    "rw_memory demo_rx_start = demo_segment" "rw_datagrams demo_rx_start = []" "rw_delivered demo_rx_start = []"
    "\<not> r_stop_requested demo_receiver"
    by (simp_all add: demo_rx_start_def start_receiver_def demo_receiver_def make_receiver_def)
  show "rw_delivered demo_rx_end = [demo_event 1]" "rw_datagrams demo_rx_end = [demo_packet]" "rw_running demo_rx_end"
    "egress_full (r_stats (rw_receiver demo_rx_end)) = 0" "egress_errors (r_stats (rw_receiver demo_rx_end)) = 0"
    using demo_handled_datagram(3,4)
    by (simp_all add: demo_rx_end_def receiver_run_def w receiver_pass_def rc x h demo_handled_datagram(1,2))
qed

lemma demo_rx_attached: "addressable (replicate 320 255)"
  "attach_ring 4096 demo_segment = Inr (make_ring demo_segment False)"
  using attach_initialized(3) [OF _ demo_initialized] by (simp_all add: addressable_def)

theorem receiver_delivers_accepted_events_witness:
  "(\<exists>queued. [demo_event 1] = rw_consumed demo_rx_end @ queued \<and> length queued \<le> 2)
    \<and> subseq [demo_event 1] (map dd_event (accepted_views [demo_packet]))"
  using receiver_delivers_accepted_events [OF demo_rx_attached(1) demo_initialized demo_rx_attached(2)
      demo_receiver_def demo_honest refl, of "[Receiver_pass]", folded demo_rx_start_def demo_rx_end_def]
  by (simp add: demo_rx_facts demo_config_def)

theorem receiver_counters_balance_witness:
  "case r_stats (rw_receiver demo_rx_end) of stats \<Rightarrow>
     duplicate_or_old_packets stats = 0 \<and> events_in stats = 1 \<and> events_out stats = 1
     \<and> r_gap_detector (rw_receiver demo_rx_end) = \<lparr>active_session = 9, last_sequence = 1\<rparr>"
proof -
  have g: "([default_result], \<lparr>active_session = 9, last_sequence = 1\<rparr>) =
      gap_run initial_detector (map ident (decoded [demo_packet]))"
    by code_simp
  have "length (accepted_views [demo_packet]) = 1" by code_simp
  then show ?thesis
    using receiver_counters_balance [OF demo_rx_attached(1) demo_initialized demo_rx_attached(2)
        demo_receiver_def demo_honest refl refl, of "[default_result]" "\<lparr>active_session = 9, last_sequence = 1\<rparr>"
          "[Receiver_pass]", folded demo_rx_start_def demo_rx_end_def, unfolded demo_rx_facts(2), OF g refl]
    by (auto simp: demo_rx_facts default_result_def)
qed

theorem receiver_closes_exactly_at_return_witness:
  "pre_state (rw_memory demo_rx_end) = 2
    \<and> \<not> rw_running (receiver_run demo_rx_end [Stop_receiver, Receiver_pass])"
  using receiver_closes_exactly_at_return [OF demo_rx_attached(1) demo_initialized demo_rx_attached(2)
      demo_receiver_def demo_honest refl, of "[Receiver_pass]", folded demo_rx_start_def demo_rx_end_def]
  by (simp add: demo_rx_facts)

end
