(* ===== verification/Receiver_Threads.thy ===== *)
theory Receiver_Threads
  imports Receiver_Properties Ring_Clients
begin

text \<open>
  The receiver engine and the client that reads its events as two threads on the egress ring.
  Receiver_Engine runs a whole pass of \<open>Receiver::run\<close> as one step; here the loop
  (src/receiver/receiver.cpp, from line 103 on) is a program whose call of \<open>try_publish\<close> is made of the
  single loads and stores of Ring_Steps, interleaved with those of the client in any way. The
  engine's handle on the ring is \<open>thr_producer\<close> of the ring's state. What touches no shared memory,
  as the wait for a datagram and its checks, is one step.
\<close>

section \<open>A pass around the publication\<close>

text \<open>
  The part of a pass before \<open>try_publish\<close>: the datagram is decoded, its sequence is checked, and
  an accepted event is counted in.
\<close>

definition filter_datagram :: "Receiver \<Rightarrow> byte list \<Rightarrow> Receiver \<times> event option" where
  "filter_datagram r bytes =
    (let st = (r_stats r)\<lparr>packets_received := packets_received (r_stats r) + 1\<rparr>
     in case decode_data bytes of
          Inl _ \<Rightarrow> (r\<lparr>r_stats := st\<lparr>malformed_packets := malformed_packets st + 1\<rparr>\<rparr>, None)
        | Inr view \<Rightarrow>
            let (checked, detector) =
                  gap_check (r_gap_detector r) (dd_session_id view) (dd_packet_sequence view);
                r = r\<lparr>r_gap_detector := detector\<rparr>
            in if status checked \<noteq> Accepted then
                 let st = (if status checked = DuplicateOrOld
                       then st\<lparr>duplicate_or_old_packets := duplicate_or_old_packets st + 1\<rparr>
                       else st\<lparr>wrong_session_packets := wrong_session_packets st + 1\<rparr>)
                 in (r\<lparr>r_stats := st\<lparr>events_dropped := events_dropped st + 1\<rparr>\<rparr>, None)
               else
                 let st = (if gap checked > 0
                       then st\<lparr>gaps_detected := gaps_detected st + 1,
                               packets_missed := packets_missed st + gap checked\<rparr>
                       else st)
                 in (r\<lparr>r_stats := st\<lparr>events_in := events_in st + 1\<rparr>\<rparr>, Some (dd_event view)))"

text \<open>The part after it: the answer of \<open>try_publish\<close> is counted.\<close>

definition after_publish :: "Receiver \<Rightarrow> PublishResult \<Rightarrow> flow \<times> Receiver" where
  "after_publish r result =
    (let st = r_stats r
     in if result = Ok then (Continue, r\<lparr>r_stats := st\<lparr>events_out := events_out st + 1\<rparr>\<rparr>)
        else
          let st = st\<lparr>events_dropped := events_dropped st + 1\<rparr>;
              st = (if result = Full then st\<lparr>egress_full := egress_full st + 1\<rparr>
                    else st\<lparr>egress_errors := egress_errors st + 1\<rparr>)
          in (if result = PublishResult.Closed then Break else Continue, r\<lparr>r_stats := st\<rparr>))"

text \<open>Put together, with \<open>try_publish\<close> in between, they are the pass of Receiver_Engine.\<close>

lemma handle_datagram_split:
  "handle_datagram m r bytes = (case filter_datagram r bytes of
      (r, None) \<Rightarrow> (Continue, m, r)
    | (r, Some event) \<Rightarrow>
        let (result, m, egress) = try_publish m (r_egress r) event;
            (flow, r) = after_publish (r\<lparr>r_egress := egress\<rparr>) result
        in (flow, m, r))"
proof (cases "decode_data bytes")
  case (Inr d)
  obtain q g where gc: "gap_check (r_gap_detector r) (dd_session_id d) (dd_packet_sequence d) = (q, g)"
    by fastforce
  obtain p m' egress where "try_publish m (r_egress r) (dd_event d) = (p, m', egress)" by (metis prod_cases3)
  then show ?thesis
    by (simp add: handle_datagram_def filter_datagram_def sequence_check_def deliver_def after_publish_def
        Inr gc Let_def)
qed (simp add: handle_datagram_def filter_datagram_def Let_def)

section \<open>The program\<close>

text \<open>
  Where the loop is: before the test of the stop flag, in \<open>try_publish\<close>, before the closing of the
  ring behind the loop, and at the end. \<open>rt_datagrams\<close> records the datagrams that were received.
\<close>

datatype receiver_pc = Rx_head | Rx_publish | Rx_close | Rx_returned

record receiver_threads =
  rt_ring :: ring_threads
  rt_engine :: Receiver
  rt_packet :: "byte list"
  rt_os :: os
  rt_at :: receiver_pc
  rt_datagrams :: "byte list list"

text \<open>The event of a call of \<open>try_publish\<close>.\<close>

fun event_of :: "producer_pc \<Rightarrow> event option" where
  "event_of Idle_producer = None"
| "event_of (Load_state e) = Some e"
| "event_of (Load_position e) = Some e"
| "event_of (Load_read_cursor e pos) = Some e"
| "event_of (Store_header e pos) = Some e"
| "event_of (Copy_payload e pos k) = Some e"
| "event_of (Return_publish e r) = Some e"

fun_cases event_of_SomeE: "event_of pc = Some e"

definition behind_pass :: "flow \<Rightarrow> receiver_pc" where
  "behind_pass f = (if f = Continue then Rx_head else Rx_close)"

text \<open>The wait for a datagram, with the datagram cut out of the packet buffer.\<close>

definition receive_packet :: "receiver_threads \<Rightarrow> (UdpError + byte list) \<times> byte list \<times> os" where
  "receive_packet w =
    (let ((datagram, packet), os) =
           run_state (receive (r_udp (rt_engine w)) (rt_packet w) receive_timeout_ms) (rt_os w)
     in (case datagram of Inl err \<Rightarrow> Inl err
           | Inr d \<Rightarrow> Inr (subspan packet 0 (unat (datagram_size d))), packet, os))"

inductive receiver_move :: "receiver_threads \<Rightarrow> effect \<Rightarrow> receiver_threads \<Rightarrow> bool" where
  rx_stopped: "rt_at w = Rx_head \<Longrightarrow> r_stop_requested (rt_engine w) \<Longrightarrow>
    receiver_move w Silent (w\<lparr>rt_at := Rx_close\<rparr>)"
| rx_error: "rt_at w = Rx_head \<Longrightarrow> \<not> r_stop_requested (rt_engine w) \<Longrightarrow>
    receive_packet w = (Inl err, packet, os) \<Longrightarrow> handle_receive_error (rt_engine w) err = (f, r) \<Longrightarrow>
    receiver_move w Silent (w\<lparr>rt_engine := r, rt_packet := packet, rt_os := os, rt_at := behind_pass f\<rparr>)"
| rx_dropped: "rt_at w = Rx_head \<Longrightarrow> \<not> r_stop_requested (rt_engine w) \<Longrightarrow>
    receive_packet w = (Inr bytes, packet, os) \<Longrightarrow> filter_datagram (rt_engine w) bytes = (r, None) \<Longrightarrow>
    receiver_move w Silent (w\<lparr>rt_engine := r, rt_packet := packet, rt_os := os,
      rt_datagrams := rt_datagrams w @ [bytes]\<rparr>)"
| rx_accepted: "rt_at w = Rx_head \<Longrightarrow> \<not> r_stop_requested (rt_engine w) \<Longrightarrow>
    receive_packet w = (Inr bytes, packet, os) \<Longrightarrow> filter_datagram (rt_engine w) bytes = (r, Some e) \<Longrightarrow>
    producer_step (rt_ring w) Silent ring \<Longrightarrow> event_of (thr_publishing ring) = Some e \<Longrightarrow>
    receiver_move w Silent (w\<lparr>rt_ring := ring, rt_engine := r, rt_packet := packet, rt_os := os,
      rt_at := Rx_publish, rt_datagrams := rt_datagrams w @ [bytes]\<rparr>)"
| rx_publishing: "rt_at w = Rx_publish \<Longrightarrow> \<forall>e p. thr_publishing (rt_ring w) \<noteq> Return_publish e p \<Longrightarrow>
    producer_step (rt_ring w) l ring \<Longrightarrow>
    receiver_move w l (w\<lparr>rt_ring := ring\<rparr>)"
| rx_published: "rt_at w = Rx_publish \<Longrightarrow> thr_publishing (rt_ring w) = Return_publish e result \<Longrightarrow>
    producer_step (rt_ring w) Silent ring \<Longrightarrow> after_publish (rt_engine w) result = (f, r) \<Longrightarrow>
    receiver_move w Silent (w\<lparr>rt_ring := ring, rt_engine := r, rt_at := behind_pass f\<rparr>)"
| rx_close: "rt_at w = Rx_close \<Longrightarrow>
    close_publication (thr_memory (rt_ring w)) (thr_producer (rt_ring w)) = (closing, m) \<Longrightarrow>
    receiver_move w (if closing then Closing else Silent)
      (w\<lparr>rt_ring := (rt_ring w)\<lparr>thr_memory := m\<rparr>, rt_at := Rx_returned\<rparr>)"

text \<open>Next to the loop, the client acquires and releases events, and any thread asks for the stop.\<close>

inductive receiver_threads_step :: "receiver_threads \<Rightarrow> effect \<Rightarrow> receiver_threads \<Rightarrow> bool" where
  by_receiver: "receiver_move w l w' \<Longrightarrow> receiver_threads_step w l w'"
| by_client: "consumer_step (rt_ring w) l ring \<Longrightarrow> receiver_threads_step w l (w\<lparr>rt_ring := ring\<rparr>)"
| by_stopper: "receiver_threads_step w Silent (w\<lparr>rt_engine := receiver_request_stop (rt_engine w)\<rparr>)"

inductive receiver_trace :: "receiver_threads \<Rightarrow> effect list \<Rightarrow> receiver_threads \<Rightarrow> bool" where
  rx_start: "receiver_trace w [] w"
| rx_more: "receiver_trace w ls w' \<Longrightarrow> receiver_threads_step w' l w'' \<Longrightarrow> receiver_trace w (ls @ [l]) w''"

definition start_receiver_threads :: "ring_threads \<Rightarrow> Receiver \<Rightarrow> os \<Rightarrow> receiver_threads" where
  "start_receiver_threads ring r w = \<lparr>rt_ring = ring, rt_engine = r,
     rt_packet = replicate (unat kMaxPacketBytes) 0, rt_os = w, rt_at = Rx_head, rt_datagrams = []\<rparr>"

section \<open>The counters around a publication\<close>

text \<open>An event that the datagram \<open>x\<close> brought is about to be result.\<close>

definition rx_pending :: "byte list list \<Rightarrow> byte list \<Rightarrow> event \<Rightarrow> EngineStats \<Rightarrow> nat \<Rightarrow> nat \<Rightarrow> bool" where
  "rx_pending ds x e st t k \<longleftrightarrow> (\<exists>d q g st0. decode_data x = Inr d \<and> e = dd_event d \<and> status q = Accepted
     \<and> gap_check (detector_after ds) (dd_session_id d) (dd_packet_sequence d) = (q, g)
     \<and> rx_balanced st0 ds t k
     \<and> st = (counted_accept st0 (gap q))\<lparr>events_in := events_in (counted_accept st0 (gap q)) + 1\<rparr>)"

lemma filter_datagram_ok:
  assumes det: "r_gap_detector r = detector_after ds" and bal: "rx_balanced (r_stats r) ds t k"
    and h: "filter_datagram r x = (r', out)"
  shows "r_gap_detector r' = detector_after (ds @ [x])" and "r_stop_requested r' = r_stop_requested r"
    and "out = None \<Longrightarrow> rx_balanced (r_stats r') (ds @ [x]) t k"
    and "out = Some e \<Longrightarrow> rx_pending ds x e (r_stats r') t k"
proof -
  have "r_gap_detector r' = detector_after (ds @ [x]) \<and> r_stop_requested r' = r_stop_requested r
    \<and> (out = None \<longrightarrow> rx_balanced (r_stats r') (ds @ [x]) t k)
    \<and> (out = Some e \<longrightarrow> rx_pending ds x e (r_stats r') t k)"
  proof (cases "decode_data x")
    case (Inl err)
    with h det bal spec_snoc_bad [OF Inl, of ds] show ?thesis
      by (auto simp: filter_datagram_def Let_def rx_balanced_def algebra_simps simp del: decoded_snoc)
  next
    case (Inr d)
    obtain q g where gc: "gap_check (r_gap_detector r) (dd_session_id d) (dd_packet_sequence d) = (q, g)"
      by fastforce
    note sp = spec_snoc_good [OF Inr gc [unfolded det]]
    show ?thesis
    proof (cases "status q = Accepted")
      case False
      note rej = gap_check_rejected [OF gc False]
      have "rx_balanced (r_stats r') (ds @ [x]) t k" "out = None" "r_gap_detector r' = g"
        "r_stop_requested r' = r_stop_requested r"
        using h False rej bal
        by (auto simp: filter_datagram_def Inr gc Let_def rx_balanced_def sp(1,3,4)
            simp del: decoded_snoc split: if_splits)
      then show ?thesis using sp(2) by simp
    next
      case True
      have st: "r_stats r' = (counted_accept (r_stats r) (gap q))\<lparr>events_in :=
          events_in (counted_accept (r_stats r) (gap q)) + 1\<rparr>"
        and out: "out = Some (dd_event d)" "r_gap_detector r' = g" "r_stop_requested r' = r_stop_requested r"
        using h True by (auto simp: filter_datagram_def Inr gc Let_def counted_accept_def)
      have "rx_pending ds x (dd_event d) (r_stats r') t k"
        unfolding rx_pending_def using Inr True gc det bal st by auto
      then show ?thesis using out sp(2) by auto
    qed
  qed
  then show "r_gap_detector r' = detector_after (ds @ [x])" "r_stop_requested r' = r_stop_requested r"
    "out = None \<Longrightarrow> rx_balanced (r_stats r') (ds @ [x]) t k"
    "out = Some e \<Longrightarrow> rx_pending ds x e (r_stats r') t k" by simp_all
qed

lemma after_publish_ok:
  assumes "rx_pending ds x e (r_stats r) t k" and "after_publish r result = (f, r')"
  shows "rx_balanced (r_stats r') (ds @ [x]) t (k + (if result = Ok then 1 else 0))"
    and "r_gap_detector r' = r_gap_detector r" and "r_stop_requested r' = r_stop_requested r"
proof -
  obtain d q g st0 where p: "decode_data x = Inr d" "status q = Accepted"
    "gap_check (detector_after ds) (dd_session_id d) (dd_packet_sequence d) = (q, g)"
    "rx_balanced st0 ds t k"
    "r_stats r = (counted_accept st0 (gap q))\<lparr>events_in := events_in (counted_accept st0 (gap q)) + 1\<rparr>"
    using assms(1) by (auto simp: rx_pending_def)
  show "r_gap_detector r' = r_gap_detector r" "r_stop_requested r' = r_stop_requested r"
    using assms(2) by (auto simp: after_publish_def Let_def split: if_splits)
  show "rx_balanced (r_stats r') (ds @ [x]) t (k + (if result = Ok then 1 else 0))"
    by (rule rx_balanced_accepted [OF p(1,2,3,4) refl])
      (use assms(2) p(5) in \<open>auto simp: after_publish_def Let_def split: if_splits\<close>)
qed

lemma rx_pending_accepted:
  assumes "rx_pending ds x e st t k"
  shows "map dd_event (accepted_views (ds @ [x])) = map dd_event (accepted_views ds) @ [e]"
  using assms spec_snoc_good(3) by (fastforce simp: rx_pending_def)

section \<open>The invariant of the loop\<close>

text \<open>The event that the call has appended when it is about to answer Ok.\<close>

definition appended :: "producer_pc \<Rightarrow> event list" where
  "appended pc = (case pc of Return_publish e r \<Rightarrow> if r = Ok then [e] else [] | _ \<Rightarrow> [])"

definition rx_delivered :: "byte list list \<Rightarrow> event list \<Rightarrow> Receiver \<Rightarrow> bool" where
  "rx_delivered ds es r \<longleftrightarrow> subseq es (map dd_event (accepted_views ds))
     \<and> (\<exists>t. rx_balanced (r_stats r) ds t (length es))"

definition rx_at :: "effect list \<Rightarrow> receiver_threads \<Rightarrow> bool" where
  "rx_at ls w = (let pc = thr_publishing (rt_ring w); r = rt_engine w
    in case rt_at w of
      Rx_publish \<Rightarrow> (\<exists>ds x es e t. rt_datagrams w = ds @ [x] \<and> enqueued ls = es @ appended pc
          \<and> event_of pc = Some e \<and> rx_pending ds x e (r_stats r) t (length es)
          \<and> subseq es (map dd_event (accepted_views ds)))
    | _ \<Rightarrow> pc = Idle_producer \<and> rx_delivered (rt_datagrams w) (enqueued ls) r)"

definition rx_inv :: "nat \<Rightarrow> nat \<Rightarrow> nat \<Rightarrow> effect list \<Rightarrow> receiver_threads \<Rightarrow> bool" where
  "rx_inv n st cap ls w \<longleftrightarrow> ring_at n st cap ls (rt_ring w) \<and> initializer (thr_producer (rt_ring w))
     \<and> length (rt_packet w) = 1416 \<and> honest_recvmsg (rt_os w)
     \<and> (\<forall>x \<in> set (rt_datagrams w). delivered_datagram (rt_os w) x)
     \<and> r_gap_detector (rt_engine w) = detector_after (rt_datagrams w)
     \<and> (Closing \<in> set ls \<longleftrightarrow> rt_at w = Rx_returned) \<and> rx_at ls w"

text \<open>What the steps of the producer do to its position.\<close>

lemma producer_call:
  "producer_step r Silent r' \<Longrightarrow> thr_publishing r = Idle_producer \<Longrightarrow>
    thr_publishing r' \<noteq> Idle_producer \<and> appended (thr_publishing r') = []"
  by (erule producer_step.cases) (auto simp: appended_def)

lemma producer_inner:
  "producer_step r l r' \<Longrightarrow> thr_publishing r \<noteq> Idle_producer \<Longrightarrow>
    \<forall>e x. thr_publishing r \<noteq> Return_publish e x \<Longrightarrow>
    event_of (thr_publishing r') = event_of (thr_publishing r) \<and> appended (thr_publishing r) = []
    \<and> enqueued (ls @ [l]) = enqueued ls @ appended (thr_publishing r')"
  by (erule producer_step.cases)
    (auto simp: appended_def after_state_def after_position_def after_reload_def)

lemma producer_return:
  "producer_step r l r' \<Longrightarrow> thr_publishing r = Return_publish e x \<Longrightarrow>
    l = Silent \<and> thr_publishing r' = Idle_producer"
  by (erule producer_step.cases) auto

lemma producer_handle:
  "producer_step r l r' \<Longrightarrow> initializer (thr_producer r') = initializer (thr_producer r) \<and> l \<noteq> Closing"
  by (erule producer_step.cases) auto

text \<open>What the other side does.\<close>

lemma consumer_side:
  assumes "consumer_step r l r'"
  shows "thr_publishing r' = thr_publishing r" and "thr_producer r' = thr_producer r"
    and "enqueued (ls @ [l]) = enqueued ls" and "l \<noteq> Closing"
  using assms by (auto elim!: consumer_step.cases)

section \<open>Every step keeps the invariant\<close>

lemma rx_inv_client:
  assumes inv: "rx_inv n st cap ls w" and step: "consumer_step (rt_ring w) l r"
  shows "rx_inv n st cap (ls @ [l]) (w\<lparr>rt_ring := r\<rparr>)"
proof -
  note c = consumer_side [OF step]
  have "ring_at n st cap (ls @ [l]) r"
    using inv ring_at_step ring_step.by_consumer [OF step] by (auto simp: rx_inv_def)
  moreover have "rx_at (ls @ [l]) (w\<lparr>rt_ring := r\<rparr>)"
    using inv by (auto simp: rx_inv_def rx_at_def Let_def c(1,3) simp del: effect_lists split: receiver_pc.splits)
  ultimately show ?thesis using inv c(2,4) by (auto simp: rx_inv_def)
qed

lemma rx_inv_stopper:
  assumes "rx_inv n st cap ls w"
  shows "rx_inv n st cap (ls @ [Silent]) (w\<lparr>rt_engine := receiver_request_stop (rt_engine w)\<rparr>)"
  using assms ring_at_silent [of n st cap ls "rt_ring w"]
  by (auto simp: rx_inv_def rx_at_def Let_def rx_delivered_def receiver_request_stop_def split: receiver_pc.splits)

text \<open>The wait for a datagram.\<close>

lemma receive_packet_ok:
  assumes "receive_packet w = (d, packet, os)" and "length (rt_packet w) = 1416" and "honest_recvmsg (rt_os w)"
  shows "length packet = 1416" and "honest_recvmsg os"
    and "delivered_datagram os x = delivered_datagram (rt_os w) x"
    and "d = Inr bytes \<Longrightarrow> delivered_datagram (rt_os w) bytes"
proof -
  obtain datagram where rc: "run_state (receive (r_udp (rt_engine w)) (rt_packet w) receive_timeout_ms) (rt_os w)
      = ((datagram, packet), os)"
    and d: "d = (case datagram of Inl err \<Rightarrow> Inl err | Inr d \<Rightarrow> Inr (subspan packet 0 (unat (datagram_size d))))"
    using assms(1) by (auto simp: receive_packet_def Let_def split: prod.splits)
  show "length packet = 1416" using run_receive [OF rc] assms(2) by simp
  have "extends (rt_os w) os" using run_receive [OF rc] by simp
  then show "honest_recvmsg os" "delivered_datagram os x = delivered_datagram (rt_os w) x"
    using assms(3) by (simp_all add: extends_def honest_recvmsg_def delivered_datagram_def)
  show "d = Inr bytes \<Longrightarrow> delivered_datagram (rt_os w) bytes"
    using run_receive_data(1) [OF _ assms(2,3)] rc d by (cases datagram) auto
qed

text \<open>A step of the ring that the loop makes.\<close>

lemma rx_inv_producer:
  assumes inv: "rx_inv n st cap ls w" and step: "producer_step (rt_ring w) l ring"
    and at: "rx_at (ls @ [l]) (w\<lparr>rt_ring := ring, rt_engine := r, rt_at := pc\<rparr>)"
    and "r_gap_detector r = r_gap_detector (rt_engine w)"
    and "rt_at w \<noteq> Rx_returned" and "pc \<noteq> Rx_returned"
  shows "rx_inv n st cap (ls @ [l]) (w\<lparr>rt_ring := ring, rt_engine := r, rt_at := pc\<rparr>)"
proof -
  have "ring_at n st cap (ls @ [l]) ring"
    using inv ring_at_step ring_step.by_producer [OF step] by (auto simp: rx_inv_def)
  then show ?thesis using inv at producer_handle [OF step] assms(4-6) by (auto simp: rx_inv_def)
qed

lemma rx_delivered_dropped:
  assumes "subseq es (map dd_event (accepted_views ds))"
  shows "subseq es (map dd_event (accepted_views (ds @ [x])))"
  using subseq_extend [OF assms, of "[]"] accepted_views_prefix by simp

lemma rx_inv_close:
  assumes inv: "rx_inv n st cap ls w" and "rt_at w = Rx_close"
    and cl: "close_publication (thr_memory (rt_ring w)) (thr_producer (rt_ring w)) = (closing, m)"
  shows "rx_inv n st cap (ls @ [if closing then Closing else Silent])
    (w\<lparr>rt_ring := (rt_ring w)\<lparr>thr_memory := m\<rparr>, rt_at := Rx_returned\<rparr>)"
proof -
  have ring: "ring_at n st cap ls (rt_ring w)" "initializer (thr_producer (rt_ring w))"
    "thr_publishing (rt_ring w) = Idle_producer"
    using inv assms(2) by (simp_all add: rx_inv_def rx_at_def Let_def)
  have "has_header (thr_producer (rt_ring w))"
    using threads_okD(2) [OF ring_at_ok [OF ring(1)]] by (simp add: handle_ok_def)
  then have c: "closing = True" using cl ring(2) by (auto simp: close_publication_def split: if_splits)
  have "ring_at n st cap (ls @ [Closing]) ((rt_ring w)\<lparr>thr_memory := m\<rparr>)"
    using ring_at_step [OF ring(1) ring_step.by_owner [OF owner_step.close [OF ring(3)]]] cl c by simp
  then show ?thesis
    using inv assms(2) by (auto simp: rx_inv_def rx_at_def Let_def c)
qed

lemma rx_inv_move:
  assumes "receiver_move w l w'" and inv: "rx_inv n st cap ls w"
  shows "rx_inv n st cap (ls @ [l]) w'"
  using assms(1)
proof cases
  case rx_stopped
  then show ?thesis using inv ring_at_silent [of n st cap ls "rt_ring w"]
    by (auto simp: rx_inv_def rx_at_def Let_def)
next
  case (rx_error err packet os f r)
  have i: "length (rt_packet w) = 1416" "honest_recvmsg (rt_os w)" using inv by (simp_all add: rx_inv_def)
  obtain t where "rx_balanced (r_stats (rt_engine w)) (rt_datagrams w) t (length (enqueued ls))"
    using inv rx_error(3) by (auto simp: rx_inv_def rx_at_def Let_def rx_delivered_def)
  note e = handle_receive_error_effect [OF rx_error(6) this] and p = receive_packet_ok [OF rx_error(5) i]
  show ?thesis
    using inv e p rx_error ring_at_silent [of n st cap ls "rt_ring w"]
    by (cases f) (simp_all add: rx_inv_def rx_at_def Let_def rx_delivered_def behind_pass_def)
next
  case (rx_dropped bytes packet os r)
  have i: "length (rt_packet w) = 1416" "honest_recvmsg (rt_os w)"
    "r_gap_detector (rt_engine w) = detector_after (rt_datagrams w)" using inv by (simp_all add: rx_inv_def)
  obtain t where b: "rx_balanced (r_stats (rt_engine w)) (rt_datagrams w) t (length (enqueued ls))"
    and s: "subseq (enqueued ls) (map dd_event (accepted_views (rt_datagrams w)))"
    using inv rx_dropped(3) by (auto simp: rx_inv_def rx_at_def Let_def rx_delivered_def)
  note e = filter_datagram_ok [OF i(3) b rx_dropped(6)] and p = receive_packet_ok [OF rx_dropped(5) i(1,2)]
  show ?thesis
    using inv e p(1-3) p(4) [OF refl] rx_dropped rx_delivered_dropped [OF s]
      ring_at_silent [of n st cap ls "rt_ring w"]
    by (auto simp: rx_inv_def rx_at_def Let_def rx_delivered_def)
next
  case (rx_accepted bytes packet os r e ring)
  have i: "length (rt_packet w) = 1416" "honest_recvmsg (rt_os w)" "thr_publishing (rt_ring w) = Idle_producer"
    "r_gap_detector (rt_engine w) = detector_after (rt_datagrams w)"
    using inv rx_accepted(3) by (simp_all add: rx_inv_def rx_at_def Let_def)
  obtain t where b: "rx_balanced (r_stats (rt_engine w)) (rt_datagrams w) t (length (enqueued ls))"
    and s: "subseq (enqueued ls) (map dd_event (accepted_views (rt_datagrams w)))"
    using inv rx_accepted(3) by (auto simp: rx_inv_def rx_at_def Let_def rx_delivered_def)
  note e = filter_datagram_ok [OF i(4) b rx_accepted(6)] and p = receive_packet_ok [OF rx_accepted(5) i(1,2)]
  have ring: "ring_at n st cap (ls @ [Silent]) ring"
    using inv ring_at_step ring_step.by_producer [OF rx_accepted(7)] by (auto simp: rx_inv_def)
  have "rx_at (ls @ [Silent]) w'"
    using e(4) [OF refl] s producer_call [OF rx_accepted(7) i(3)] rx_accepted(8)
    by (auto simp: rx_at_def Let_def rx_accepted(2))
  then show ?thesis
    using inv e(1) p(1-3) p(4) [OF refl] rx_accepted ring producer_handle [OF rx_accepted(7)]
    by (auto simp: rx_inv_def)
next
  case (rx_publishing ring)
  obtain ds x es e t where at: "rt_datagrams w = ds @ [x]"
    "enqueued ls = es @ appended (thr_publishing (rt_ring w))" "event_of (thr_publishing (rt_ring w)) = Some e"
    "rx_pending ds x e (r_stats (rt_engine w)) t (length es)" "subseq es (map dd_event (accepted_views ds))"
    using inv rx_publishing(2) by (auto simp: rx_inv_def rx_at_def Let_def)
  have "thr_publishing (rt_ring w) \<noteq> Idle_producer" using at(3) by auto
  note p = producer_inner [OF rx_publishing(4) this rx_publishing(3), of ls]
  have w': "w' = w\<lparr>rt_ring := ring, rt_engine := rt_engine w, rt_at := rt_at w\<rparr>" using rx_publishing(1) by simp
  have "rx_at (ls @ [l]) (w\<lparr>rt_ring := ring, rt_engine := rt_engine w, rt_at := rt_at w\<rparr>)"
    using at p rx_publishing(2) by (auto simp: rx_at_def Let_def simp del: effect_lists)
  from rx_inv_producer [OF inv rx_publishing(4) this] show ?thesis
    unfolding w' using rx_publishing(2) by simp
next
  case (rx_published e result ring f r)
  obtain ds x es e' t where at: "rt_datagrams w = ds @ [x]"
    "enqueued ls = es @ (if result = Ok then [e'] else [])"
    "rx_pending ds x e' (r_stats (rt_engine w)) t (length es)" "subseq es (map dd_event (accepted_views ds))"
    using inv rx_published(3,4) by (auto simp: rx_inv_def rx_at_def Let_def appended_def)
  note a = after_publish_ok [OF at(3) rx_published(6)] and acc = rx_pending_accepted [OF at(3)]
  have "subseq (enqueued ls) (map dd_event (accepted_views (ds @ [x])))"
    unfolding acc at(2) using at(4) by (auto intro: list_emb_append_mono)
  then have "rx_at (ls @ [Silent]) (w\<lparr>rt_ring := ring, rt_engine := r, rt_at := behind_pass f\<rparr>)"
    using a(1) producer_return [OF rx_published(5,4)] at(1,2)
    by (auto simp: rx_at_def Let_def rx_delivered_def behind_pass_def split: if_splits)
  from rx_inv_producer [OF inv rx_published(5) this a(2)] show ?thesis
    using rx_published(1-3) by (auto simp: behind_pass_def)
next
  case (rx_close closing m)
  then show ?thesis using rx_inv_close [OF inv rx_close(3,4)] by simp
qed

lemma rx_inv_step: "receiver_threads_step w l w' \<Longrightarrow> rx_inv n st cap ls w \<Longrightarrow> rx_inv n st cap (ls @ [l]) w'"
  by (erule receiver_threads_step.cases) (auto intro: rx_inv_move rx_inv_client rx_inv_stopper)

lemma rx_inv_trace: "receiver_trace w ls w' \<Longrightarrow> rx_inv n st cap [] w \<Longrightarrow> rx_inv n st cap ls w'"
  by (induction rule: receiver_trace.induct) (auto intro: rx_inv_step)

section \<open>The loop is never stuck\<close>

lemma rx_event_small:
  assumes "rx_inv n st cap ls w" and "rt_at w = Rx_publish" and "event_of (thr_publishing (rt_ring w)) = Some e"
  shows "length (payload e) \<le> 1374"
proof -
  obtain ds x t k where p: "rt_datagrams w = ds @ [x]" "rx_pending ds x e (r_stats (rt_engine w)) t k"
    using assms by (auto simp: rx_inv_def rx_at_def Let_def)
  obtain d where d: "decode_data x = Inr d" "e = dd_event d" using p(2) by (auto simp: rx_pending_def)
  have "addressable x" using assms(1) p(1) by (auto simp: rx_inv_def intro: delivered_small)
  from decoded_packet_of(1) [OF this d(1)] show ?thesis by (simp add: encodable_def d(2))
qed

lemma filtered_small:
  assumes "filter_datagram r x = (r', Some e)" and "addressable x"
  shows "length (payload e) \<le> 1374"
proof -
  obtain d where "decode_data x = Inr d" "e = dd_event d"
    using assms(1) by (auto simp: filter_datagram_def Let_def split: sum.splits prod.splits if_splits)
  with decoded_packet_of(1) [OF assms(2)] show ?thesis by (simp add: encodable_def)
qed

lemma producer_call_can_step:
  assumes "ring_at n st cap ls r" and "thr_publishing r = Idle_producer" and "length (payload e) \<le> 1374"
  shows "\<exists>r'. producer_step r Silent r' \<and> event_of (thr_publishing r') = Some e"
proof -
  have "has_header (thr_producer r)" using threads_okD(2) [OF ring_at_ok [OF assms(1)]] by (simp add: handle_ok_def)
  moreover have "addressable (payload e)" using assms(3) by (intro addressable_smallI) simp
  ultimately show ?thesis
    using producer_step.call_publish [OF assms(2)] by (intro exI conjI) auto
qed

lemma rx_can_move:
  assumes inv: "rx_inv n st cap ls w" and "rt_at w \<noteq> Rx_returned"
  shows "\<exists>l w'. receiver_move w l w'"
proof (cases "rt_at w")
  case Rx_head
  have i: "ring_at n st cap ls (rt_ring w)" "length (rt_packet w) = 1416" "honest_recvmsg (rt_os w)"
    "thr_publishing (rt_ring w) = Idle_producer"
    using inv Rx_head by (simp_all add: rx_inv_def rx_at_def Let_def)
  obtain d packet os where rp: "receive_packet w = (d, packet, os)" by (metis prod_cases3)
  show ?thesis
  proof (cases "r_stop_requested (rt_engine w)")
    case True
    then show ?thesis using rx_stopped [OF Rx_head] by blast
  next
    case False
    show ?thesis
    proof (cases d)
      case (Inl err)
      obtain f r where "handle_receive_error (rt_engine w) err = (f, r)" by fastforce
      from rx_error [OF Rx_head False rp [unfolded Inl] this] show ?thesis by blast
    next
      case (Inr bytes)
      obtain r out where f: "filter_datagram (rt_engine w) bytes = (r, out)" by fastforce
      show ?thesis
      proof (cases out)
        case None
        from rx_dropped [OF Rx_head False rp [unfolded Inr] f [unfolded None]] show ?thesis by blast
      next
        case (Some e)
        have "addressable bytes" using receive_packet_ok(4) [OF rp i(2,3) Inr] delivered_small [OF i(3)] by blast
        from producer_call_can_step [OF i(1,4) filtered_small [OF f [unfolded Some] this]]
        show ?thesis using rx_accepted [OF Rx_head False rp [unfolded Inr] f [unfolded Some]] by blast
      qed
    qed
  qed
next
  case Rx_publish
  have at: "threads_ok n st cap (rt_ring w)" "thr_publishing (rt_ring w) \<noteq> Idle_producer"
    using inv ring_at_ok Rx_publish by (auto simp: rx_inv_def rx_at_def Let_def)
  show ?thesis
  proof (cases "\<exists>e p. thr_publishing (rt_ring w) = Return_publish e p")
    case True
    then obtain e p where r: "thr_publishing (rt_ring w) = Return_publish e p" by blast
    obtain f s where "after_publish (rt_engine w) p = (f, s)" by fastforce
    from rx_published [OF Rx_publish r producer_step.return_publish [OF r] this] show ?thesis by blast
  next
    case False
    then show ?thesis using producer_can_step [OF at] rx_publishing [OF Rx_publish] by metis
  qed
next
  case Rx_close
  from rx_close [OF Rx_close] show ?thesis by (metis prod.exhaust)
qed (use assms(2) in simp)

text \<open>After a request to stop: the moves that the loop still makes, at most.\<close>

definition rx_work :: "receiver_threads \<Rightarrow> nat" where
  "rx_work w = (case rt_at w of
      Rx_returned \<Rightarrow> 0 | Rx_close \<Rightarrow> 1 | Rx_head \<Rightarrow> 2
    | Rx_publish \<Rightarrow> 2 + producer_work (thr_publishing (rt_ring w)))"

lemma rx_work_bounded:
  assumes "rx_inv n st cap ls w"
  shows "rx_work w \<le> 1382"
proof (cases "rt_at w = Rx_publish")
  case True
  then obtain e where e: "event_of (thr_publishing (rt_ring w)) = Some e"
    using assms by (auto simp: rx_inv_def rx_at_def Let_def)
  have "producer_work (thr_publishing (rt_ring w)) \<le> 6 + length (payload e)"
    using e by (rule event_of_SomeE) auto
  then show ?thesis using rx_event_small [OF assms True e] True by (simp add: rx_work_def)
qed (simp add: rx_work_def split: receiver_pc.split)

lemma rx_work_decreases:
  assumes "receiver_move w l w'" and inv: "rx_inv n st cap ls w" and "r_stop_requested (rt_engine w)"
  shows "rx_work w' < rx_work w" and "r_stop_requested (rt_engine w')"
proof -
  have busy: "thr_publishing (rt_ring w) \<noteq> Idle_producer" if "rt_at w = Rx_publish"
    using inv that by (auto simp: rx_inv_def rx_at_def Let_def)
  have "rx_work w' < rx_work w \<and> r_stop_requested (rt_engine w')"
    using assms(1)
  proof cases
    case (rx_publishing ring)
    then show ?thesis
      using producer_work_decreases [OF rx_publishing(4)] busy assms(3) by (simp add: rx_work_def)
  next
    case (rx_published e result ring f r)
    moreover have "r_stop_requested r"
      using rx_published(6) assms(3) by (auto simp: after_publish_def Let_def split: if_splits)
    ultimately show ?thesis by (simp add: rx_work_def behind_pass_def)
  qed (use assms(3) in \<open>simp_all add: rx_work_def\<close>)
  then show "rx_work w' < rx_work w" "r_stop_requested (rt_engine w')" by simp_all
qed

text \<open>Behind the loop only the client is left.\<close>

lemma rx_closed_final:
  "receiver_trace w ks w' \<Longrightarrow> rx_inv n st cap ls w \<Longrightarrow> Closing \<in> set ls \<Longrightarrow>
    rx_inv n st cap (ls @ ks) w' \<and> enqueued ks = []"
proof (induction rule: receiver_trace.induct)
  case (rx_more w ks w' l w'')
  then have i: "rx_inv n st cap (ls @ ks) w'" "enqueued ks = []" "Closing \<in> set (ls @ ks)" by simp_all
  have "rt_at w' = Rx_returned" using i(1,3) by (simp add: rx_inv_def)
  have "enqueued (ks @ [l]) = enqueued ks"
    using rx_more.hyps(2)
  proof cases
    case by_receiver
    then show ?thesis using \<open>rt_at w' = Rx_returned\<close> by (auto elim!: receiver_move.cases)
  next
    case (by_client ring)
    then show ?thesis by (intro consumer_side(3))
  qed simp
  moreover have "rx_inv n st cap (ls @ ks @ [l]) w''" using rx_inv_step [OF rx_more.hyps(2) i(1)] by simp
  ultimately show ?case using i(2) by simp
qed simp

end
