(* ===== verification/Concurrent_Receiver.thy ===== *)
theory Concurrent_Receiver
  imports Receiver_Threads Ring_Calls_Witnesses
begin

text \<open>
  The properties of the receiver engine that runs concurrently with the client of its ring
  (Receiver_Threads), from a new ring and a new engine on, and a run in which one datagram goes through.
\<close>

section \<open>Runs\<close>

lemma started_rx_inv:
  assumes "new_threads ring_config ring" and "initializer (thr_producer ring)"
    and "r = make_receiver config seg egress udp" and "honest_recvmsg os"
  shows "rx_inv (unat (cfg_slot_count ring_config)) (ring_stride ring)
    (unat (cfg_slot_payload_capacity ring_config)) [] (start_receiver_threads ring r os)"
proof -
  have "rx_balanced zero_stats [] 0 0"
    by (simp add: rx_balanced_def zero_stats_def decoded_def verdicts_def accepted_views_def)
  then have "rx_delivered [] [] r" by (auto simp: rx_delivered_def assms(3) make_receiver_def)
  then show ?thesis
    using assms(2,4) ring_at_new [OF assms(1)] new_threads_idle(2) [OF assms(1)]
    by (simp add: rx_inv_def rx_at_def Let_def start_receiver_threads_def assms(3) make_receiver_def
        kMaxPacketBytes_def detector_after_def decoded_def)
qed

lemma receiver_threads_run:
  assumes "new_threads ring_config ring" and "initializer (thr_producer ring)"
    and "r = make_receiver config seg egress udp" and "honest_recvmsg os"
    and "receiver_trace (start_receiver_threads ring r os) ls w"
  shows "rx_inv (unat (cfg_slot_count ring_config)) (ring_stride ring)
    (unat (cfg_slot_payload_capacity ring_config)) ls w"
  using rx_inv_trace [OF assms(5) started_rx_inv [OF assms(1-4)]] .

lemma rx_inv_subseq:
  assumes "rx_inv n st cap ls w"
  shows "subseq (enqueued ls) (map dd_event (accepted_views (rt_datagrams w)))"
proof (cases "rt_at w = Rx_publish")
  case True
  then obtain ds x es e t where at: "rt_datagrams w = ds @ [x]"
    "enqueued ls = es @ appended (thr_publishing (rt_ring w))" "event_of (thr_publishing (rt_ring w)) = Some e"
    "rx_pending ds x e (r_stats (rt_engine w)) t (length es)" "subseq es (map dd_event (accepted_views ds))"
    using assms by (auto simp: rx_inv_def rx_at_def Let_def)
  have "subseq (appended (thr_publishing (rt_ring w))) [e]"
    using at(3) by (cases "thr_publishing (rt_ring w)") (auto simp: appended_def)
  then show ?thesis
    unfolding at(1,2) rx_pending_accepted [OF at(4)] using at(5) by (rule list_emb_append_mono [rotated])
next
  case False
  then show ?thesis using assms by (cases "rt_at w") (simp_all add: rx_inv_def rx_at_def Let_def rx_delivered_def)
qed

text \<open>
  C5. The concurrent receiver: with the loop and the client interleaved load by load on the ring,
  the events the client has released are at every moment the first ones of those published, which are
  a subsequence of the events of the accepted datagrams, of one session and with increasing packet
  sequences; between two publications events_in counts the accepted events, events_out those that
  were published, and egress_full and egress_errors together the others.
\<close>

theorem concurrent_receiver_delivers:
  assumes "new_threads ring_config ring" and "initializer (thr_producer ring)"
    and "r = make_receiver config seg egress udp" and "honest_recvmsg os"
    and "receiver_trace (start_receiver_threads ring r os) ls w"
    and "ds = rt_datagrams w" and "stats = receiver_stats (rt_engine w)"
  shows "(\<exists>queued. enqueued ls = dequeued ls @ queued \<and> length queued \<le> unat (cfg_slot_count ring_config))
    \<and> subseq (enqueued ls) (map dd_event (accepted_views ds))
    \<and> sorted_wrt (<) (map dd_packet_sequence (accepted_views ds))
    \<and> (\<exists>sid. \<forall>d \<in> set (accepted_views ds). dd_session_id d = sid \<and> (\<exists>x \<in> set ds. decode_data x = Inr d))
    \<and> (rt_at w \<noteq> Rx_publish \<longrightarrow> events_in stats = of_nat (length (accepted_views ds))
        \<and> events_out stats = of_nat (length (enqueued ls))
        \<and> events_out stats + egress_full stats + egress_errors stats = events_in stats)"
proof -
  note i = receiver_threads_run [OF assms(1-5)]
  have ring: "ring_at (unat (cfg_slot_count ring_config)) (ring_stride ring)
      (unat (cfg_slot_payload_capacity ring_config)) ls (rt_ring w)"
    and small: "\<forall>x \<in> set ds. addressable x"
    using i by (auto simp: rx_inv_def assms(6) intro: delivered_small)
  have "\<exists>t. rx_balanced stats ds t (length (enqueued ls))" if "rt_at w \<noteq> Rx_publish"
    using i that by (cases "rt_at w") (simp_all add: rx_inv_def rx_at_def Let_def rx_delivered_def assms(6,7))
  then have "rt_at w \<noteq> Rx_publish \<longrightarrow> events_in stats = of_nat (length (accepted_views ds))
        \<and> events_out stats = of_nat (length (enqueued ls))
        \<and> events_out stats + egress_full stats + egress_errors stats = events_in stats"
    by (auto simp: rx_balanced_def)
  then show ?thesis
    using ring_at_fifo [OF ring] rx_inv_subseq [OF i, folded assms(6)] accepted_properties [OF small] by blast
qed

text \<open>
  C6. The concurrent receiver never hangs and closes its ring for good: until it has returned the loop
  can make its next step, wherever the client is; after a request to stop every step brings its end
  nearer, at most 1382 steps away; and a client that is told Closed has released every event that
  was published, the loop has returned, and nothing is published afterwards.
\<close>

theorem concurrent_receiver_ends:
  assumes "new_threads ring_config ring" and "initializer (thr_producer ring)"
    and "r = make_receiver config seg egress udp" and "honest_recvmsg os"
    and "receiver_trace (start_receiver_threads ring r os) ls w"
  shows "(rt_at w \<noteq> Rx_returned \<longrightarrow> (\<exists>l w'. receiver_move w l w'))
    \<and> (r_stop_requested (rt_engine w) \<longrightarrow> rx_work w \<le> 1382
      \<and> (\<forall>l w'. receiver_move w l w' \<longrightarrow> rx_work w' < rx_work w \<and> r_stop_requested (rt_engine w')))
    \<and> (thr_acquiring (rt_ring w) = Return_acquire (Inl Closed) \<longrightarrow> rt_at w = Rx_returned
      \<and> dequeued ls = enqueued ls \<and> (\<forall>ks w'. receiver_trace w ks w' \<longrightarrow> enqueued ks = []))"
proof -
  note i = receiver_threads_run [OF assms(1-5)]
  have ring: "ring_at (unat (cfg_slot_count ring_config)) (ring_stride ring)
      (unat (cfg_slot_payload_capacity ring_config)) ls (rt_ring w)"
    and c: "Closing \<in> set ls \<longleftrightarrow> rt_at w = Rx_returned"
    using i by (simp_all add: rx_inv_def)
  show ?thesis
    using rx_can_move [OF i] rx_work_bounded [OF i] rx_work_decreases [OF _ i]
      closed_answer [OF ring] c rx_closed_final [OF _ i] by blast
qed

section \<open>A run in which a datagram goes through\<close>

lemma receiver_trace_append:
  "receiver_trace w1 ls w2 \<Longrightarrow> receiver_trace w0 ks w1 \<Longrightarrow> receiver_trace w0 (ks @ ls) w2"
proof (induction rule: receiver_trace.induct)
  case (rx_more w ls w' l w'')
  then show ?case using receiver_trace.rx_more [of w0 "ks @ ls" w' l w''] by simp
qed simp

lemma receiver_trace_move: "receiver_trace w0 ks w1 \<Longrightarrow> receiver_move w1 l w2 \<Longrightarrow> receiver_trace w0 (ks @ [l]) w2"
  by (rule receiver_trace.rx_more [OF _ by_receiver])

text \<open>The steps of a publication as steps of the program.\<close>

lemma publication_run:
  assumes "lone_producer_step\<^sup>*\<^sup>* r r'" and "rt_at w = Rx_publish"
  shows "\<exists>ls. receiver_trace (w\<lparr>rt_ring := r\<rparr>) ls (w\<lparr>rt_ring := r'\<rparr>) \<and> dequeued ls = []"
  using assms(1)
proof (induction rule: rtranclp_induct)
  case base
  show ?case using receiver_trace.rx_start effect_lists(2) by blast
next
  case (step r1 r2)
  then obtain ls l where t: "receiver_trace (w\<lparr>rt_ring := r\<rparr>) ls (w\<lparr>rt_ring := r1\<rparr>)" "dequeued ls = []"
    "producer_step r1 l r2" "\<forall>e x. thr_publishing r1 \<noteq> Return_publish e x"
    by (auto simp: lone_producer_step_def)
  have "receiver_move (w\<lparr>rt_ring := r1\<rparr>) l (w\<lparr>rt_ring := r2\<rparr>)"
    using rx_publishing [of "w\<lparr>rt_ring := r1\<rparr>" l r2] t(3,4) assms(2) by simp
  then show ?case
    using receiver_trace_move [OF t(1)] t(2) producer_side(4) [of r1 l r2 ls] t(3) by metis
qed

definition demo_rx_threads :: receiver_threads where
  "demo_rx_threads = start_receiver_threads demo_threads demo_receiver demo_rx_os"

text \<open>No counter of a refusal has moved.\<close>

definition none_refused :: "Receiver \<Rightarrow> bool" where
  "none_refused r \<longleftrightarrow> egress_full (r_stats r) = 0 \<and> egress_errors (r_stats r) = 0"

lemma demo_filtered: "snd (filter_datagram demo_receiver demo_packet) = Some (demo_event 1)"
  "none_refused (fst (filter_datagram demo_receiver demo_packet))"
  by code_simp+

lemma demo_rx_publishing:
  "\<exists>w. receiver_trace demo_rx_threads [Silent] w \<and> rt_ring w = demo_calling \<and> rt_at w = Rx_publish
    \<and> rt_datagrams w = [demo_packet] \<and> none_refused (rt_engine w)"
proof -
  let ?w = demo_rx_threads
  have f: "rt_at ?w = Rx_head" "\<not> r_stop_requested (rt_engine ?w)" "rt_ring ?w = demo_threads"
    "rt_packet ?w = rw_packet demo_rx_start" "rt_os ?w = demo_rx_os" "rt_engine ?w = demo_receiver"
    "rt_datagrams ?w = []"
    by (simp_all add: demo_rx_threads_def start_receiver_threads_def demo_receiver_def make_receiver_def
        demo_rx_start_def start_receiver_def)
  obtain p v where rc: "run_state (receive (r_udp demo_receiver) (rw_packet demo_rx_start) receive_timeout_ms) demo_rx_os =
    ((Inr \<lparr>datagram_size = 48, datagram_peer = p\<rparr>, store_bytes (rw_packet demo_rx_start) 0 demo_packet), v)"
    using demo_receive by blast
  have "length demo_packet = 48" by (simp add: demo_packet_value)
  then have x: "subspan (store_bytes (rw_packet demo_rx_start) 0 demo_packet) 0 48 = demo_packet"
    using subspan_store_same [of 0 demo_packet "rw_packet demo_rx_start"]
    by (simp add: demo_rx_start_def start_receiver_def kMaxPacketBytes_def)
  have rp: "receive_packet ?w = (Inr demo_packet, store_bytes (rw_packet demo_rx_start) 0 demo_packet, v)"
    by (simp add: receive_packet_def f rc x)
  obtain r where fd: "filter_datagram (rt_engine ?w) demo_packet = (r, Some (demo_event 1))"
    using demo_filtered(1) by (metis f(6) prod.collapse)
  have nr: "none_refused r" using demo_filtered(2) fd by (simp add: f(6))
  have idle: "thr_publishing demo_threads = Idle_producer" "has_header (thr_producer demo_threads)"
    by (simp_all add: demo_threads_def start_threads_def make_ring_def)
  have "producer_step (rt_ring ?w) Silent demo_calling"
    unfolding f(3) using producer_step.call_publish [OF idle(1)] idle(2) demo_small(1) by (metis demo_calling_def)
  note m = rx_accepted [OF f(1,2) rp fd this]
  have "event_of (thr_publishing demo_calling) = Some (demo_event 1)" by (simp add: demo_calling_def)
  from receiver_trace_move [OF receiver_trace.rx_start m [OF this], unfolded append_Nil]
  have t: "receiver_trace ?w [Silent] (?w\<lparr>rt_ring := demo_calling, rt_engine := r,
      rt_packet := store_bytes (rw_packet demo_rx_start) 0 demo_packet, rt_os := v, rt_at := Rx_publish,
      rt_datagrams := rt_datagrams ?w @ [demo_packet]\<rparr>)" .
  show ?thesis by (intro exI, rule conjI [OF t]) (simp add: f(7) nr)
qed

lemma demo_rx_inv:
  assumes "receiver_trace demo_rx_threads ls w"
  shows "rx_inv 2 64 (unat (cfg_slot_payload_capacity demo_config)) ls w"
proof -
  have i: "initializer (thr_producer demo_threads)"
    by (simp add: demo_threads_def start_threads_def make_ring_def)
  from receiver_threads_run [OF demo_new i demo_receiver_def demo_honest assms [unfolded demo_rx_threads_def]]
  show ?thesis by (simp only: demo_geometry)
qed

lemma demo_rx_run:
  "\<exists>ls w. receiver_trace demo_rx_threads ls w \<and> enqueued ls = [demo_event 1] \<and> rt_datagrams w = [demo_packet]
    \<and> rt_at w \<noteq> Rx_publish \<and> none_refused (rt_engine w)"
proof -
  obtain w1 where w1: "receiver_trace demo_rx_threads [Silent] w1" "rt_ring w1 = demo_calling" "rt_at w1 = Rx_publish"
    "rt_datagrams w1 = [demo_packet]" "none_refused (rt_engine w1)" using demo_rx_publishing by blast
  have "w1\<lparr>rt_ring := demo_calling\<rparr> = w1" using w1(2) by simp
  then obtain ls where ls: "receiver_trace w1 ls (w1\<lparr>rt_ring := demo_returning\<rparr>)" "dequeued ls = []"
    using publication_run [OF demo_published(1) w1(3)] by metis
  let ?w = "w1\<lparr>rt_ring := demo_returning\<rparr>"
  note t = receiver_trace_append [OF ls(1) w1(1)]
  have "contents (queue_of 2 64 demo_returning) = [demo_event 1]"
    using sys_eqs(1) [OF demo_one_ok(1)] demo_one_ok(2) by (simp add: queue_of_def demo_returning_def)
  then have e: "enqueued ([Silent] @ ls) = [demo_event 1]"
    using demo_rx_inv [OF t] ls(2) by (simp add: rx_inv_def ring_at_def)
  have r: "thr_publishing (rt_ring ?w) = Return_publish (demo_event 1) Ok" by (simp add: demo_returning_def)
  obtain f s where a: "after_publish (rt_engine ?w) Ok = (f, s)" by fastforce
  have at: "rt_at ?w = Rx_publish" using w1(3) by simp
  have nr: "none_refused s" using a w1(5) by (auto simp: after_publish_def none_refused_def Let_def)
  note m = receiver_trace_move [OF t rx_published [OF at r producer_step.return_publish [OF r] a]]
  show ?thesis
    by (intro exI, rule conjI [OF m]) (use e nr w1(4) in \<open>auto simp: behind_pass_def\<close>)
qed

theorem concurrent_receiver_delivers_witness:
  "\<exists>ls w. receiver_trace demo_rx_threads ls w \<and> enqueued ls = [demo_event 1]
    \<and> events_out (r_stats (rt_engine w)) = 1 \<and> subseq [demo_event 1] (map dd_event (accepted_views [demo_packet]))"
proof -
  obtain ls w where t: "receiver_trace demo_rx_threads ls w" "enqueued ls = [demo_event 1]"
    "rt_datagrams w = [demo_packet]" "rt_at w \<noteq> Rx_publish" using demo_rx_run by blast
  have i: "initializer (thr_producer demo_threads)"
    by (simp add: demo_threads_def start_threads_def make_ring_def)
  from concurrent_receiver_delivers [OF demo_new i demo_receiver_def demo_honest t(1) [unfolded demo_rx_threads_def]
      refl refl]
  show ?thesis using t by auto
qed

theorem concurrent_receiver_ends_witness:
  "\<exists>w l w'. receiver_trace demo_rx_threads [Silent] w \<and> thr_publishing (rt_ring w) = Load_state (demo_event 1)
    \<and> receiver_move w l w'"
proof -
  obtain w where w: "receiver_trace demo_rx_threads [Silent] w" "rt_ring w = demo_calling" "rt_at w = Rx_publish"
    using demo_rx_publishing by blast
  have i: "initializer (thr_producer demo_threads)"
    by (simp add: demo_threads_def start_threads_def make_ring_def)
  from concurrent_receiver_ends [OF demo_new i demo_receiver_def demo_honest w(1) [unfolded demo_rx_threads_def]]
  obtain l w' where "receiver_move w l w'" using w(3) by auto
  moreover have "thr_publishing (rt_ring w) = Load_state (demo_event 1)" by (simp add: w(2) demo_calling_def)
  ultimately show ?thesis using w(1) by blast
qed

end
