(* ===== verification/End_To_End.thy ===== *)
theory End_To_End
  imports Sender_Properties Receiver_Properties
begin

text \<open>
  The two engines with a network between them that may lose, repeat, reorder and delay datagrams:
  the lemmas that connect what the sender transmits with what the receiver accepts.
\<close>

section \<open>Accepted events are transmitted events\<close>

lemma enumerate_nth: "(k, e) \<in> set (enumerate 1 es) \<Longrightarrow> 1 \<le> k \<and> k \<le> length es \<and> e = es ! (k - 1)"
  by (auto simp: in_set_enumerate_eq)

lemma transmitted_decodes:
  assumes "x \<in> set (map fst (transmission sid limit ds es))" and "sid \<noteq> 0"
    and "length (filter (sendable limit) es) < 2 ^ 64" and "decode_data x = Inr d"
  shows "1 \<le> unat (dd_packet_sequence d) \<and> unat (dd_packet_sequence d) \<le> length (filter (sendable limit) es)
    \<and> dd_event d = filter (sendable limit) es ! (unat (dd_packet_sequence d) - 1) \<and> dd_session_id d = sid"
proof -
  let ?f = "filter (sendable limit) es"
  obtain k e where ke: "(k, e) \<in> set (enumerate 1 ?f)" "x = packet_of sid (word_of_nat k) e"
    using assms(1) by (auto simp: transmission_def datagrams_for_def)
  note n = enumerate_nth [OF ke(1)]
  have u: "unat (word_of_nat k :: u64) = k" using n assms(3) by (simp add: unat_of_nat)
  have "k - 1 < length ?f" using n by linarith
  then have "e \<in> set ?f" using n nth_mem by blast
  moreover have "(word_of_nat k :: u64) \<noteq> 0" using u n by (metis not_one_le_zero unat_0)
  ultimately have "encodable sid (word_of_nat k) e" using assms(2) by (simp add: encodable_def sendable_def)
  from decode_packet_of [OF this]
  have "d = \<lparr>dd_session_id = sid, dd_packet_sequence = word_of_nat k, dd_event = e\<rparr>"
    using assms(4) ke(2) by simp
  then show ?thesis using n u by simp
qed

lemma sorted_nth_subseq:
  "sorted_wrt (<) ks \<Longrightarrow> \<forall>k \<in> set ks. k < length es \<Longrightarrow> subseq (map (\<lambda>k. es ! k) ks) es"
proof (induction es arbitrary: ks rule: rev_induct)
  case Nil
  then show ?case by (cases ks) auto
next
  case (snoc e es)
  show ?case
  proof (cases "length es \<in> set ks")
    case False
    then have lt: "\<forall>k \<in> set ks. k < length es" using snoc.prems(2) by (auto simp: less_Suc_eq)
    then have "map (\<lambda>k. (es @ [e]) ! k) ks = map (\<lambda>k. es ! k) ks" by (simp add: nth_append)
    moreover have "subseq (map (\<lambda>k. es ! k) ks) (es @ [e])"
      using list_emb_append2 [OF snoc.IH [OF snoc.prems(1) lt], of "[e]"]
        list_emb_append_mono [OF snoc.IH [OF snoc.prems(1) lt], of "[]" "[e]"] by simp
    ultimately show ?thesis by (simp only:)
  next
    case True
    then have ne: "ks \<noteq> []" by auto
    then obtain js l where ks: "ks = js @ [l]" by (metis rev_exhaust)
    have lt: "\<forall>k \<in> set js. k < l" using snoc.prems(1) by (auto simp: ks sorted_wrt_append)
    have l: "l = length es" using True lt snoc.prems(2) by (auto simp: ks)
    have m: "map (\<lambda>k. (es @ [e]) ! k) js = map (\<lambda>k. es ! k) js" using lt by (auto simp: l nth_append)
    have "subseq (map (\<lambda>k. es ! k) js) es"
      using snoc.prems(1) lt by (intro snoc.IH) (auto simp: ks l sorted_wrt_append)
    then have "subseq (map (\<lambda>k. es ! k) js @ [e]) (es @ [e])"
      by (rule list_emb_append_mono) simp
    then show ?thesis unfolding ks map_append m by (simp add: l)
  qed
qed

lemma accepted_are_transmitted:
  assumes "set xs \<subseteq> set (map fst (transmission sid limit ds es))" and "sid \<noteq> 0"
    and "length (filter (sendable limit) es) < 2 ^ 64" and "\<forall>x \<in> set xs. addressable x"
  shows "subseq (map dd_event (accepted_views xs)) (filter (sendable limit) es)"
proof -
  let ?f = "filter (sendable limit) es" and ?a = "accepted_views xs"
  define ks where "ks = map (\<lambda>d. unat (dd_packet_sequence d) - 1) ?a"
  note ap = accepted_properties [OF assms(4)]
  have d: "1 \<le> unat (dd_packet_sequence d) \<and> unat (dd_packet_sequence d) \<le> length ?f
      \<and> dd_event d = ?f ! (unat (dd_packet_sequence d) - 1)" if mem: "d \<in> set ?a" for d
  proof -
    obtain x where "x \<in> set xs" "decode_data x = Inr d" using ap mem by blast
    then show ?thesis using transmitted_decodes [OF _ assms(2,3)] assms(1) by blast
  qed
  have "sorted_wrt (\<lambda>d e. unat (dd_packet_sequence d) < unat (dd_packet_sequence e)) ?a"
    using ap by (simp add: sorted_wrt_map word_less_nat_alt)
  then have "sorted_wrt (\<lambda>d e. unat (dd_packet_sequence d) - 1 < unat (dd_packet_sequence e) - 1) ?a"
    by (rule sorted_wrt_mono_rel [rotated]) (use d in \<open>auto intro!: diff_less_mono\<close>)
  then have "sorted_wrt (<) ks" by (simp add: ks_def sorted_wrt_map)
  moreover have "\<forall>k \<in> set ks. k < length ?f" using d by (fastforce simp: ks_def)
  moreover have "map dd_event ?a = map (\<lambda>k. ?f ! k) ks" using d by (simp add: ks_def)
  ultimately show ?thesis by (simp add: sorted_nth_subseq)
qed

end
