(* ===== verification/Complete_Delivery.thy ===== *)
theory Complete_Delivery
  imports End_To_End
begin

text \<open>
  Nothing is lost between the engines unless a datagram or a counter says so: a network that brings a
  copy of every datagram for the first time in the order of sending, and a receiver whose ring never
  refused an event, deliver every event that fits into a datagram.
\<close>

section \<open>A network without loss\<close>

text \<open>
  The first copy of each datagram arrives, in the order of sending; further copies, as those to the
  other destinations or those that the network makes, arrive at any later time or not at all.
\<close>

inductive arrives :: "'a list \<Rightarrow> 'a list \<Rightarrow> bool" where
  none: "arrives [] []"
| first: "arrives sent got \<Longrightarrow> arrives (sent @ [x]) (got @ [x])"
| again: "arrives sent got \<Longrightarrow> x \<in> set sent \<Longrightarrow> arrives sent (got @ [x])"
| copy_lost: "arrives sent got \<Longrightarrow> x \<in> set sent \<Longrightarrow> arrives (sent @ [x]) got"

section \<open>What the receiver accepts\<close>

definition view_of :: "u32 \<Rightarrow> event list \<Rightarrow> nat \<Rightarrow> decoded_data_view" where
  "view_of sid es k = \<lparr>dd_session_id = sid, dd_packet_sequence = word_of_nat k, dd_event = es ! (k - 1)\<rparr>"

definition numbered_packet :: "u32 \<Rightarrow> event list \<Rightarrow> nat \<Rightarrow> byte list" where
  "numbered_packet sid es k = packet_of sid (word_of_nat k) (es ! (k - 1))"

definition session_events :: "u32 \<Rightarrow> event list \<Rightarrow> bool" where
  "session_events sid es \<longleftrightarrow> sid \<noteq> 0 \<and> length es < 2 ^ 64
     \<and> (\<forall>e \<in> set es. sequence e \<noteq> 0 \<and> length (payload e) \<le> 1374)"

lemma decode_numbered:
  assumes "session_events sid es" and "1 \<le> k" and "k \<le> length es"
  shows "decode_data (numbered_packet sid es k) = Inr (view_of sid es k)"
    and "unat (word_of_nat k :: u64) = k"
proof -
  show u: "unat (word_of_nat k :: u64) = k"
    using assms by (simp add: session_events_def unat_of_nat)
  have "k - 1 < length es" using assms by linarith
  then have "es ! (k - 1) \<in> set es" by simp
  moreover have "(word_of_nat k :: u64) \<noteq> 0" using u assms(2) by (metis not_one_le_zero unat_0)
  ultimately have "encodable sid (word_of_nat k) (es ! (k - 1))"
    using assms(1) by (auto simp: encodable_def session_events_def)
  then show "decode_data (numbered_packet sid es k) = Inr (view_of sid es k)"
    by (simp add: numbered_packet_def view_of_def decode_packet_of)
qed

text \<open>The receiver after the first \<open>m\<close> packets of the session, each any number of times.\<close>

definition up_to :: "u32 \<Rightarrow> event list \<Rightarrow> nat \<Rightarrow> byte list list \<Rightarrow> bool" where
  "up_to sid es m got \<longleftrightarrow> accepted_views got = map (view_of sid es) [1..<Suc m]
     \<and> detector_after got = (if m = 0 then initial_detector
         else \<lparr>active_session = sid, last_sequence = word_of_nat m\<rparr>)
     \<and> (\<forall>r \<in> set (verdicts got). gap r = 0 \<and> status r \<noteq> WrongSession)"

lemma up_to_again:
  assumes "up_to sid es m got" and "session_events sid es" and "1 \<le> k" and "k \<le> m" and "m \<le> length es"
  shows "up_to sid es m (got @ [numbered_packet sid es k])"
proof -
  note d = decode_numbered [OF assms(2,3) order_trans [OF assms(4,5)]]
  have "1 \<le> m" using assms(3,4) by linarith
  note u = decode_numbered(2) [OF assms(2) this assms(5)]
  have "gap_check (detector_after got) (dd_session_id (view_of sid es k)) (dd_packet_sequence (view_of sid es k))
      = (default_result\<lparr>status := DuplicateOrOld\<rparr>, detector_after got)"
    using assms(1-4) u d(2)
    by (simp add: up_to_def gap_check_def view_of_def session_events_def word_le_nat_alt)
  note s = spec_snoc_good [OF d(1) this]
  show ?thesis using assms(1) by (simp add: up_to_def s default_result_def)
qed

lemma up_to_next:
  assumes "up_to sid es m got" and "session_events sid es" and "m < length es"
  shows "up_to sid es (Suc m) (got @ [numbered_packet sid es (Suc m)])"
proof -
  note d = decode_numbered [OF assms(2), of "Suc m"]
  have w: "(word_of_nat (Suc m) :: u64) - word_of_nat m - 1 = 0" by simp
  have lt: "\<not> (word_of_nat (Suc m) :: u64) \<le> word_of_nat m" if "m \<noteq> 0"
    using that d(2) decode_numbered(2) [OF assms(2), of m] assms(3) by (simp add: word_le_nat_alt)
  have "gap_check (detector_after got) (dd_session_id (view_of sid es (Suc m)))
        (dd_packet_sequence (view_of sid es (Suc m)))
      = (default_result, \<lparr>active_session = sid, last_sequence = word_of_nat (Suc m)\<rparr>)"
  proof (cases "m = 0")
    case True
    then show ?thesis using assms(1)
      by (simp add: up_to_def gap_check_def view_of_def accept_packet_def initial_detector_def
          default_result_def Let_def)
  next
    case False
    then show ?thesis using assms(1,2) w lt
      by (simp add: up_to_def gap_check_def view_of_def accept_packet_def session_events_def
          default_result_def Let_def)
  qed
  note s = spec_snoc_good [OF _ this]
  show ?thesis using assms(1,3) d by (simp add: up_to_def s default_result_def)
qed

text \<open>\<open>ks\<close> are the packet sequences of the datagrams in the order in which they were sent.\<close>

lemma sorted_snoc_set:
  assumes "sorted (js @ [k])" and "set (js @ [k]) = {1..m :: nat}"
  shows "k = m" and "set js = {1..(if k \<in> set js then m else m - 1)}" and "1 \<le> m"
proof -
  have km: "1 \<le> k" "k \<le> m" using assms(2) by auto
  then have "m \<in> set (js @ [k])" using assms(2) by auto
  then have "m \<le> k" using assms(1) by (auto simp: sorted_append)
  then show k: "k = m" using km by simp
  show "1 \<le> m" using km by simp
  show "set js = {1..(if k \<in> set js then m else m - 1)}"
  proof (cases "k \<in> set js")
    case True
    then show ?thesis using assms(2) by auto
  next
    case False
    then have "set js = {1..m} - {k}" using assms(2) by auto
    also have "\<dots> = {1..m - 1}" using k km by auto
    finally show ?thesis unfolding if_not_P [OF False] .
  qed
qed

lemma arrives_up_to:
  assumes "arrives sent got" and "session_events sid es"
    and "sent = map (numbered_packet sid es) ks" and "sorted ks" and "set ks = {1..m}" and "m \<le> length es"
  shows "up_to sid es m got"
  using assms(1,3-6)
proof (induction arbitrary: ks m)
  case none
  then show ?case
    by (auto simp: up_to_def accepted_views_def detector_after_def verdicts_def decoded_def)
next
  case (first sent got x)
  then obtain js k where ks: "ks = js @ [k]" "x = numbered_packet sid es k" "sent = map (numbered_packet sid es) js"
    by (cases ks rule: rev_cases) auto
  note s = sorted_snoc_set [OF first.prems(2,3) [unfolded ks(1)]]
  note ih = first.IH [OF ks(3) _ s(2)]
  show ?case
  proof (cases "k \<in> set js")
    case True
    then have "up_to sid es m got" using ih first.prems by (simp add: ks sorted_append)
    then show ?thesis unfolding ks(2) using s(1,3) first.prems(4)
      by (intro up_to_again) (auto simp: assms(2))
  next
    case False
    then have "up_to sid es (m - 1) got" using ih first.prems by (simp add: ks sorted_append)
    then have "up_to sid es (Suc (m - 1)) (got @ [numbered_packet sid es (Suc (m - 1))])"
      by (rule up_to_next [OF _ assms(2)]) (use s(3) first.prems(4) in linarith)
    then show ?thesis using s(1,3) by (simp add: ks(2))
  qed
next
  case (again sent got x)
  then obtain k where k: "k \<in> set ks" "x = numbered_packet sid es k" by auto
  then have "1 \<le> k" "k \<le> m" using again.prems(3) by auto
  then show ?case
    unfolding k(2) using again.IH [OF again.prems] again.prems(4) by (intro up_to_again assms(2))
next
  case (copy_lost sent got x)
  then obtain js k where ks: "ks = js @ [k]" "x = numbered_packet sid es k" "sent = map (numbered_packet sid es) js"
    by (cases ks rule: rev_cases) auto
  note s = sorted_snoc_set [OF copy_lost.prems(2,3) [unfolded ks(1)]]
  obtain j where j: "j \<in> set js" "x = numbered_packet sid es j" using copy_lost.hyps(2) ks(3) by auto
  have jm: "1 \<le> j" "j \<le> length es" "1 \<le> k" "k \<le> length es"
    using j(1) copy_lost.prems(3,4) s by (auto simp: ks(1))
  have "view_of sid es j = view_of sid es k"
    using decode_numbered(1) [OF assms(2) jm(1,2)] decode_numbered(1) [OF assms(2) jm(3,4)] j(2) ks(2) by simp
  then have "(word_of_nat j :: u64) = word_of_nat k" by (simp add: view_of_def)
  then have "j = k" using decode_numbered(2) [OF assms(2) jm(1,2)] decode_numbered(2) [OF assms(2) jm(3,4)] by metis
  then show ?case
    using copy_lost.IH [OF ks(3) _ s(2)] copy_lost.prems(2,4) j(1) by (simp add: ks(1) sorted_append)
qed

section \<open>From sender to receiver\<close>

definition copies :: "nat \<Rightarrow> nat \<Rightarrow> nat list" where
  "copies d n = concat (map (replicate d) [1..<Suc n])"

lemma copies_Suc: "copies d (Suc n) = copies d n @ replicate d (Suc n)"
  by (simp add: copies_def)

lemma sorted_copies: "sorted (copies d n)"
  by (induction n) (auto simp: copies_Suc sorted_append, auto simp: copies_def)

lemma set_copies: "0 < d \<Longrightarrow> set (copies d n) = {1..n}"
  by (auto simp: copies_def)

lemma transmission_numbered:
  "map fst (transmission sid limit ds es) =
     map (numbered_packet sid (filter (sendable limit) es)) (copies (length ds) (length (filter (sendable limit) es)))"
proof -
  let ?f = "filter (sendable limit) es"
  let ?np = "numbered_packet sid ?f"
  have "map fst (transmission sid limit ds es) =
      concat (map (\<lambda>(k, e). replicate (length ds) (packet_of sid (word_of_nat k) e)) (enumerate 1 ?f))"
    by (simp add: transmission_def datagrams_for_def map_concat comp_def case_prod_unfold map_replicate_const)
  also have "map (\<lambda>(k, e). replicate (length ds) (packet_of sid (word_of_nat k) e)) (enumerate 1 ?f) =
      map (\<lambda>p. map ?np (replicate (length ds) (fst p))) (enumerate 1 ?f)"
    by (rule map_cong [OF refl]) (auto simp: numbered_packet_def dest: enumerate_nth [simplified])
  also have "\<dots> = map (map ?np) (map (replicate (length ds)) (map fst (enumerate 1 ?f)))"
    by (simp only: map_map comp_def)
  also have "map fst (enumerate 1 ?f) = [1..<Suc (length ?f)]"
    by (simp only: map_fst_enumerate) simp
  finally show ?thesis by (simp only: copies_def map_concat)
qed

text \<open>The events \<open>got\<close> were published out of the datagrams \<open>ds\<close>, and none was refused.\<close>

lemma receiver_of_complete:
  assumes b: "rx_balanced stats ds t (length got)" and sub: "subseq got (map dd_event (accepted_views ds))"
    and "session_events sid es" and "up_to sid es (length es) ds"
    and "egress_full stats = 0" and "egress_errors stats = 0"
  shows "got = es" and "packets_missed stats = 0" and "wrong_session_packets stats = 0"
proof -
  have es: "map dd_event (accepted_views ds) = es"
    using assms(4) by (simp add: up_to_def view_of_def comp_def del: upt_Suc)
      (rule nth_equalityI, simp_all del: upt_Suc)
  have len: "length (accepted_views ds) = length es"
    using arg_cong [OF es, of length] by simp
  have le: "length got \<le> length es" using list_emb_length [OF sub] es by simp
  have "(of_nat (length got) :: u64) = of_nat (length es)"
    using b assms(5,6) by (auto simp: rx_balanced_def len)
  from arg_cong [OF this, of unat] have "length got = length es"
    using le assms(3) by (simp add: session_events_def unat_of_nat)
  then show "got = es" using sub es by (metis subseq_same_length)
  have "map gap (verdicts ds) = map (\<lambda>_. 0) (verdicts ds)"
    using assms(4) unfolding up_to_def map_eq_conv by blast
  then have "sum_list (map gap (verdicts ds)) = 0" by (simp only: sum_list_0)
  then show "packets_missed stats = 0" using b by (simp add: rx_balanced_def)
  have "filter (\<lambda>r. status r = WrongSession) (verdicts ds) = []"
    using assms(4) by (simp add: up_to_def filter_empty_conv)
  then show "wrong_session_packets stats = 0" using b by (simp add: rx_balanced_def)
qed

lemma complete_after_arrival:
  assumes "arrives (map fst (transmission sid limit ds es)) got" and "ds \<noteq> []" and "sid \<noteq> 0"
    and "length (filter (sendable limit) es) < 2 ^ 64"
  shows "session_events sid (filter (sendable limit) es)"
    and "up_to sid (filter (sendable limit) es) (length (filter (sendable limit) es)) got"
proof -
  show se: "session_events sid (filter (sendable limit) es)"
    using assms(3,4) by (auto simp: session_events_def sendable_def)
  show "up_to sid (filter (sendable limit) es) (length (filter (sendable limit) es)) got"
    using arrives_up_to [OF assms(1) se transmission_numbered sorted_copies set_copies] assms(2) by simp
qed

text \<open>
  C18. Complete delivery: if the network brings the first copy of every datagram in the order of
  sending, whatever becomes of the further copies, and the counters egress_full and egress_errors of
  the receiver are zero, then the receiver has put into its ring exactly the events that the sender
  took and that fit into a datagram, in order and unaltered, the consumer has read all of them but
  those still in the ring, and no packet is counted as missed or as of another session.
\<close>

theorem complete_delivery:
  assumes "addressable m1" and "initialize_ring a1 m1 ring1 id1 = (Inr app, in_ring)"
    and "attach_ring a2 in_ring = Inr ingress"
    and "s = make_sender config seg1 ingress tx ds sid" and "sid \<noteq> 0" and "\<not> bad_sender_config config"
    and "sent_datagrams os1 = []" and "\<forall>e. App_publish e \<in> set sends \<longrightarrow> addressable (payload e)"
    and "sw = sender_run (start_sender s in_ring app os1) sends" and "ds \<noteq> []"
    and "addressable m2" and "initialize_ring a3 m2 ring2 id2 = (Inr egress, out_ring)"
    and "attach_ring a4 out_ring = Inr client"
    and "r = make_receiver rx_config seg2 egress rx" and "honest_recvmsg os2"
    and "rw = receiver_run (start_receiver r out_ring client os2) receives"
    and "arrives (map fst (sent_datagrams (sw_os sw))) (rw_datagrams rw)"
    and "stats = r_stats (rw_receiver rw)" and "egress_full stats = 0" and "egress_errors stats = 0"
  shows "rw_delivered rw = filter (sendable (max_datagram_bytes config)) (sw_handled sw)
    \<and> (\<exists>queued. rw_delivered rw = rw_consumed rw @ queued \<and> length queued \<le> unat (cfg_slot_count ring2))
    \<and> packets_missed stats = 0 \<and> wrong_session_packets stats = 0"
proof -
  let ?f = "filter (sendable (max_datagram_bytes config)) (sw_handled sw)"
  note sent = fresh_sender_run [OF assms(1-9)]
  obtain st cap where "receiver_inv (unat (cfg_slot_count ring2)) st cap (start_receiver r out_ring client os2)"
    using start_receiver_inv(1) [OF assms(11-15)] by blast
  then have inv: "receiver_inv (unat (cfg_slot_count ring2)) st cap rw"
    unfolding assms(16) by (rule receiver_inv_run)
  obtain t where i: "rx_balanced (r_stats (rw_receiver rw)) (rw_datagrams rw) t (length (rw_delivered rw))"
    "subseq (rw_delivered rw) (map dd_event (accepted_views (rw_datagrams rw)))"
    using inv unfolding receiver_inv_def by blast
  note u = complete_after_arrival [OF assms(17) [unfolded sent(2)] assms(10,5) sent(3)]
  note c = receiver_of_complete [OF i u assms(19,20) [unfolded assms(18)]]
  moreover have "system_ok (unat (cfg_slot_count ring2)) st cap (world_system rw)"
    "rw_delivered rw = rw_consumed rw @ sys_items (world_system rw)"
    using inv by (auto simp: receiver_inv_def)
  ultimately show ?thesis using sys_bounded assms(18) by metis
qed

theorem complete_delivery_witness:
  "rw_delivered demo_rx_end = [demo_event 1] \<and> packets_missed (r_stats (rw_receiver demo_rx_end)) = 0"
proof -
  have nz: "(9 :: u32) \<noteq> 0" and ds: "[demo_destination] \<noteq> []" by simp_all
  note s = demo_attached(1) demo_initialized demo_attached(2) demo_sender_def nz demo_config_ok
    demo_sent_nothing demo_actions_ok refl
  have "arrives ([] @ [demo_packet]) ([] @ [demo_packet])" by (rule first [OF none])
  moreover have "sent_datagrams (sw_os (sender_run demo_start demo_actions)) =
      transmission 9 60 [demo_destination] [demo_event 1]"
    using fresh_sender_run(2) [OF s, folded demo_start_def] by (simp add: demo_facts demo_limit)
  ultimately have "arrives (map fst (sent_datagrams (sw_os (sender_run demo_start demo_actions))))
      (rw_datagrams demo_rx_end)"
    using demo_sendable by (simp add: transmission_def datagrams_for_def demo_packet_def demo_rx_facts)
  from complete_delivery [OF s ds demo_rx_attached(1) demo_initialized demo_rx_attached(2)
      demo_receiver_def demo_honest refl, of "[Receiver_pass]", folded demo_start_def demo_rx_start_def
      demo_rx_end_def, OF this refl demo_rx_facts(4,5)]
  show ?thesis using demo_sendable by (simp add: demo_facts demo_limit)
qed

end
