(* ===== verification/Concurrent_System.thy ===== *)
theory Concurrent_System
  imports Concurrent_Sender Concurrent_Receiver Complete_Delivery
begin

text \<open>
  The whole system with every thread running at once: the application and the sender interleaved on
  the ingress ring, a network, and the receiver and the client interleaved on the egress ring.
\<close>

text \<open>
  C1. End to end under concurrency: whatever the interleavings on the two rings, if every datagram that
  the receiver gets is one that this sender has sent, each any number of times, in any order or never,
  then what the client has released is a subsequence of what the application has published: every
  event unaltered, at most once and in order. The code authenticates nothing, so nothing is said of a
  network that delivers forged or altered datagrams.
\<close>

theorem concurrent_end_to_end:
  assumes "new_threads ring1 ingress" and "s = make_sender config seg1 h tx ds sid" and "sid \<noteq> 0"
    and "\<not> bad_sender_config config" and "sent_datagrams os1 = []"
    and "sender_trace (start_sender_threads ingress s os1) sls sw"
    and "new_threads ring2 egress" and "initializer (thr_producer egress)"
    and "r = make_receiver rx_config seg2 h2 rx" and "honest_recvmsg os2"
    and "receiver_trace (start_receiver_threads egress r os2) rls rw"
    and "set (rt_datagrams rw) \<subseteq> set (map fst (sent_datagrams (st_os sw)))"
  shows "subseq (dequeued rls) (enqueued sls)"
proof -
  note t = sender_threads_run [OF assms(1-6)] and i = receiver_threads_run [OF assms(7-11)]
  let ?limit = "max_datagram_bytes config" and ?done = "done_with sls sw"
  obtain stats where "tx_counted stats ?done (st_engine sw) (st_os sw)" using tx_inv_counted [OF t(1)] by blast
  then have sent: "sent_datagrams (st_os sw) = transmission sid ?limit ds ?done"
    "length (filter (sendable ?limit) ?done) < 2 ^ 64"
    by (simp_all add: tx_counted_def Let_def t(2-4))
  have small: "\<forall>x \<in> set (rt_datagrams rw). addressable x" using i by (auto simp: rx_inv_def intro: delivered_small)
  have "subseq (map dd_event (accepted_views (rt_datagrams rw))) (filter (sendable ?limit) ?done)"
    using accepted_are_transmitted [OF _ assms(3) sent(2) small] assms(12) by (simp add: sent(1))
  also have "subseq (filter (sendable ?limit) ?done) ?done" by (rule subseq_filter_left)
  also have "subseq ?done (enqueued sls)"
    using tx_inv_done [OF t(1)] by (metis prefixI prefix_imp_subseq)
  finally have a: "subseq (map dd_event (accepted_views (rt_datagrams rw))) (enqueued sls)" .
  have "ring_at (unat (cfg_slot_count ring2)) (ring_stride egress)
      (unat (cfg_slot_payload_capacity ring2)) rls (rt_ring rw)" using i by (simp add: rx_inv_def)
  then have "subseq (dequeued rls) (enqueued rls)"
    using ring_at_fifo by (metis prefixI prefix_imp_subseq)
  then show ?thesis using rx_inv_subseq [OF i] a by (metis subseq_order.trans)
qed

text \<open>
  C2. Complete delivery under concurrency: if the network brings the first copy of every datagram in
  the order of sending, the receiver is between two publications and its counters egress_full and
  egress_errors are zero, then it has published exactly the events that the sender is done with and
  that fit into a datagram, in order and unaltered, and what the client has not released is in the ring.
\<close>

theorem concurrent_complete_delivery:
  assumes "new_threads ring1 ingress" and "s = make_sender config seg1 h tx ds sid" and "sid \<noteq> 0"
    and "\<not> bad_sender_config config" and "sent_datagrams os1 = []"
    and "sender_trace (start_sender_threads ingress s os1) sls sw" and "ds \<noteq> []"
    and "new_threads ring2 egress" and "initializer (thr_producer egress)"
    and "r = make_receiver rx_config seg2 h2 rx" and "honest_recvmsg os2"
    and "receiver_trace (start_receiver_threads egress r os2) rls rw"
    and "arrives (map fst (sent_datagrams (st_os sw))) (rt_datagrams rw)" and "rt_at rw \<noteq> Rx_publish"
    and "stats = r_stats (rt_engine rw)" and "egress_full stats = 0" and "egress_errors stats = 0"
  shows "enqueued rls = filter (sendable (max_datagram_bytes config)) (done_with sls sw)
    \<and> (\<exists>queued. enqueued rls = dequeued rls @ queued \<and> length queued \<le> unat (cfg_slot_count ring2))
    \<and> packets_missed stats = 0 \<and> wrong_session_packets stats = 0"
proof -
  note t = sender_threads_run [OF assms(1-6)] and i = receiver_threads_run [OF assms(8-12)]
  let ?limit = "max_datagram_bytes config" and ?done = "done_with sls sw"
  obtain st where "tx_counted st ?done (st_engine sw) (st_os sw)" using tx_inv_counted [OF t(1)] by blast
  then have sent: "sent_datagrams (st_os sw) = transmission sid ?limit ds ?done"
    "length (filter (sendable ?limit) ?done) < 2 ^ 64"
    by (simp_all add: tx_counted_def Let_def t(2-4))
  note u = complete_after_arrival [OF assms(13) [unfolded sent(1)] assms(7,3) sent(2)]
  have "rx_delivered (rt_datagrams rw) (enqueued rls) (rt_engine rw)"
    using i assms(14) by (cases "rt_at rw") (simp_all add: rx_inv_def rx_at_def Let_def)
  then obtain k where b: "rx_balanced stats (rt_datagrams rw) k (length (enqueued rls))"
    "subseq (enqueued rls) (map dd_event (accepted_views (rt_datagrams rw)))"
    by (auto simp: rx_delivered_def assms(15))
  have "ring_at (unat (cfg_slot_count ring2)) (ring_stride egress)
      (unat (cfg_slot_payload_capacity ring2)) rls (rt_ring rw)" using i by (simp add: rx_inv_def)
  then show ?thesis using receiver_of_complete [OF b u assms(16,17)] ring_at_fifo by blast
qed

section \<open>A run of the whole system\<close>

lemma demo_system_run:
  "\<exists>sls sw rls rw. sender_trace demo_tx_threads sls sw \<and> done_with sls sw = [demo_event 1]
    \<and> map fst (sent_datagrams (st_os sw)) = [demo_packet] \<and> receiver_trace demo_rx_threads rls rw
    \<and> enqueued rls = [demo_event 1] \<and> rt_datagrams rw = [demo_packet]
    \<and> rt_at rw \<noteq> Rx_publish \<and> none_refused (rt_engine rw)"
proof -
  obtain ls w where t: "sender_trace demo_tx_threads ls w" "dequeued ls = [demo_event 1]"
    "st_at w = Tx_head \<or> st_at w = Tx_returned" using demo_tx_run by blast
  then have d: "done_with ls w = [demo_event 1]" by (auto simp: done_with_def)
  obtain ks v where v: "receiver_trace demo_rx_threads ks v" "enqueued ks = [demo_event 1]"
    "rt_datagrams v = [demo_packet]" "rt_at v \<noteq> Rx_publish" "none_refused (rt_engine v)"
    using demo_rx_run by (elim exE conjE) (rule that)
  have "(9 :: u32) \<noteq> 0" by simp
  note r = sender_threads_run [OF demo_new demo_sender_def this demo_config_ok demo_sent_nothing
      t(1) [unfolded demo_tx_threads_def]]
  obtain st where "tx_counted st [demo_event 1] (st_engine w) (st_os w)"
    using tx_inv_counted [OF r(1)] d by auto
  then have "sent_datagrams (st_os w) = transmission 9 60 [demo_destination] [demo_event 1]"
    by (simp add: tx_counted_def Let_def r(2-4) demo_limit)
  then have "map fst (sent_datagrams (st_os w)) = [demo_packet]"
    using demo_sendable by (simp add: transmission_def datagrams_for_def demo_packet_def)
  then show ?thesis by (intro exI conjI) (rule t d v | assumption)+
qed

lemma demo_egress: "initializer (thr_producer demo_threads)"
  by (simp add: demo_threads_def start_threads_def make_ring_def)

theorem concurrent_end_to_end_witness:
  "\<exists>sls rls rw. receiver_trace demo_rx_threads rls rw \<and> rt_datagrams rw = [demo_packet]
    \<and> enqueued rls = [demo_event 1] \<and> subseq (dequeued rls) (enqueued sls)"
proof -
  obtain sls sw rls rw where t: "sender_trace demo_tx_threads sls sw"
    "map fst (sent_datagrams (st_os sw)) = [demo_packet]" "receiver_trace demo_rx_threads rls rw"
    "enqueued rls = [demo_event 1]" "rt_datagrams rw = [demo_packet]"
    using demo_system_run by (elim exE conjE) (rule that)
  have "(9 :: u32) \<noteq> 0" by simp
  from concurrent_end_to_end [OF demo_new demo_sender_def this demo_config_ok demo_sent_nothing
      t(1) [unfolded demo_tx_threads_def] demo_new demo_egress demo_receiver_def demo_honest
      t(3) [unfolded demo_rx_threads_def]] t(2,5)
  have "subseq (dequeued rls) (enqueued sls)" by simp
  then show ?thesis using t(3-5) by blast
qed

theorem concurrent_complete_delivery_witness:
  "\<exists>rls rw. receiver_trace demo_rx_threads rls rw \<and> rt_datagrams rw = [demo_packet]
    \<and> enqueued rls = [demo_event 1] \<and> packets_missed (r_stats (rt_engine rw)) = 0"
proof -
  obtain sls sw rls rw where t: "sender_trace demo_tx_threads sls sw" "done_with sls sw = [demo_event 1]"
    "map fst (sent_datagrams (st_os sw)) = [demo_packet]" "receiver_trace demo_rx_threads rls rw"
    "rt_datagrams rw = [demo_packet]" "rt_at rw \<noteq> Rx_publish" "none_refused (rt_engine rw)"
    using demo_system_run by (elim exE conjE) (rule that)
  have nz: "(9 :: u32) \<noteq> 0" and ds: "[demo_destination] \<noteq> []" by simp_all
  have refused: "egress_full (r_stats (rt_engine rw)) = 0" "egress_errors (r_stats (rt_engine rw)) = 0"
    using t(7) by (simp_all add: none_refused_def)
  have "arrives ([] @ [demo_packet]) ([] @ [demo_packet])" by (rule first [OF none])
  then have "arrives (map fst (sent_datagrams (st_os sw))) (rt_datagrams rw)" by (simp add: t(3,5))
  from concurrent_complete_delivery [OF demo_new demo_sender_def nz demo_config_ok demo_sent_nothing
      t(1) [unfolded demo_tx_threads_def] ds demo_new demo_egress demo_receiver_def demo_honest
      t(4) [unfolded demo_rx_threads_def] this t(6) refl refused]
  have "enqueued rls = [demo_event 1]" "packets_missed (r_stats (rt_engine rw)) = 0"
    using t(2) demo_sendable by (simp_all add: demo_limit)
  then show ?thesis using t(4,5) by blast
qed

end
