(* ===== verification/Pass_Refinement.thy ===== *)
theory Pass_Refinement
  imports Concurrent_System
begin

text \<open>
  The two models of the loops agree: a pass that Sender_Engine or Receiver_Engine makes in one step is
  a run of the program of Sender_Threads or Receiver_Threads, from the head of the loop to the
  end of the pass, in which the calls of the ring are made load by load.
\<close>

section \<open>The sender\<close>

text \<open>The engine with its handle on the ring, as Sender_Engine has it.\<close>

definition whole_sender :: "sender_threads \<Rightarrow> Sender" where
  "whole_sender w = (st_engine w)\<lparr>s_ingress := thr_consumer (st_ring w)\<rparr>"

lemma transmit_parts:
  "s_udp s' = s_udp s \<Longrightarrow> s_destinations s' = s_destinations s \<Longrightarrow>
    transmit s' outp encoded stats = transmit s outp encoded stats"
  by (cases encoded) (simp_all add: transmit_def)

lemma advance_with_ingress:
  "advance_sequence (s\<lparr>s_ingress := i\<rparr>) encoded =
    (case advance_sequence s encoded of (f, s') \<Rightarrow> (f, s'\<lparr>s_ingress := i\<rparr>))"
  by (simp add: advance_sequence_def sender_request_stop_def split: sum.split)

lemma pass_without_event:
  assumes "try_acquire m c = (Inl err, c')" and "run_state (no_event s err) os = ((f, s'), os')"
  shows "run_state (sender_pass m packet (s\<lparr>s_ingress := c\<rparr>)) os = ((f, m, packet, s'\<lparr>s_ingress := c'\<rparr>), os')"
  using assms(2) by (auto simp: sender_pass_def assms(1) no_event_def split: if_splits)

lemma pass_with_event:
  assumes "try_acquire m c = (Inr v, c1)" and "release m c1 = (True, m', c2)"
    and "s1 = s\<lparr>s_stats := (s_stats s)\<lparr>events_in := events_in (s_stats s) + 1\<rparr>\<rparr>"
    and "encode_event s1 packet (deref m v) = (encoded, packet')"
    and "length packet' = unat kMaxPacketBytes" and "length packet = unat kMaxPacketBytes"
    and "unat (limit_of s) \<le> unat kMaxPacketBytes"
    and "run_state (transmit s1 (subspan packet' 0 (unat (limit_of s))) encoded (s_stats s1)) os = (stats, os')"
    and "advance_sequence (s1\<lparr>s_stats := stats\<rparr>) encoded = (f, s')"
  shows "run_state (sender_pass m packet (s\<lparr>s_ingress := c\<rparr>)) os = ((f, m', packet', s'\<lparr>s_ingress := c2\<rparr>), os')"
proof -
  let ?n = "unat (limit_of s)"
  obtain outp where e: "encode_data (deref m v) (s_session_id s) (s_packet_sequence s) (subspan packet 0 ?n)
      = (encoded, outp)" "packet' = outp @ drop ?n packet"
    using assms(4) by (auto simp: encode_event_def assms(3) Let_def split: prod.splits)
  have "length outp = ?n" using assms(5-7) by (simp add: e(2))
  then have "subspan packet' 0 ?n = outp" by (simp add: e(2) subspan_def)
  then have t: "run_state (transmit (s\<lparr>s_ingress := c\<rparr>) outp encoded (s_stats s1)) os = (stats, os')"
    using assms(8) transmit_parts [of "s\<lparr>s_ingress := c\<rparr>" s1] by (simp add: assms(3))
  have "s\<lparr>s_ingress := c2, s_stats := stats\<rparr> = (s1\<lparr>s_stats := stats\<rparr>)\<lparr>s_ingress := c2\<rparr>"
    by (simp add: assms(3))
  then have "advance_sequence (s\<lparr>s_ingress := c2, s_stats := stats\<rparr>) encoded = (f, s'\<lparr>s_ingress := c2\<rparr>)"
    by (simp only: advance_with_ingress assms(9) prod.case)
  then show ?thesis
    using t by (simp add: sender_pass_def assms(1,2) e Let_def) (simp add: assms(3))
qed

lemma tx_inv_further:
  "sender_trace w ks w' \<Longrightarrow> tx_inv n st cap ls w \<Longrightarrow> tx_inv n st cap (ls @ ks) w'"
proof (induction rule: sender_trace.induct)
  case (tx_more w ks w' l w'')
  then show ?case using tx_inv_step [of w' l w'' n st cap "ls @ ks"] by simp
qed simp

text \<open>The call of \<open>try_acquire\<close> up to its return.\<close>

lemma acquire_run:
  assumes inv: "tx_inv n st cap ls w" and head: "st_at w = Tx_head" "\<not> s_stop_requested (st_engine w)"
    and acq: "try_acquire (thr_memory (st_ring w)) (thr_consumer (st_ring w)) = (given, c)"
  shows "\<exists>ks. sender_trace w ks (tx_acquiring_at w ((st_ring w)\<lparr>thr_consumer := c,
      thr_acquiring := Return_acquire given\<rparr>))"
proof -
  let ?r = "st_ring w" and ?r1 = "(st_ring w)\<lparr>thr_acquiring := Check_acquired\<rparr>"
  have ok: "threads_ok n st cap ?r" and idle: "thr_acquiring ?r = Idle_consumer"
    using inv head(1) ring_at_ok by (auto simp: tx_inv_def tx_at_def Let_def)
  have "has_header (thr_consumer ?r)" using threads_okD(3) [OF ok] by (simp add: handle_ok_def)
  then have call: "consumer_step ?r Silent ?r1" using consumer_step.call_acquire [OF idle] by simp
  have 1: "sender_trace w [Silent] (tx_acquiring_at w ?r1)"
    using sender_trace_move [OF sender_trace.tx_start tx_call [OF head call]] by simp
  have ok1: "threads_ok n st cap ?r1" using consumer_step_ok [OF call ok] by simp
  from lone_acquisition_iff [OF ok1, of "?r\<lparr>thr_consumer := c, thr_acquiring := Return_acquire given\<rparr>" given]
  have "lone_consumer_step\<^sup>*\<^sup>* ?r1 (?r\<lparr>thr_consumer := c, thr_acquiring := Return_acquire given\<rparr>)"
    using acq by simp
  from engine_run [OF this, of w] show ?thesis using sender_trace_append [OF _ 1] by auto
qed

lemma rest_of_pass_run:
  assumes "st_at w = Tx_encode v" and ring: "thr_acquiring (st_ring w) = Idle_consumer" "thr_view (st_ring w) = Some v"
    and "encode_event (st_engine w) (st_packet w) (deref (thr_memory (st_ring w)) v) = (encoded, packet)"
    and "release (thr_memory (st_ring w)) (thr_consumer (st_ring w)) = (True, m, c)"
    and "run_state (transmit (st_engine w) (subspan packet 0 (unat (limit_of (st_engine w)))) encoded
      (s_stats (st_engine w))) (st_os w) = (stats, os)"
    and "advance_sequence ((st_engine w)\<lparr>s_stats := stats\<rparr>) encoded = (f, s)"
  shows "\<exists>ks w'. sender_trace w ks w' \<and> thr_memory (st_ring w') = m \<and> thr_consumer (st_ring w') = c
    \<and> st_packet w' = packet \<and> st_engine w' = s \<and> st_os w' = os \<and> st_at w' = after_flow f"
proof -
  define w1 where "w1 = w\<lparr>st_packet := packet, st_at := Tx_release encoded\<rparr>"
  have 1: "sender_move w Silent w1" unfolding w1_def by (rule sender_move.tx_encode [OF assms(1,4)])
  define w2 where "w2 = w1\<lparr>st_ring := (st_ring w)\<lparr>thr_memory := m, thr_consumer := c, thr_view := None\<rparr>,
     st_at := Tx_send encoded\<rparr>"
  have 2: "sender_move w1 (Dequeued (deref (thr_memory (st_ring w)) v)) w2"
    unfolding w2_def by (rule sender_move.tx_release)
      (use consumer_step.call_release [OF ring assms(5)] in \<open>simp_all add: w1_def\<close>)
  define w3 where "w3 = w2\<lparr>st_engine := s, st_os := os, st_at := after_flow f\<rparr>"
  have 3: "sender_move w2 Silent w3"
    unfolding w3_def by (rule sender_move.tx_send) (use assms(6,7) in \<open>simp_all add: w2_def w1_def\<close>)
  note t = sender_trace_move [OF sender_trace_move [OF sender_trace_move [OF sender_trace.tx_start 1] 2] 3]
  show ?thesis by (intro exI, rule conjI [OF t]) (simp add: w3_def w2_def w1_def)
qed

text \<open>A pass from the return of \<open>try_acquire\<close> on, when it gave an event.\<close>

lemma event_pass_run:
  assumes inv: "tx_inv n st cap ls w" and at: "st_at w = Tx_acquire" "thr_acquiring (st_ring w) = Return_acquire (Inr v)"
    and acq: "try_acquire (thr_memory (st_ring w)) c0 = (Inr v, thr_consumer (st_ring w))"
    and pass: "run_state (sender_pass (thr_memory (st_ring w)) (st_packet w) ((st_engine w)\<lparr>s_ingress := c0\<rparr>)) (st_os w)
      = ((f, m, packet, s), os)"
  shows "\<exists>ks w'. sender_trace w ks w' \<and> thr_memory (st_ring w') = m \<and> st_packet w' = packet
    \<and> whole_sender w' = s \<and> st_os w' = os \<and> st_at w' = after_flow f"
proof -
  let ?r = "st_ring w" and ?m = "thr_memory (st_ring w)" and ?s = "st_engine w"
  define s1 where "s1 = ?s\<lparr>s_stats := (s_stats ?s)\<lparr>events_in := events_in (s_stats ?s) + 1\<rparr>\<rparr>"
  define w2 where "w2 = w\<lparr>st_ring := ?r\<lparr>thr_acquiring := Idle_consumer, thr_view := Some v\<rparr>,
     st_engine := s1, st_at := Tx_encode v\<rparr>"
  have move2: "sender_move w Silent w2"
    unfolding w2_def by (rule tx_event [OF at])
      (use consumer_step.return_acquire [OF at(2)] in \<open>simp_all add: s1_def\<close>)
  note ks2 = sender_trace_move [OF sender_trace.tx_start move2] and inv2 = tx_inv_step [OF by_engine [OF move2] inv]
  have at2: "st_at w2 = Tx_encode v" "thr_memory (st_ring w2) = ?m" "thr_consumer (st_ring w2) = thr_consumer ?r"
    "thr_acquiring (st_ring w2) = Idle_consumer" "thr_view (st_ring w2) = Some v" "st_engine w2 = s1"
    "st_packet w2 = st_packet w" "st_os w2 = st_os w"
    by (simp_all add: w2_def)
  have sok: "sender_ok s1" "length (st_packet w) = unat kMaxPacketBytes" "tx_ready (dequeued ls) s1"
    and ring2: "ring_at n st cap (ls @ [Silent]) (st_ring w2)"
    using inv2 at2 by (auto simp: tx_inv_def tx_at_def Let_def tx_taken_def)
  have holds: "holds_event (st_ring w2)" and ok2: "threads_ok n st cap (st_ring w2)"
    using view_holds [OF ring2] ring_at_ok [OF ring2] at2(5) by blast+
  obtain m' c' where rel: "release ?m (thr_consumer ?r) = (True, m', c')"
    using released_ok(1) [OF threads_okD(1,6) [OF ok2] holds] by (simp add: at2)
  obtain encoded packet' where enc: "encode_event s1 (st_packet w) (deref ?m v) = (encoded, packet')" by fastforce
  have small: "addressable (payload (deref ?m v))" using ring_at_addressable [OF ring2 at2(5)] by (simp add: at2)
  note len = encode_event_ok(1) [OF sok small enc]
  obtain stats os' g s' where t: "run_state (transmit s1 (subspan packet' 0 (unat (limit_of s1))) encoded (s_stats s1))
      (st_os w) = (stats, os')" "advance_sequence (s1\<lparr>s_stats := stats\<rparr>) encoded = (g, s')"
    by (metis prod.exhaust)
  have lim: "limit_of s1 = limit_of ?s" "unat (limit_of ?s) \<le> unat kMaxPacketBytes"
    using sok(1) by (simp_all add: s1_def sender_ok_def)
  have same: "f = g \<and> m = m' \<and> packet = packet' \<and> s = s'\<lparr>s_ingress := c'\<rparr> \<and> os = os'"
    using pass pass_with_event [OF acq rel s1_def enc len sok(2) lim(2) t(1) [unfolded lim(1)] t(2)] by simp
  have "\<exists>ks w'. sender_trace w2 ks w' \<and> thr_memory (st_ring w') = m' \<and> thr_consumer (st_ring w') = c'
    \<and> st_packet w' = packet' \<and> st_engine w' = s' \<and> st_os w' = os' \<and> st_at w' = after_flow g"
    by (rule rest_of_pass_run [OF at2(1,4,5)]) (unfold at2, (rule enc rel t)+)
  then show ?thesis
    using same sender_trace_append [OF _ ks2] by (auto simp: whole_sender_def)
qed

lemma sender_pass_is_run:
  assumes inv: "tx_inv n st cap ls w" and head: "st_at w = Tx_head" "\<not> s_stop_requested (st_engine w)"
    and pass: "run_state (sender_pass (thr_memory (st_ring w)) (st_packet w) (whole_sender w)) (st_os w)
      = ((f, m, packet, s), os)"
  shows "\<exists>ks w'. sender_trace w ks w' \<and> thr_memory (st_ring w') = m \<and> st_packet w' = packet
    \<and> whole_sender w' = s \<and> st_os w' = os \<and> st_at w' = after_flow f"
proof -
  let ?r = "st_ring w" and ?m = "thr_memory (st_ring w)" and ?s = "st_engine w"
  obtain given c where acq: "try_acquire ?m (thr_consumer ?r) = (given, c)" by fastforce
  define w1 where "w1 = tx_acquiring_at w (?r\<lparr>thr_consumer := c, thr_acquiring := Return_acquire given\<rparr>)"
  obtain ks where ks: "sender_trace w ks w1" using acquire_run [OF inv head acq] by (auto simp: w1_def)
  have inv1: "tx_inv n st cap (ls @ ks) w1" by (rule tx_inv_further [OF ks inv])
  have at1: "st_at w1 = Tx_acquire" "thr_acquiring (st_ring w1) = Return_acquire given"
    "thr_memory (st_ring w1) = ?m" "thr_consumer (st_ring w1) = c" "st_engine w1 = ?s" "st_packet w1 = st_packet w"
    "st_os w1 = st_os w"
    by (simp_all add: w1_def)
  show ?thesis
  proof (cases given)
    case (Inl err)
    obtain g s' os' where n: "run_state (no_event ?s err) (st_os w) = ((g, s'), os')" by (metis prod.exhaust)
    have "f = g \<and> m = ?m \<and> packet = st_packet w \<and> s = s'\<lparr>s_ingress := c\<rparr> \<and> os = os'"
      using pass pass_without_event [OF acq [unfolded Inl] n, of "st_packet w"] by (simp add: whole_sender_def)
    then show ?thesis
      using sender_trace_move [OF ks tx_no_event [OF at1(1) at1(2) [unfolded Inl] consumer_step.return_acquire [OF at1(2)]]]
        n at1
      by (intro exI conjI) (assumption | simp add: whole_sender_def Inl)+
  next
    case (Inr v)
    have "try_acquire (thr_memory (st_ring w1)) (thr_consumer ?r) = (Inr v, thr_consumer (st_ring w1))"
      by (simp add: acq at1 Inr)
    from event_pass_run [OF inv1 at1(1) at1(2) [unfolded Inr] this] show ?thesis
      using pass sender_trace_append [OF _ ks] by (fastforce simp: at1 whole_sender_def)
  qed
qed

section \<open>The receiver\<close>

definition whole_receiver :: "receiver_threads \<Rightarrow> Receiver" where
  "whole_receiver w = (rt_engine w)\<lparr>r_egress := thr_producer (rt_ring w)\<rparr>"

text \<open>The stages of a pass do not look at the handle.\<close>

lemma stages_with_egress:
  "handle_receive_error (r\<lparr>r_egress := i\<rparr>) err =
    (case handle_receive_error r err of (f, r') \<Rightarrow> (f, r'\<lparr>r_egress := i\<rparr>))"
  "filter_datagram (r\<lparr>r_egress := i\<rparr>) bytes =
    (case filter_datagram r bytes of (r', e) \<Rightarrow> (r'\<lparr>r_egress := i\<rparr>, e))"
  "after_publish (r\<lparr>r_egress := i\<rparr>) result = (case after_publish r result of (f, r') \<Rightarrow> (f, r'\<lparr>r_egress := i\<rparr>))"
  by (simp_all add: handle_receive_error_def filter_datagram_def after_publish_def Let_def
      split: sum.split prod.split)

lemma pass_of_packet:
  assumes "receive_packet w = (d, packet, os)" and "r = whole_receiver w"
  shows "run_state (receiver_pass m (rt_packet w) r) (rt_os w) =
    ((case d of Inl err \<Rightarrow> let (f, r) = handle_receive_error r err in (f, m, packet, r)
      | Inr bytes \<Rightarrow> let (f, m, r) = handle_datagram m r bytes in (f, m, packet, r)), os)"
  using assms(1)
  by (auto simp: receive_packet_def receiver_pass_def assms(2) whole_receiver_def Let_def
      split: prod.splits sum.splits)

text \<open>The call of \<open>try_publish\<close> up to its return.\<close>

lemma publish_run:
  assumes ok: "threads_ok n st cap r" and "thr_publishing r = Idle_producer" and small: "addressable (payload e)"
    and pub: "try_publish (thr_memory r) (thr_producer r) e = (result, m, p)"
  shows "producer_step r Silent (r\<lparr>thr_publishing := Load_state e\<rparr>)"
    and "lone_producer_step\<^sup>*\<^sup>* (r\<lparr>thr_publishing := Load_state e\<rparr>)
      (r\<lparr>thr_memory := m, thr_producer := p, thr_publishing := Return_publish e result\<rparr>)"
proof -
  have "has_header (thr_producer r)" using threads_okD(2) [OF ok] by (simp add: handle_ok_def)
  then show call: "producer_step r Silent (r\<lparr>thr_publishing := Load_state e\<rparr>)"
    using producer_step.call_publish [OF assms(2) small] by simp
  have ok1: "threads_ok n st cap (r\<lparr>thr_publishing := Load_state e\<rparr>)" using producer_step_ok [OF call ok] by simp
  show "lone_producer_step\<^sup>*\<^sup>* (r\<lparr>thr_publishing := Load_state e\<rparr>)
      (r\<lparr>thr_memory := m, thr_producer := p, thr_publishing := Return_publish e result\<rparr>)"
    using lone_publication_iff [OF ok1, of e
        "r\<lparr>thr_memory := m, thr_producer := p, thr_publishing := Return_publish e result\<rparr>" e result] pub
    by simp
qed

text \<open>A pass that publishes.\<close>

lemma accepted_pass_run:
  assumes ok: "threads_ok n st cap (rt_ring w)" and idle: "thr_publishing (rt_ring w) = Idle_producer"
    and head: "rt_at w = Rx_head" "\<not> r_stop_requested (rt_engine w)"
    and "receive_packet w = (Inr bytes, packet, os)"
    and "filter_datagram (rt_engine w) bytes = (r, Some e)" and "addressable (payload e)"
    and "try_publish (thr_memory (rt_ring w)) (thr_producer (rt_ring w)) e = (result, m, p)"
    and "after_publish r result = (f, r')"
  shows "\<exists>ks w'. receiver_trace w ks w' \<and> thr_memory (rt_ring w') = m \<and> thr_producer (rt_ring w') = p
    \<and> rt_packet w' = packet \<and> rt_engine w' = r' \<and> rt_os w' = os \<and> rt_at w' = behind_pass f"
proof -
  let ?r = "rt_ring w"
  let ?r1 = "?r\<lparr>thr_publishing := Load_state e\<rparr>"
  let ?r2 = "?r\<lparr>thr_memory := m, thr_producer := p, thr_publishing := Return_publish e result\<rparr>"
  note run = publish_run [OF ok idle assms(7,8)]
  define w1 where "w1 = w\<lparr>rt_ring := ?r1, rt_engine := r, rt_packet := packet, rt_os := os,
      rt_at := Rx_publish, rt_datagrams := rt_datagrams w @ [bytes]\<rparr>"
  have 1: "receiver_move w Silent w1"
    unfolding w1_def by (rule rx_accepted [OF head assms(5,6) run(1)]) simp
  have at1: "rt_at w1 = Rx_publish" and "w1\<lparr>rt_ring := ?r1\<rparr> = w1" by (simp_all add: w1_def)
  with publication_run [OF run(2) at1] obtain ks where ks: "receiver_trace w1 ks (w1\<lparr>rt_ring := ?r2\<rparr>)" by auto
  define w2 where "w2 = (w1\<lparr>rt_ring := ?r2\<rparr>)\<lparr>rt_ring := ?r2\<lparr>thr_publishing := Idle_producer\<rparr>, rt_engine := r',
      rt_at := behind_pass f\<rparr>"
  have 2: "receiver_move (w1\<lparr>rt_ring := ?r2\<rparr>) Silent w2"
    unfolding w2_def
  proof (rule rx_published)
    show "producer_step (rt_ring (w1\<lparr>rt_ring := ?r2\<rparr>)) Silent (?r2\<lparr>thr_publishing := Idle_producer\<rparr>)"
      using producer_step.return_publish [of ?r2 e result] by simp
  qed (use assms(9) in \<open>simp_all add: w1_def\<close>)
  note t = receiver_trace_move [OF receiver_trace_append [OF ks receiver_trace_move [OF receiver_trace.rx_start 1]] 2]
  show ?thesis by (intro exI, rule conjI [OF t]) (simp add: w2_def w1_def)
qed

lemma receiver_pass_is_run:
  assumes inv: "rx_inv n st cap ls w" and head: "rt_at w = Rx_head" "\<not> r_stop_requested (rt_engine w)"
    and pass: "run_state (receiver_pass (thr_memory (rt_ring w)) (rt_packet w) (whole_receiver w)) (rt_os w)
      = ((f, m, packet, r), os)"
  shows "\<exists>ks w'. receiver_trace w ks w' \<and> thr_memory (rt_ring w') = m \<and> rt_packet w' = packet
    \<and> whole_receiver w' = r \<and> rt_os w' = os \<and> rt_at w' = behind_pass f"
proof -
  let ?m = "thr_memory (rt_ring w)" and ?p = "thr_producer (rt_ring w)" and ?r = "rt_engine w"
  have i: "threads_ok n st cap (rt_ring w)" "thr_publishing (rt_ring w) = Idle_producer"
    "length (rt_packet w) = 1416" "honest_recvmsg (rt_os w)"
    using inv head(1) ring_at_ok by (auto simp: rx_inv_def rx_at_def Let_def)
  obtain d packet' os' where rp: "receive_packet w = (d, packet', os')" by (metis prod_cases3)
  note P = pass [unfolded pass_of_packet [OF rp refl]]
  show ?thesis
  proof (cases d)
    case (Inl err)
    obtain g r' where h: "handle_receive_error ?r err = (g, r')" by fastforce
    note move = receiver_trace_move [OF receiver_trace.rx_start rx_error [OF head rp [unfolded Inl] h]]
    show ?thesis
      by (intro exI, rule conjI [OF move])
        (use P in \<open>simp add: Inl whole_receiver_def stages_with_egress h\<close>)
  next
    case (Inr bytes)
    have small: "addressable bytes" using receive_packet_ok(4) [OF rp i(3,4) Inr] delivered_small [OF i(4)] by blast
    obtain r' out where fd: "filter_datagram ?r bytes = (r', out)" by fastforce
    show ?thesis
    proof (cases out)
      case None
      note move = receiver_trace_move [OF receiver_trace.rx_start
          rx_dropped [OF head rp [unfolded Inr] fd [unfolded None]]]
      show ?thesis
        by (intro exI, rule conjI [OF move])
          (use P in \<open>auto simp: Inr None whole_receiver_def handle_datagram_split stages_with_egress fd behind_pass_def head\<close>)
    next
      case (Some e)
      have ad: "addressable (payload e)"
        using filtered_small [OF fd [unfolded Some] small] by (intro addressable_smallI) simp
      obtain result m' p' where pub: "try_publish ?m ?p e = (result, m', p')" by (metis prod_cases3)
      obtain g r'' where ap: "after_publish r' result = (g, r'')" by fastforce
      have "f = g \<and> m = m' \<and> packet = packet' \<and> r = r''\<lparr>r_egress := p'\<rparr> \<and> os = os'"
        using P by (auto simp: Inr Some whole_receiver_def handle_datagram_split stages_with_egress fd pub ap)
      then show ?thesis
        using accepted_pass_run [OF i(1,2) head rp [unfolded Inr] fd [unfolded Some] ad pub ap]
        by (auto simp: whole_receiver_def)
    qed
  qed
qed

section \<open>The agreement, from new engines on\<close>

text \<open>
  C9. The sender's loop as one action and as single steps agree: wherever the concurrent sender is at
  the head of its loop, the pass of Sender_Engine on the ring as it is then is a run of the concurrent
  program, with the same datagrams, counters, packet, handle and segment, back to the head of
  the loop or to its end.
\<close>

theorem sender_passes_are_runs:
  assumes "new_threads ring_config r" and "s = make_sender config seg ingress udp ds sid" and "sid \<noteq> 0"
    and "\<not> bad_sender_config config" and "sent_datagrams os = []"
    and "sender_trace (start_sender_threads r s os) ls w"
    and "st_at w = Tx_head" and "\<not> s_stop_requested (st_engine w)"
    and "run_state (sender_pass (thr_memory (st_ring w)) (st_packet w) (whole_sender w)) (st_os w)
      = ((f, m, packet, s'), os')"
  shows "\<exists>ks w'. sender_trace w ks w' \<and> thr_memory (st_ring w') = m \<and> st_packet w' = packet
    \<and> whole_sender w' = s' \<and> st_os w' = os' \<and> st_at w' = after_flow f"
  by (rule sender_pass_is_run [OF sender_threads_run(1) [OF assms(1-6)] assms(7-9)])

text \<open>
  C10. The receiver's loop as one action and as single steps agree: wherever the concurrent receiver
  is at the head of its loop, the pass of Receiver_Engine on the ring as it is then is a run of the
  concurrent program, with the same engine, packet, handle and segment, to the head of the loop or to the return.
\<close>

theorem receiver_passes_are_runs:
  assumes "new_threads ring_config t" and "initializer (thr_producer t)"
    and "r = make_receiver config seg egress udp" and "honest_recvmsg os"
    and "receiver_trace (start_receiver_threads t r os) ls w"
    and "rt_at w = Rx_head" and "\<not> r_stop_requested (rt_engine w)"
    and "run_state (receiver_pass (thr_memory (rt_ring w)) (rt_packet w) (whole_receiver w)) (rt_os w)
      = ((f, m, packet, r'), os')"
  shows "\<exists>ks w'. receiver_trace w ks w' \<and> thr_memory (rt_ring w') = m \<and> rt_packet w' = packet
    \<and> whole_receiver w' = r' \<and> rt_os w' = os' \<and> rt_at w' = behind_pass f"
  by (rule receiver_pass_is_run [OF receiver_threads_run(1) [OF assms(1-5)] assms(6-8)])

section \<open>Passes of the concrete engines\<close>

theorem sender_passes_are_runs_witness:
  "\<exists>ls w ks w'. sender_trace demo_tx_threads ls w \<and> thr_memory (st_ring w) = segment demo_one
    \<and> sender_trace w ks w' \<and> ((thr_memory (st_ring w'), st_packet w', whole_sender w'), st_os w')
      = (let ((_, rest), os) = run_state (sender_pass (segment demo_one) (st_packet demo_tx_threads)
          (whole_sender demo_tx_threads)) demo_os in (rest, os))"
proof -
  let ?w = "demo_tx_threads\<lparr>st_ring := demo_returning\<rparr>"
  obtain ls where t: "sender_trace demo_tx_threads ls ?w" using demo_tx_published by blast
  have m: "thr_memory (st_ring ?w) = segment demo_one" by (simp add: demo_returning_def)
  have same: "whole_sender ?w = whole_sender demo_tx_threads" "st_os ?w = demo_os"
    by (simp_all add: whole_sender_def demo_returning_def demo_tx_start(2) demo_tx_threads_def start_sender_threads_def)
  obtain f m' packet s os where p: "run_state (sender_pass (segment demo_one) (st_packet demo_tx_threads)
      (whole_sender demo_tx_threads)) demo_os = ((f, m', packet, s), os)" by (metis prod_cases5 prod.exhaust)
  have "(9 :: u32) \<noteq> 0" by simp
  from sender_passes_are_runs [OF demo_new demo_sender_def this demo_config_ok demo_sent_nothing
      t [unfolded demo_tx_threads_def]]
  obtain ks w' where "sender_trace ?w ks w'" "thr_memory (st_ring w') = m'" "st_packet w' = packet"
    "whole_sender w' = s" "st_os w' = os"
    using p same m demo_tx_start(3,4) by (fastforce simp: demo_tx_threads_def)
  then show ?thesis using t m p by (intro exI [of _ ls] exI [of _ ?w] exI [of _ ks] exI [of _ w']) simp
qed

theorem receiver_passes_are_runs_witness:
  "\<exists>ks w'. receiver_trace demo_rx_threads ks w' \<and> ((thr_memory (rt_ring w'), rt_packet w', whole_receiver w'), rt_os w')
    = (let ((_, rest), os) = run_state (receiver_pass demo_segment (rt_packet demo_rx_threads)
        (whole_receiver demo_rx_threads)) demo_rx_os in (rest, os))"
proof -
  let ?w = demo_rx_threads
  have at: "rt_at ?w = Rx_head" "\<not> r_stop_requested (rt_engine ?w)" "thr_memory (rt_ring ?w) = demo_segment"
    "rt_os ?w = demo_rx_os"
    by (simp_all add: demo_rx_threads_def start_receiver_threads_def demo_receiver_def make_receiver_def
        demo_threads_def start_threads_def)
  obtain f m packet r os where p: "run_state (receiver_pass demo_segment (rt_packet ?w) (whole_receiver ?w)) demo_rx_os
      = ((f, m, packet, r), os)" by (metis prod_cases5 prod.exhaust)
  have i: "initializer (thr_producer demo_threads)"
    by (simp add: demo_threads_def start_threads_def make_ring_def)
  from receiver_passes_are_runs [OF demo_new i demo_receiver_def demo_honest
      receiver_trace.rx_start [of ?w, unfolded demo_rx_threads_def], folded demo_rx_threads_def, OF at(1,2)]
  obtain ks w' where "receiver_trace ?w ks w'" "thr_memory (rt_ring w') = m" "rt_packet w' = packet"
    "whole_receiver w' = r" "rt_os w' = os"
    using p at(3,4) by fastforce
  then show ?thesis using p by (intro exI [of _ ks] exI [of _ w']) simp
qed

end
