(* ===== verification/Happens_Before.thy ===== *)
theory Happens_Before
  imports Prelude
begin

text \<open>
  Executions of threads that share a segment, as C++ orders them: an execution is the list of the
  actions of all threads, an action happens before another one of the same thread that comes later, a
  release store happens before an acquire load that reads it, and two accesses to the same bytes that
  are not atomic must be ordered in this way.
\<close>

section \<open>Actions\<close>

datatype role = Producer | Consumer

text \<open>The atomic objects of the segment.\<close>

datatype atomic = State_word | Write_cursor | Read_cursor

text \<open>
  What a step does with the segment: atomic accesses with their memory order and the value as a
  number, accesses to bytes (offset and length) that are not atomic, and steps without an access.
\<close>

datatype action = Acquire_load atomic nat | Release_store atomic nat
  | Relaxed_load atomic nat | Relaxed_store atomic nat
  | Read_bytes nat nat | Write_bytes nat nat | Internal

type_synonym execution = "(role \<times> action) list"

fun plain_bytes :: "action \<Rightarrow> (nat \<times> nat) option" where
  "plain_bytes (Read_bytes off n) = Some (off, n)"
| "plain_bytes (Write_bytes off n) = Some (off, n)"
| "plain_bytes _ = None"

fun is_write :: "action \<Rightarrow> bool" where
  "is_write (Write_bytes _ _) = True"
| "is_write _ = False"

definition overlap :: "nat \<times> nat \<Rightarrow> nat \<times> nat \<Rightarrow> bool" where
  "overlap x y \<longleftrightarrow> fst x < fst y + snd y \<and> fst y < fst x + snd x"

text \<open>Accesses of two threads to a common byte, one of which writes.\<close>

definition conflict :: "role \<times> action \<Rightarrow> role \<times> action \<Rightarrow> bool" where
  "conflict x y \<longleftrightarrow> fst x \<noteq> fst y \<and> (is_write (snd x) \<or> is_write (snd y)) \<and>
     (case (plain_bytes (snd x), plain_bytes (snd y)) of (Some a, Some b) \<Rightarrow> overlap a b | _ \<Rightarrow> False)"

lemma conflictE:
  assumes "conflict x y"
  obtains a b where "plain_bytes (snd x) = Some a" "plain_bytes (snd y) = Some b" "overlap a b"
    "fst x \<noteq> fst y" "is_write (snd x) \<or> is_write (snd y)"
  using assms by (auto simp: conflict_def split: option.splits)

section \<open>Happens before\<close>

text \<open>
  A load that reads \<open>v\<close> is ordered after the first store of \<open>v\<close>: if it reads a later one of the same
  thread, that one comes behind the first.
\<close>

definition first_store :: "execution \<Rightarrow> nat \<Rightarrow> atomic \<Rightarrow> nat \<Rightarrow> bool" where
  "first_store h i loc v \<longleftrightarrow> snd (h ! i) = Release_store loc v \<and> (\<forall>k < i. snd (h ! k) \<noteq> Release_store loc v)"

inductive happens_before :: "execution \<Rightarrow> nat \<Rightarrow> nat \<Rightarrow> bool" for h where
  program_order: "i < j \<Longrightarrow> j < length h \<Longrightarrow> fst (h ! i) = fst (h ! j) \<Longrightarrow> happens_before h i j"
| synchronizes: "i < j \<Longrightarrow> j < length h \<Longrightarrow> first_store h i loc v \<Longrightarrow>
    snd (h ! j) = Acquire_load loc v \<Longrightarrow> happens_before h i j"
| then_before: "happens_before h i j \<Longrightarrow> happens_before h j k \<Longrightarrow> happens_before h i k"

definition race_free :: "execution \<Rightarrow> bool" where
  "race_free h \<longleftrightarrow> (\<forall>j < length h. \<forall>i < j. conflict (h ! i) (h ! j) \<longrightarrow> happens_before h i j)"

lemma happens_before_extends: "happens_before h i j \<Longrightarrow> happens_before (h @ g) i j"
proof (induction rule: happens_before.induct)
  case (program_order i j)
  then show ?case by (intro happens_before.program_order) (simp_all add: nth_append)
next
  case (synchronizes i j loc v)
  then show ?case
    by (intro happens_before.synchronizes [where loc = loc and v = v]) (auto simp: first_store_def nth_append)
next
  case (then_before i j k)
  then show ?case by (blast intro: happens_before.then_before)
qed

lemma earlier_first_store:
  assumes "b < a" and "snd (h ! b) = Release_store loc v"
  shows "\<exists>b < a. first_store h b loc v"
  using ex_least_nat_le [of "\<lambda>b. snd (h ! b) = Release_store loc v", OF assms(2)] assms(1)
  by (auto simp: first_store_def intro: le_less_trans)

lemma race_free_snoc:
  assumes "race_free h" and "\<And>i. i < length h \<Longrightarrow> conflict (h ! i) x \<Longrightarrow> happens_before (h @ [x]) i (length h)"
  shows "race_free (h @ [x])"
  using assms by (auto simp: race_free_def nth_append less_Suc_eq intro: happens_before_extends)

lemma race_free_no_access: "race_free h \<Longrightarrow> plain_bytes a = None \<Longrightarrow> race_free (h @ [(t, a)])"
  by (rule race_free_snoc) (auto elim: conflictE)

text \<open>An earlier action of another thread that this thread learned of through an atomic object.\<close>

lemma passed_on:
  assumes "i < b" "b < a" "a < j" "j < length h" and "fst (h ! i) = fst (h ! b)" and "fst (h ! a) = fst (h ! j)"
    and "first_store h b loc v" and "snd (h ! a) = Acquire_load loc v"
  shows "happens_before h i j"
proof -
  have "happens_before h i b" using assms by (intro happens_before.program_order) auto
  moreover have "happens_before h b a"
    using assms by (intro happens_before.synchronizes [OF _ _ assms(7,8)]) auto
  moreover have "happens_before h a j" using assms by (intro happens_before.program_order) auto
  ultimately show ?thesis by (blast intro: happens_before.then_before)
qed

section \<open>What a plain load reads\<close>

definition accesses_byte :: "action \<Rightarrow> nat \<Rightarrow> bool" where
  "accesses_byte a x \<longleftrightarrow> (case plain_bytes a of Some (off, n) \<Rightarrow> off \<le> x \<and> x < off + n | None \<Rightarrow> False)"

definition stores_byte :: "execution \<Rightarrow> nat \<Rightarrow> nat \<Rightarrow> bool" where
  "stores_byte h x i \<longleftrightarrow> i < length h \<and> is_write (snd (h ! i)) \<and> accesses_byte (snd (h ! i)) x"

text \<open>
  A store is visible to a later access when it happens before it and no other store of the byte comes
  in between: these are the stores that a load may read in C++.
\<close>

definition visible_store :: "execution \<Rightarrow> nat \<Rightarrow> nat \<Rightarrow> nat \<Rightarrow> bool" where
  "visible_store h x i j \<longleftrightarrow> stores_byte h x i \<and> happens_before h i j
     \<and> \<not> (\<exists>k. stores_byte h x k \<and> happens_before h i k \<and> happens_before h k j)"

definition last_store :: "execution \<Rightarrow> nat \<Rightarrow> nat \<Rightarrow> nat \<Rightarrow> bool" where
  "last_store h x i j \<longleftrightarrow> stores_byte h x i \<and> i < j \<and> (\<forall>k. i < k \<and> k < j \<longrightarrow> \<not> stores_byte h x k)"

lemma happens_before_less: "happens_before h i j \<Longrightarrow> i < j"
  by (induction rule: happens_before.induct) auto

text \<open>Without races a store of a byte happens before every later access to it.\<close>

lemma store_happens_before:
  assumes "race_free h" and "stores_byte h x i" and "accesses_byte (snd (h ! j)) x" and "i < j" "j < length h"
  shows "happens_before h i j"
proof (cases "fst (h ! i) = fst (h ! j)")
  case False
  then have "conflict (h ! i) (h ! j)"
    using assms(2,3) by (auto simp: conflict_def stores_byte_def accesses_byte_def overlap_def split: option.splits)
  then show ?thesis using assms(1,4,5) by (simp add: race_free_def)
qed (use assms(4,5) in \<open>auto intro: program_order\<close>)

lemma race_free_reads_last:
  assumes "race_free h" and "j < length h" and "accesses_byte (snd (h ! j)) x"
  shows "visible_store h x i j \<longleftrightarrow> last_store h x i j"
proof -
  note hb = store_happens_before [OF assms(1)]
  have store: "happens_before h a b" if "stores_byte h x a" "stores_byte h x b" "a < b" for a b
    using hb [OF that(1) _ that(3)] that(2) by (simp add: stores_byte_def)
  have access: "happens_before h a j" if "stores_byte h x a" "a < j" for a
    using hb [OF that(1) assms(3) that(2) assms(2)] .
  show ?thesis
    unfolding visible_store_def last_store_def using store access happens_before_less by blast
qed

end
