(* ===== verification/Ring_Lifetime.thy ===== *)
theory Ring_Lifetime
  imports Concurrent_Ring Ring_Calls_Witnesses
begin

text \<open>
  What the header of a segment tells a process that looks at it later, while the two threads of
  Ring_Steps run: the geometry stays, the state goes forward only, the cursors count the events, and
  so a process may attach at any moment.
\<close>

section \<open>The order of the states\<close>

text \<open>The states of a ring in the order in which it goes through them, that of their stored values.\<close>

instantiation RingState :: linorder
begin

definition less_eq_RingState :: "RingState \<Rightarrow> RingState \<Rightarrow> bool" where
  "less_eq_RingState s t \<longleftrightarrow> ring_state_value s \<le> ring_state_value t"

definition less_RingState :: "RingState \<Rightarrow> RingState \<Rightarrow> bool" where
  "less_RingState s t \<longleftrightarrow> ring_state_value s < ring_state_value t"

instance
proof
  fix s t u :: RingState
  show "(s < t) = (s \<le> t \<and> \<not> t \<le> s)" "s \<le> s" "s \<le> t \<or> t \<le> s"
    by (auto simp: less_eq_RingState_def less_RingState_def)
  show "s \<le> t \<Longrightarrow> t \<le> u \<Longrightarrow> s \<le> u" by (simp add: less_eq_RingState_def)
  show "s \<le> t \<Longrightarrow> t \<le> s \<Longrightarrow> s = t"
    by (cases s; cases t) (simp_all add: less_eq_RingState_def word_le_nat_alt)
qed

end

definition in_state :: "byte list \<Rightarrow> RingState \<Rightarrow> bool" where
  "in_state m s \<longleftrightarrow> pre_state m = ring_state_value s"

section \<open>How a step changes the header\<close>

text \<open>The bytes of the header that nobody writes after \<open>initialize\<close>: all but the state and the cursors.\<close>

definition fixed_header :: "byte list \<Rightarrow> byte list \<Rightarrow> bool" where
  "fixed_header m m' \<longleftrightarrow> length m' = length m
     \<and> (\<forall>j < 192. j < 40 \<or> 44 \<le> j \<and> j < 64 \<or> 72 \<le> j \<and> j < 128 \<or> 136 \<le> j \<longrightarrow> m' ! j = m ! j)"

definition advances :: "effect list \<Rightarrow> byte list \<Rightarrow> byte list \<Rightarrow> bool" where
  "advances ls m m' \<longleftrightarrow> fixed_header m m'
     \<and> unat (producer_position m') = unat (producer_position m) + length (enqueued ls)
     \<and> unat (consumer_position m') = unat (consumer_position m) + length (dequeued ls)
     \<and> (pre_state m' = pre_state m
        \<or> Closing \<in> set ls \<and> pre_state m' = ring_state_value RingState.Closed)"

lemma fixed_header_store:
  assumes "192 \<le> length m"
  shows "fixed_header m (write_u32 m 40 x)" "fixed_header m (write_u64 m 64 y)" "fixed_header m (write_u64 m 128 y)"
  using assms by (auto simp: fixed_header_def write_bytes nth_store_outside)

lemma advances_same: "advances [] m m" "advances [Silent] m m"
  by (simp_all add: advances_def fixed_header_def)

lemma advances_further:
  "advances ls m m' \<Longrightarrow> advances [l] m' m'' \<Longrightarrow> advances (ls @ [l]) m m''"
  by (auto simp: advances_def fixed_header_def split: effect.splits)

lemma advances_private:
  assumes "publishable n st cap m p e" and "private_write n st cap m m'"
  shows "advances [Silent] m m'"
  using private_header [OF assms] assms(2) publishableD(4,5) [OF assms(1)]
  by (auto simp: advances_def fixed_header_def private_write_def)

lemma advances_producer:
  assumes "producer_step w l w'" and ok: "threads_ok n st cap w"
  shows "advances [l] (thr_memory w) (thr_memory w')"
  using assms(1)
proof cases
  case (store_header e pos)
  then have may: "may_publish n st cap (thr_memory w) (thr_producer w) e pos"
    using threads_okD(11) [OF ok] by (simp add: producer_knows_def)
  then have pub: "publishable n st cap (thr_memory w) (thr_producer w) e"
    "slot_of (thr_producer w) pos = next_slot n st (thr_memory w)"
    using publishableD(10) by (auto simp: may_publish_def)
  show ?thesis
    using advances_private [OF pub(1) store_header_private(1) [OF pub(1) refl refl, folded pub(2)]]
    by (simp add: store_header(1,2))
next
  case (copy_payload e pos k)
  then have may: "may_publish n st cap (thr_memory w) (thr_producer w) e pos"
    and c: "copied (thr_memory w) (next_slot n st (thr_memory w)) e k"
    using threads_okD(11) [OF ok] by (simp_all add: producer_knows_def)
  then have pub: "publishable n st cap (thr_memory w) (thr_producer w) e"
    "pos = producer_position (thr_memory w)" by (simp_all add: may_publish_def)
  show ?thesis
    using advances_private [OF pub(1) copy_byte_private(1) [OF pub(1) c copy_payload(4) refl refl, folded pub(2)]]
    by (simp add: copy_payload(1,2))
next
  case (store_position e pos k)
  then have may: "may_publish n st cap (thr_memory w) (thr_producer w) e pos"
    and c: "copied (thr_memory w) (next_slot n st (thr_memory w)) e k"
    using threads_okD(11) [OF ok] by (simp_all add: producer_knows_def)
  then have pub: "publishable n st cap (thr_memory w) (thr_producer w) e"
    "pos = producer_position (thr_memory w)" by (simp_all add: may_publish_def)
  have "thr_memory w' = write_u64 (thr_memory w) 64 (producer_position (thr_memory w) + 1)"
    by (simp add: store_position(2) pub(2))
  from store_position_effect(3-5) [OF pub(1) copied_event [OF pub(1)] this] c store_position(4)
  show ?thesis
    using fixed_header_store(2) [OF publishableD(4) [OF pub(1)]]
    by (simp add: store_position(1) \<open>thr_memory w' = _\<close> advances_def)
qed (simp_all add: advances_same)

lemma advances_owner:
  assumes "owner_step w l w'" and ok: "threads_ok n st cap w"
  shows "advances [l] (thr_memory w) (thr_memory w')"
  using assms(1)
proof cases
  case (close owner m)
  have m: "m = write_u32 (thr_memory w) 40 3"
    using close(4) by (auto simp: close_publication_def split: if_splits)
  show ?thesis
    using closed_frame [OF threads_okD(4) [OF ok] m] fixed_header_store(1) [of "thr_memory w" 3]
      geometryD(5) [OF threads_okD(4) [OF ok]]
    by (simp add: close(1,2) advances_def m)
qed

lemma advances_consumer:
  assumes "consumer_step w l w'" and ok: "threads_ok n st cap w"
  shows "advances [l] (thr_memory w) (thr_memory w')"
  using assms(1)
proof cases
  case (call_release v m c)
  let ?m = "thr_memory w"
  have a: "acquired (thr_consumer w)" using ok call_release(4) by (simp add: threads_ok_def)
  note d = threads_okD [OF ok]
  have m: "m = released_ring ?m" using released_ok(1) [OF d(1,6) a] call_release(5) by simp
  have "consumer_position ?m \<noteq> u64_max"
    using d(6) a unsigned_less [of "producer_position ?m", where ?'a = nat] by (auto simp: consumer_ok_def)
  then show ?thesis
    using released_cursors [OF d(4)] unat_plus_1 [of "consumer_position ?m"]
      fixed_header_store(3) [of ?m "consumer_position ?m + 1"] geometryD(5) [OF d(4)]
    by (simp add: call_release(1,2) m advances_def released_ring_def)
qed (simp_all add: advances_same)

lemma advances_trace:
  assumes "ring_trace w ls w'" and "threads_ok n st cap w"
  shows "advances ls (thr_memory w) (thr_memory w')"
  using assms
proof (induction rule: ring_trace.induct)
  case (one_more w ls w' l w'')
  have "threads_ok n st cap w'" by (rule ring_trace_ok [OF one_more.hyps(1) one_more.prems])
  then have "advances [l] (thr_memory w') (thr_memory w'')"
    using one_more.hyps(2) advances_producer advances_owner advances_consumer by (auto elim!: ring_step.cases)
  with one_more.IH [OF one_more.prems] show ?case by (rule advances_further)
qed (simp add: advances_same)

section \<open>Attaching at any moment\<close>

lemma fixed_fields:
  assumes "fixed_header m m'" and "192 \<le> length m"
  shows "pre_magic m' = pre_magic m" "pre_layout_version m' = pre_layout_version m"
    "pre_header_bytes m' = pre_header_bytes m" "pre_segment_bytes m' = pre_segment_bytes m"
    "pre_slot_count m' = pre_slot_count m" "pre_slot_stride m' = pre_slot_stride m"
    "pre_slot_payload_capacity m' = pre_slot_payload_capacity m" "pre_reserved m' = pre_reserved m"
    "pre_instance_id m' = pre_instance_id m"
proof -
  show "pre_magic m' = pre_magic m"
    using assms by (auto simp: pre_magic_def fixed_header_def mem_simps intro!: nth_equalityI)
qed (use assms(1) in \<open>auto simp: preamble_defs fixed_header_def intro!: read_u16_cong read_u32_cong read_u64_cong\<close>)

lemma attachable_later:
  assumes "attachable m" and "advances ls m m'"
  shows "attachable m'" and "make_ring m' b = make_ring m b"
proof -
  have len: "192 \<le> length m" using assms(1) by (auto simp: attachable_def dest: geometryD(5))
  have fixed: "fixed_header m m'" using assms(2) by (simp add: advances_def)
  note f = fixed_fields [OF fixed len]
  show "make_ring m' b = make_ring m b" by (simp add: make_ring_def f)
  have "pre_state m' = 2 \<or> pre_state m' = 3" "length m' = length m"
    using assms by (auto simp: attachable_def advances_def fixed_header_def)
  moreover have "m' ! j = 0" if "j < 192" "44 \<le> j \<and> j < 64 \<or> 72 \<le> j \<and> j < 128 \<or> 136 \<le> j" for j
    using that fixed assms(1) by (auto simp: fixed_header_def attachable_def)
  ultimately show "attachable m'"
    using assms(1) by (auto simp: attachable_def f geometry_def)
qed

lemma new_threads_attachable:
  assumes "new_threads config r"
  shows "attachable (thr_memory r)" "addressable (thr_memory r)"
    and "in_state (thr_memory r) Ready"
    and "producer_position (thr_memory r) = 0" "consumer_position (thr_memory r) = 0"
proof -
  obtain a0 m0 id0 h m a1 a where i: "addressable m0" "initialize_ring a0 m0 config id0 = (Inr h, m)"
    "attach_ring a1 m = Inr a" "r = start_threads m h a \<or> r = start_threads m a h"
    using assms by (auto simp: new_threads_def)
  then have m: "thr_memory r = m" by (auto simp: start_threads_def)
  note n = attach_initialized [OF i(1,2)]
  show small: "addressable (thr_memory r)" using i(1) n(4) by (simp add: m addressable_def)
  show "attachable (thr_memory r)" using attach_ring_iff [OF small] i(3) by (auto simp: m)
  show "in_state (thr_memory r) Ready" using n(5) by (simp add: m in_state_def)
  show "producer_position (thr_memory r) = 0" "consumer_position (thr_memory r) = 0"
    using fresh_positions [OF i(1,2)] by (simp_all add: m)
qed

text \<open>The state after a step is what it was, or Closed, which is the last one.\<close>

lemma closed_is_last [simp]: "s \<le> RingState.Closed"
  by (cases s) (simp_all add: less_eq_RingState_def)

lemma next_state:
  assumes "in_state m s" and "advances ls m m'"
  shows "\<exists>s'. in_state m' s' \<and> s \<le> s'"
proof (cases "pre_state m' = pre_state m")
  case True
  then show ?thesis using assms(1) by (intro exI [of _ s]) (simp add: in_state_def)
next
  case False
  then show ?thesis using assms(2) by (intro exI [of _ RingState.Closed]) (simp add: in_state_def advances_def)
qed

text \<open>
  C14. The header tells the truth at any moment: however the loads and stores of the two threads and
  a closing are interleaved, between an earlier moment and a later one the state of the ring only goes
  forward and the cursors only grow, at the later moment the cursors are the numbers of events
  published and released so far, and a process that attaches at that moment, in the middle of any call
  and also after the closing, is given a handle on the geometry with which the ring was made.
\<close>

theorem ring_header_only_advances:
  assumes "new_threads config r" and "ring_trace r ls w" and "ring_trace w ks w'"
    and "m = thr_memory w" and "m' = thr_memory w'"
  shows "(\<exists>s s'. in_state m s \<and> in_state m' s' \<and> Ready \<le> s \<and> s \<le> s')
    \<and> producer_position m \<le> producer_position m' \<and> consumer_position m \<le> consumer_position m'
    \<and> unat (producer_position m') = length (enqueued (ls @ ks))
    \<and> unat (consumer_position m') = length (dequeued (ls @ ks))
    \<and> (\<forall>addr. addr \<noteq> 0 \<and> unat addr mod 128 = 0 \<longrightarrow>
        attach_ring addr m' = Inr (make_ring (thr_memory r) False))"
proof -
  note new = new_threads_attachable [OF assms(1)]
  note t = ring_trace_append [OF assms(3,2)]
  note a = advances_trace [OF assms(2) new_threads_ok(1) [OF assms(1)]]
    and b = advances_trace [OF assms(3) new_trace_ok [OF assms(1,2)]]
    and c = advances_trace [OF t new_threads_ok(1) [OF assms(1)]]
  have grow: "producer_position m \<le> producer_position m'" "consumer_position m \<le> consumer_position m'"
    "unat (producer_position m') = length (enqueued (ls @ ks))"
    "unat (consumer_position m') = length (dequeued (ls @ ks))"
    using b c new(4,5) by (simp_all add: assms(4,5) advances_def word_le_nat_alt)
  have forward: "\<exists>s s'. in_state m s \<and> in_state m' s' \<and> Ready \<le> s \<and> s \<le> s'"
    using next_state [OF new(3) a] next_state [OF _ b] unfolding assms(4,5) by blast
  have "addressable m'"
    using c new(2) by (simp add: assms(5) advances_def fixed_header_def addressable_def)
  from attach_ring_iff [OF this] attachable_later [OF new(1) c]
  have given: "attach_ring addr m' = Inr (make_ring (thr_memory r) False)"
    if "addr \<noteq> 0" "unat addr mod 128 = 0" for addr
    using that by (simp add: assms(5) good_address_def)
  show ?thesis
    by (intro conjI allI impI forward grow) (elim conjE, rule given)
qed

theorem ring_header_only_advances_witness:
  "producer_position (segment demo_one) = 1
    \<and> attach_ring 128 (segment demo_one) = Inr (make_ring demo_segment False)"
proof -
  obtain ls where t: "ring_trace demo_threads ls demo_returning" "enqueued ls = [demo_event 1]"
    using demo_published(2) by blast
  have m: "thr_memory demo_returning = segment demo_one" "thr_memory demo_threads = demo_segment"
    by (simp_all add: demo_returning_def demo_threads_def start_threads_def)
  note h = ring_header_only_advances [OF demo_new no_step t(1) refl refl, unfolded m]
  have "unat (producer_position (segment demo_one)) = length (enqueued ([] @ ls))"
    using h by (elim conjE)
  then have "unat (producer_position (segment demo_one)) = 1" by (simp add: t(2))
  then have "producer_position (segment demo_one) = 1" by (metis unat_1 word_unat_eq_iff)
  moreover have "attach_ring 128 (segment demo_one) = Inr (make_ring demo_segment False)"
  proof -
    have "\<forall>addr. addr \<noteq> 0 \<and> unat addr mod 128 = 0 \<longrightarrow>
        attach_ring addr (segment demo_one) = Inr (make_ring demo_segment False)"
      using h by (elim conjE)
    from this [rule_format, of 128] show ?thesis by simp
  qed
  ultimately show ?thesis ..
qed

end
