(* ===== verification/Ring_Races.thy ===== *)
theory Ring_Races
  imports Happens_Before Ring_Lifetime
begin

text \<open>
  The memory orders of the ring: the steps of Ring_Steps as actions in the sense of Happens_Before, and
  the proof that no execution of the two threads, from the construction of the segment on, has a data
  race: whatever a thread accesses in a slot, it has learned through the cursors that the other one is
  done with it.
\<close>

section \<open>The actions of the code\<close>

definition release_state :: "RingState \<Rightarrow> action" where
  "release_state s = Release_store State_word (unat (ring_state_value s))"

text \<open>A step of the producer, by the statement it is at; \<open>w'\<close> is the state behind it.\<close>

definition producer_action :: "ring_threads \<Rightarrow> ring_threads \<Rightarrow> action" where
  "producer_action w w' = (case thr_publishing w of
      Load_state e \<Rightarrow> Acquire_load State_word (unat (pre_state (thr_memory w)))
    | Load_position e \<Rightarrow> Relaxed_load Write_cursor (unat (producer_position (thr_memory w)))
    | Load_read_cursor e pos \<Rightarrow> Acquire_load Read_cursor (unat (cached_read_position (thr_producer w')))
    | Store_header e pos \<Rightarrow> Write_bytes (slot_of (thr_producer w) pos) 24
    | Copy_payload e pos k \<Rightarrow>
        if k < length (payload e)
        then Write_bytes (slot_of (thr_producer w) pos + unat ring_slot_metadata_bytes + k) 1
        else Release_store Write_cursor (unat (pos + 1))
    | _ \<Rightarrow> Internal)"

definition consumer_action :: "ring_threads \<Rightarrow> ring_threads \<Rightarrow> action" where
  "consumer_action w w' = (case thr_acquiring w of
      Check_acquired \<Rightarrow>
        if acquired (thr_consumer w) then Internal
        else Relaxed_load Read_cursor (unat (consumer_position (thr_memory w)))
    | Load_closure pos \<Rightarrow>
        (case thr_acquiring w' of Load_write_cursor _ loaded \<Rightarrow> Acquire_load State_word (unat loaded)
         | _ \<Rightarrow> Internal)
    | Load_write_cursor pos loaded \<Rightarrow>
        Acquire_load Write_cursor (unat (cached_write_position (thr_consumer w')))
    | Read_header pos \<Rightarrow>
        if pos > cached_write_position (thr_consumer w)
          \<or> cached_write_position (thr_consumer w) - pos > ucast (r_slot_count (thr_consumer w))
        then Internal
        else Read_bytes (slot_of (thr_consumer w) pos) (unat ring_slot_metadata_bytes)
    | Idle_consumer \<Rightarrow>
        if thr_view w \<noteq> None \<and> thr_view w' = None
        then Release_store Read_cursor (unat (acquired_position (thr_consumer w) + 1))
        else Internal
    | _ \<Rightarrow> Internal)"

text \<open>The parts of the header that \<open>attach\<close> reads with plain loads: all but the atomics.\<close>

definition header_reads :: "(nat \<times> nat) list" where
  "header_reads = [(0, 40), (44, 20), (72, 56), (136, 56)]"

text \<open>A thread other than the one that made the ring must have attached: it has loaded the state.\<close>

definition has_attached :: "role \<Rightarrow> execution \<Rightarrow> role \<Rightarrow> bool" where
  "has_attached maker h t \<longleftrightarrow> t = maker \<or> (\<exists>k < length h. \<exists>v. h ! k = (t, Acquire_load State_word v))"

text \<open>
  Executions: one thread has constructed the ring with plain stores and released the state; the other
  attaches when it likes; then both run. The owner that closes is the thread that made the ring, and
  the consumer may read the payload of a held event as often as it likes.
\<close>

inductive ring_execution :: "role \<Rightarrow> ring_threads \<Rightarrow> execution \<Rightarrow> ring_threads \<Rightarrow> bool" for maker r where
  made: "ring_execution maker r
    [(maker, Write_bytes 0 (length (thr_memory r))), (maker, release_state Ready)] r"
| attach_state: "ring_execution maker r h w \<Longrightarrow>
    loaded = pre_state (thr_memory w) \<or> loaded = ring_state_value Ready \<Longrightarrow>
    ring_execution maker r (h @ [(t, Acquire_load State_word (unat loaded))]) w"
| attach_header: "ring_execution maker r h w \<Longrightarrow> has_attached maker h t \<Longrightarrow> (off, n) \<in> set header_reads \<Longrightarrow>
    ring_execution maker r (h @ [(t, Read_bytes off n)]) w"
| produce: "ring_execution maker r h w \<Longrightarrow> has_attached maker h Producer \<Longrightarrow> producer_step w l w' \<Longrightarrow>
    ring_execution maker r (h @ [(Producer, producer_action w w')]) w'"
| consume: "ring_execution maker r h w \<Longrightarrow> has_attached maker h Consumer \<Longrightarrow> consumer_step w l w' \<Longrightarrow>
    ring_execution maker r (h @ [(Consumer, consumer_action w w')]) w'"
| look: "ring_execution maker r h w \<Longrightarrow> has_attached maker h Consumer \<Longrightarrow> thr_view w = Some v \<Longrightarrow>
    k < snd (payload v) \<Longrightarrow> ring_execution maker r (h @ [(Consumer, Read_bytes (fst (payload v) + k) 1)]) w"
| shut: "ring_execution maker r h w \<Longrightarrow> owner_step w l w' \<Longrightarrow>
    ring_execution maker r (h @ [(maker, release_state RingState.Closed)]) w'"

section \<open>What a thread may rely on\<close>

fun other :: "role \<Rightarrow> role" where
  "other Producer = Consumer" | "other Consumer = Producer"

lemma other_role: "x \<noteq> t \<Longrightarrow> x = other t"
  by (cases x; cases t) simp_all

fun cursor_of :: "role \<Rightarrow> atomic" where
  "cursor_of Producer = Write_cursor" | "cursor_of Consumer = Read_cursor"

text \<open>The bytes of an access lie in the slot of an event.\<close>

definition in_slot :: "nat \<Rightarrow> nat \<Rightarrow> nat \<Rightarrow> nat \<times> nat \<Rightarrow> bool" where
  "in_slot n st p b \<longleftrightarrow> slot_at n st p \<le> fst b \<and> fst b + snd b \<le> slot_at n st p + st"

lemma overlapping_slots:
  assumes "in_slot n st p a" and "in_slot n st q b" and "overlap a b"
  shows "p mod n = q mod n"
  using assms slots_apart [of p n q st] by (auto simp: in_slot_def overlap_def)

text \<open>The accesses of a thread to slots, all before it stored its cursor behind them.\<close>

definition slot_access :: "role \<Rightarrow> nat \<Rightarrow> nat \<Rightarrow> nat \<Rightarrow> nat \<Rightarrow> execution \<Rightarrow> nat \<Rightarrow> nat \<times> nat \<Rightarrow> bool" where
  "slot_access t n st pos bound h i b \<longleftrightarrow> (\<exists>p \<le> pos. p < bound \<and> in_slot n st p b
     \<and> (\<forall>k < length h. \<forall>v > p. h ! k = (t, Release_store (cursor_of t) v) \<longrightarrow> i < k))"

definition accesses_ok :: "role \<Rightarrow> nat \<Rightarrow> nat \<Rightarrow> nat \<Rightarrow> nat \<Rightarrow> execution \<Rightarrow> bool" where
  "accesses_ok t n st pos bound h \<longleftrightarrow> (\<forall>i < length h. \<forall>b. 0 < i \<longrightarrow> fst (h ! i) = t \<longrightarrow>
     plain_bytes (snd (h ! i)) = Some b \<longrightarrow>
     fst b + snd b \<le> 192 \<and> \<not> is_write (snd (h ! i)) \<or> slot_access t n st pos bound h i b)"

text \<open>The cursor of a thread takes the values up to its position, one after the other.\<close>

definition stores_ok :: "role \<Rightarrow> nat \<Rightarrow> execution \<Rightarrow> bool" where
  "stores_ok t pos h \<longleftrightarrow>
     (\<forall>v. 0 < v \<and> v \<le> pos \<longrightarrow> (t, Release_store (cursor_of t) v) \<in> set h)
     \<and> (\<forall>u v. (u, Release_store (cursor_of t) v) \<in> set h \<longrightarrow> u = t \<and> v \<le> pos)"

text \<open>What a thread saw of the other cursor, it read from a store.\<close>

definition has_seen :: "role \<Rightarrow> execution \<Rightarrow> nat \<Rightarrow> bool" where
  "has_seen t h x \<longleftrightarrow> x = 0 \<or> (\<exists>a < length h. h ! a = (t, Acquire_load (cursor_of (other t)) x)
     \<and> (\<exists>b < a. first_store h b (cursor_of (other t)) x))"

definition made_ok :: "role \<Rightarrow> execution \<Rightarrow> bool" where
  "made_ok maker h \<longleftrightarrow> 0 < length h \<and> fst (h ! 0) = maker \<and> plain_bytes (snd (h ! 0)) \<noteq> None
     \<and> (\<forall>k < length h. \<forall>t v. h ! k = (t, Acquire_load State_word v) \<longrightarrow>
          (maker, Release_store State_word v) \<in> set (take k h))
     \<and> (\<forall>t v. (t, Release_store State_word v) \<in> set h \<longrightarrow> t = maker)
     \<and> (\<forall>j < length h. fst (h ! j) = maker \<or> (\<exists>k \<le> j. \<exists>v. h ! k = (fst (h ! j), Acquire_load State_word v)))"

definition bound :: "nat \<Rightarrow> (role \<Rightarrow> nat) \<Rightarrow> role \<Rightarrow> nat" where
  "bound n pos t = (case t of Producer \<Rightarrow> pos Consumer + n | Consumer \<Rightarrow> pos Producer)"

text \<open>The whole invariant, with the positions of the cursors and what either thread saw of the other's.\<close>

definition execution_ok :: "role \<Rightarrow> nat \<Rightarrow> nat \<Rightarrow> execution \<Rightarrow> (role \<Rightarrow> nat) \<Rightarrow> (role \<Rightarrow> nat) \<Rightarrow> bool" where
  "execution_ok maker n st h pos seen \<longleftrightarrow> made_ok maker h \<and> race_free h
     \<and> (\<forall>t. accesses_ok t n st (pos t) (bound n pos t) h \<and> stores_ok t (pos t) h \<and> has_seen t h (seen t))"

lemma execution_okD:
  assumes "execution_ok maker n st h pos seen"
  shows "made_ok maker h" "race_free h" "accesses_ok t n st (pos t) (bound n pos t) h" "stores_ok t (pos t) h"
    "has_seen t h (seen t)"
  using assms by (simp_all add: execution_ok_def)

text \<open>A thread accesses its slot only when it has seen the other one behind it.\<close>

definition may_access :: "nat \<Rightarrow> (role \<Rightarrow> nat) \<Rightarrow> (role \<Rightarrow> nat) \<Rightarrow> role \<Rightarrow> bool" where
  "may_access n pos seen t \<longleftrightarrow> pos t < bound n pos t \<and>
     (case t of Producer \<Rightarrow> pos Producer < seen Producer + n | Consumer \<Rightarrow> pos Consumer < seen Consumer)"

lemma other_done:
  assumes "may_access n pos seen t" and "q < bound n pos (other t)" and "q mod n = pos t mod n"
  shows "q < seen t"
proof (cases t)
  case Producer
  then have "\<not> pos Producer < q + n"
    using assms distinct_slots [of q "pos Producer" n] by (auto simp: bound_def)
  then show ?thesis using assms(1) Producer by (simp add: may_access_def)
next
  case Consumer
  then have "\<not> pos Consumer < q"
    using assms distinct_slots [of "pos Consumer" q n] by (auto simp: bound_def)
  then show ?thesis using assms(1) Consumer by (simp add: may_access_def)
qed

section \<open>Another action\<close>

lemmas snoc_simps = All_less_Suc Ex_less_Suc nth_append

lemma slot_access_snoc:
  assumes "slot_access t n st p b h i c" and "i < length h" and "p \<le> p'" "b \<le> b'"
  shows "slot_access t n st p' b' (h @ [x]) i c"
proof -
  obtain q where "q \<le> p" "q < b" "in_slot n st q c"
    "\<forall>k < length h. \<forall>v > q. h ! k = (t, Release_store (cursor_of t) v) \<longrightarrow> i < k"
    using assms(1) by (auto simp: slot_access_def)
  then show ?thesis
    unfolding slot_access_def using assms(2-4) by (intro exI [of _ q]) (auto simp: snoc_simps)
qed

lemma stored_value:
  "stores_ok t p h \<Longrightarrow> k < length h \<Longrightarrow> h ! k = (u, Release_store (cursor_of t) v) \<Longrightarrow> u = t \<and> v \<le> p"
  unfolding stores_ok_def by (metis nth_mem)

lemma accesses_snoc:
  assumes "accesses_ok t n st p b h" and "p \<le> p'" "b \<le> b'"
    and "\<And>c. u = t \<Longrightarrow> plain_bytes a = Some c \<Longrightarrow> fst c + snd c \<le> 192 \<and> \<not> is_write a
      \<or> stores_ok t p h \<and> p < b \<and> in_slot n st p c"
  shows "accesses_ok t n st p' b' (h @ [(u, a)])"
  unfolding accesses_ok_def
proof (intro allI impI)
  fix i c
  assume i: "i < length (h @ [(u, a)])" "0 < i" "fst ((h @ [(u, a)]) ! i) = t" "plain_bytes (snd ((h @ [(u, a)]) ! i)) = Some c"
  let ?goal = "fst c + snd c \<le> 192 \<and> \<not> is_write (snd ((h @ [(u, a)]) ! i)) \<or> slot_access t n st p' b' (h @ [(u, a)]) i c"
  show ?goal
  proof (cases "i < length h")
    case True
    then have same: "(h @ [(u, a)]) ! i = h ! i" by (simp add: nth_append)
    then have "fst c + snd c \<le> 192 \<and> \<not> is_write (snd (h ! i)) \<or> slot_access t n st p b h i c"
      using assms(1) i(2-4) True unfolding accesses_ok_def by metis
    then show ?thesis using slot_access_snoc [OF _ True assms(2,3)] unfolding same by blast
  next
    case False
    then have new: "i = length h" "u = t" "plain_bytes a = Some c" using i by (auto simp: nth_append)
    have "slot_access t n st p' b' (h @ [(u, a)]) i c" if "stores_ok t p h" "p < b" "in_slot n st p c"
      unfolding slot_access_def
      by (rule exI [of _ p])
        (use that assms(2,3) new in \<open>auto simp: nth_append less_Suc_eq dest: stored_value [OF that(1)]\<close>)
    then show ?thesis using assms(4) [OF new(2,3)] new(1) by auto
  qed
qed

lemma stores_snoc:
  assumes "stores_ok t p h"
  shows "(\<And>v. a \<noteq> Release_store (cursor_of t) v) \<Longrightarrow> stores_ok t p (h @ [(u, a)])"
    and "stores_ok t (Suc p) (h @ [(t, Release_store (cursor_of t) (Suc p))])"
proof -
  have s: "(t, Release_store (cursor_of t) v) \<in> set h" if "0 < v" "v \<le> p" for v
    using assms that by (simp add: stores_ok_def)
  have b: "w = t \<and> v \<le> p" if "(w, Release_store (cursor_of t) v) \<in> set h" for w v
    using assms that by (simp add: stores_ok_def)
  show "stores_ok t p (h @ [(u, a)])" if "\<And>v. a \<noteq> Release_store (cursor_of t) v"
    unfolding stores_ok_def using s b that by simp metis
  show "stores_ok t (Suc p) (h @ [(t, Release_store (cursor_of t) (Suc p))])"
    unfolding stores_ok_def le_Suc_eq using s b by (simp add: le_Suc_eq) blast
qed

lemma first_store_snoc: "first_store h b loc v \<Longrightarrow> b < length h \<Longrightarrow> first_store (h @ [x]) b loc v"
  by (auto simp: first_store_def nth_append)

lemma has_seen_snoc:
  assumes "has_seen t h x"
  shows "has_seen t (h @ [y]) x"
proof (cases "x = 0")
  case False
  then obtain a b where "a < length h" "h ! a = (t, Acquire_load (cursor_of (other t)) x)" "b < a"
    "first_store h b (cursor_of (other t)) x" using assms by (auto simp: has_seen_def)
  then show ?thesis
    unfolding has_seen_def
    by (intro disjI2 exI [of _ a] conjI exI [of _ b]) (simp_all add: nth_append first_store_snoc)
qed (simp add: has_seen_def)

lemma has_seen_now:
  assumes "stores_ok (other t) p h" and "v \<le> p"
  shows "has_seen t (h @ [(t, Acquire_load (cursor_of (other t)) v)]) v"
proof (cases "v = 0")
  case False
  then obtain k where "k < length h" "h ! k = (other t, Release_store (cursor_of (other t)) v)"
    using assms by (auto simp: stores_ok_def in_set_conv_nth)
  then obtain b where "b < length h" "first_store h b (cursor_of (other t)) v"
    using earlier_first_store [of k "length h" h] by auto
  then show ?thesis
    unfolding has_seen_def by (intro disjI2 exI [of _ "length h"]) (auto intro: first_store_snoc)
qed (simp add: has_seen_def)

lemma made_snoc:
  assumes "made_ok maker h" and "has_attached maker h t \<or> (\<exists>v. a = Acquire_load State_word v)"
    and "\<And>v. a = Acquire_load State_word v \<Longrightarrow> (maker, Release_store State_word v) \<in> set h"
    and "\<And>v. a = Release_store State_word v \<Longrightarrow> t = maker"
  shows "made_ok maker (h @ [(t, a)])"
  unfolding made_ok_def
proof (intro conjI allI impI)
  let ?h = "h @ [(t, a)]"
  note m = assms(1) [unfolded made_ok_def]
  show "0 < length ?h" by simp
  show "fst (?h ! 0) = maker" "plain_bytes (snd (?h ! 0)) \<noteq> None" using m by (simp_all add: nth_append)
  show "t' = maker" if "(t', Release_store State_word v) \<in> set ?h" for t' v using that m assms(4) by auto
  show "(maker, Release_store State_word v) \<in> set (take k ?h)"
    if "k < length ?h" "?h ! k = (t', Acquire_load State_word v)" for k t' v
    using that m assms(3) by (cases "k < length h") (auto simp: nth_append less_Suc_eq)
  show "fst (?h ! j) = maker \<or> (\<exists>k \<le> j. \<exists>v. ?h ! k = (fst (?h ! j), Acquire_load State_word v))"
    if "j < length ?h" for j
  proof (cases "j < length h")
    case True
    then have "?h ! k = h ! k" if "k \<le> j" for k using that by (simp add: nth_append)
    then show ?thesis using m True by (metis order_refl)
  next
    case False
    then have j: "j = length h" "?h ! j = (t, a)" using that by (simp_all add: nth_append)
    show ?thesis
      using assms(2)
    proof
      assume "has_attached maker h t"
      then consider "t = maker" | k v where "k < length h" "h ! k = (t, Acquire_load State_word v)"
        by (auto simp: has_attached_def)
      then show ?thesis
      proof cases
        case 2
        then show ?thesis using j by (intro disjI2 exI [of _ k]) (simp add: nth_append)
      qed (simp add: j)
    qed (use j in auto)
  qed
qed

section \<open>Accesses are ordered\<close>

text \<open>The construction of the ring happens before everything that others do.\<close>

lemma construction_first:
  assumes "made_ok maker h" and "0 < j" "j < length h"
  shows "happens_before h 0 j"
proof -
  note m = assms(1) [unfolded made_ok_def]
  consider "fst (h ! j) = maker" | k v where "k \<le> j" "h ! k = (fst (h ! j), Acquire_load State_word v)" "fst (h ! j) \<noteq> maker"
    using m assms(3) by blast
  then show ?thesis
  proof cases
    case 1
    then show ?thesis using m assms(2,3) by (intro program_order) auto
  next
    case 2
    have "(maker, Release_store State_word v) \<in> set (take k h)" using m 2 assms(3) by auto
    then obtain b' where b': "b' < k" "h ! b' = (maker, Release_store State_word v)"
      using 2(1) assms(3) by (auto simp: in_set_conv_nth)
    then obtain b where b: "b < k" "first_store h b State_word v"
      using earlier_first_store [of b' k h State_word v] by auto
    have "h ! b = (fst (h ! b), Release_store State_word v)" using b(2) by (simp add: first_store_def prod_eq_iff)
    then have "fst (h ! b) = maker"
      using m b(1) 2(1) assms(3) nth_mem [of b h] by (metis less_trans order_le_less_trans)
    moreover have "0 < b" using b(2) m by (cases b) (auto simp: first_store_def)
    ultimately have "happens_before h 0 b" using m b(1) 2(1) assms(3) by (intro program_order) auto
    moreover have "happens_before h b k" using b 2 assms(3) by (intro synchronizes [OF _ _ b(2)]) auto
    moreover have "k = j \<or> happens_before h k j" using 2 assms(3) by (cases "k = j") (auto intro: program_order)
    ultimately show ?thesis by (blast intro: then_before)
  qed
qed

text \<open>An access to the slot at hand comes behind every access of the other thread to its bytes.\<close>

lemma access_ordered:
  assumes ok: "execution_ok maker n st h pos seen" and made: "made_ok maker (h @ [(t, a)])"
    and may: "may_access n pos seen t" and slot: "plain_bytes a = Some c" "in_slot n st (pos t) c"
    and i: "i < length h" "conflict (h ! i) (t, a)"
  shows "happens_before (h @ [(t, a)]) i (length h)"
proof (cases "i = 0")
  case True
  then show ?thesis using construction_first [OF made, of "length h"] i(1) by auto
next
  case False
  obtain d where d: "plain_bytes (snd (h ! i)) = Some d" "overlap d c" "fst (h ! i) = other t"
    using i(2) slot(1) by (auto elim!: conflictE dest: other_role)
  have "accesses_ok (other t) n st (pos (other t)) (bound n pos (other t)) h"
    using ok by (simp add: execution_ok_def)
  moreover have "\<not> fst d + snd d \<le> 192"
    using d(2) slot(2) slot_at_ge [of n st "pos t"] by (auto simp: overlap_def in_slot_def)
  ultimately have "slot_access (other t) n st (pos (other t)) (bound n pos (other t)) h i d"
    using d(1,3) i(1) False unfolding accesses_ok_def by blast
  then obtain q where q: "q < bound n pos (other t)" "in_slot n st q d"
    "\<And>k v. k < length h \<Longrightarrow> q < v \<Longrightarrow> h ! k = (other t, Release_store (cursor_of (other t)) v) \<Longrightarrow> i < k"
    by (auto simp: slot_access_def)
  have "q < seen t" using other_done [OF may q(1)] overlapping_slots [OF q(2) slot(2) d(2)] by simp
  then obtain a' b where s: "a' < length h" "h ! a' = (t, Acquire_load (cursor_of (other t)) (seen t))" "b < a'"
    "first_store h b (cursor_of (other t)) (seen t)"
    using execution_okD(5) [OF ok, of t] by (auto simp: has_seen_def)
  have hb: "h ! b = (fst (h ! b), Release_store (cursor_of (other t)) (seen t))"
    using s(4) by (simp add: first_store_def prod_eq_iff)
  have "stores_ok (other t) (pos (other t)) h" using ok by (simp add: execution_ok_def)
  from stored_value [OF this _ hb] have "fst (h ! b) = other t" using s(1,3) by simp
  then have b: "h ! b = (other t, Release_store (cursor_of (other t)) (seen t))" using hb by simp
  have "i < b" using q(3) [OF _ \<open>q < seen t\<close> b] s(1,3) by simp
  then show ?thesis
    using s b d(3) i(1)
    by (intro passed_on [of i b a' _ _ "cursor_of (other t)" "seen t"]) (simp_all add: nth_append first_store_snoc)
qed

section \<open>The invariant is kept\<close>

lemma execution_same:
  assumes ok: "execution_ok maker n st h pos seen" and made: "made_ok maker (h @ [(t, a)])"
    and race: "race_free (h @ [(t, a)])" and store: "\<And>u v. a \<noteq> Release_store (cursor_of u) v"
    and plain: "\<And>c. plain_bytes a = Some c \<Longrightarrow> fst c + snd c \<le> 192 \<and> \<not> is_write a
      \<or> pos t < bound n pos t \<and> in_slot n st (pos t) c"
  shows "execution_ok maker n st (h @ [(t, a)]) pos seen"
proof -
  have "accesses_ok u n st (pos u) (bound n pos u) (h @ [(t, a)])" for u
    by (rule accesses_snoc [OF execution_okD(3) [OF ok] order_refl order_refl])
      (use plain execution_okD(4) [OF ok] in blast)
  then show ?thesis
    using made race stores_snoc(1) [OF execution_okD(4) [OF ok] store] has_seen_snoc [OF execution_okD(5) [OF ok]]
    by (simp add: execution_ok_def)
qed

lemma execution_quiet:
  assumes ok: "execution_ok maker n st h pos seen" and made: "made_ok maker (h @ [(t, a)])"
    and "plain_bytes a = None" and "\<And>u v. a \<noteq> Release_store (cursor_of u) v"
  shows "execution_ok maker n st (h @ [(t, a)]) pos seen"
  by (rule execution_same [OF ok made race_free_no_access [OF execution_okD(2) [OF ok] assms(3)] assms(4)])
    (simp add: assms(3))

lemma execution_header:
  assumes ok: "execution_ok maker n st h pos seen" and made: "made_ok maker (h @ [(t, Read_bytes off k)])"
    and "off + k \<le> 192"
  shows "execution_ok maker n st (h @ [(t, Read_bytes off k)]) pos seen"
proof -
  have "happens_before (h @ [(t, Read_bytes off k)]) i (length h)"
    if i: "i < length h" "conflict (h ! i) (t, Read_bytes off k)" for i
  proof (cases "i = 0")
    case True
    then show ?thesis using construction_first [OF made, of "length h"] i(1) by auto
  next
    case False
    obtain d where d: "plain_bytes (snd (h ! i)) = Some d" "overlap d (off, k)" "is_write (snd (h ! i))"
      using i(2) by (auto elim!: conflictE)
    then have "slot_access (fst (h ! i)) n st (pos (fst (h ! i))) (bound n pos (fst (h ! i))) h i d"
      using execution_okD(3) [OF ok, of "fst (h ! i)"] i(1) False unfolding accesses_ok_def by blast
    then obtain q where "slot_at n st q \<le> fst d" by (auto simp: slot_access_def in_slot_def)
    then show ?thesis using d(2) assms(3) slot_at_ge [of n st q] by (simp add: overlap_def)
  qed
  then have "race_free (h @ [(t, Read_bytes off k)])" by (rule race_free_snoc [OF execution_okD(2) [OF ok]])
  then show ?thesis by (rule execution_same [OF ok made]) (use assms(3) in auto)
qed

lemma execution_access:
  assumes ok: "execution_ok maker n st h pos seen" and made: "made_ok maker (h @ [(t, a)])"
    and may: "may_access n pos seen t" and slot: "plain_bytes a = Some c" "in_slot n st (pos t) c"
  shows "execution_ok maker n st (h @ [(t, a)]) pos seen"
proof -
  have "race_free (h @ [(t, a)])"
    by (rule race_free_snoc [OF execution_okD(2) [OF ok] access_ordered [OF ok made may slot]])
  then show ?thesis by (rule execution_same [OF ok made]) (use may slot in \<open>auto simp: may_access_def\<close>)
qed

lemma execution_saw:
  assumes ok: "execution_ok maker n st h pos seen"
    and made: "made_ok maker (h @ [(t, Acquire_load (cursor_of (other t)) v)])" and "v \<le> pos (other t)"
  shows "execution_ok maker n st (h @ [(t, Acquire_load (cursor_of (other t)) v)]) pos (seen(t := v))"
proof -
  have "execution_ok maker n st (h @ [(t, Acquire_load (cursor_of (other t)) v)]) pos seen"
    by (rule execution_quiet [OF ok made]) simp_all
  then show ?thesis
    using has_seen_now [OF execution_okD(4) [OF ok] assms(3)] by (simp add: execution_ok_def)
qed

lemma execution_store:
  assumes ok: "execution_ok maker n st h pos seen"
    and made: "made_ok maker (h @ [(t, Release_store (cursor_of t) (Suc (pos t)))])"
  shows "execution_ok maker n st (h @ [(t, Release_store (cursor_of t) (Suc (pos t)))]) (pos(t := Suc (pos t))) seen"
proof -
  let ?h = "h @ [(t, Release_store (cursor_of t) (Suc (pos t)))]" and ?pos = "pos(t := Suc (pos t))"
  have "bound n pos u \<le> bound n ?pos u" for u by (cases u) (auto simp: bound_def)
  then have "accesses_ok u n st (?pos u) (bound n ?pos u) ?h" for u
    by (intro accesses_snoc [OF execution_okD(3) [OF ok]]) auto
  moreover have "stores_ok u (?pos u) ?h" for u
  proof (cases "u = t")
    case False
    then have "cursor_of u \<noteq> cursor_of t" by (cases u; cases t) auto
    then show ?thesis using False stores_snoc(1) [OF execution_okD(4) [OF ok]] by auto
  qed (simp add: stores_snoc(2) [OF execution_okD(4) [OF ok]])
  ultimately show ?thesis
    using made race_free_no_access [OF execution_okD(2) [OF ok], of "Release_store (cursor_of t) (Suc (pos t))" t]
      has_seen_snoc [OF execution_okD(5) [OF ok]]
    by (simp add: execution_ok_def)
qed

section \<open>The steps of the ring\<close>

definition pos_of :: "ring_threads \<Rightarrow> role \<Rightarrow> nat" where
  "pos_of w t = (case t of Producer \<Rightarrow> unat (producer_position (thr_memory w))
     | Consumer \<Rightarrow> unat (consumer_position (thr_memory w)))"

definition seen_of :: "ring_threads \<Rightarrow> role \<Rightarrow> nat" where
  "seen_of w t = (case t of Producer \<Rightarrow> unat (cached_read_position (thr_producer w))
     | Consumer \<Rightarrow> unat (cached_write_position (thr_consumer w)))"

lemma at_role [simp]:
  "pos_of w Producer = unat (producer_position (thr_memory w))"
  "pos_of w Consumer = unat (consumer_position (thr_memory w))"
  "seen_of w Producer = unat (cached_read_position (thr_producer w))"
  "seen_of w Consumer = unat (cached_write_position (thr_consumer w))"
  by (simp_all add: pos_of_def seen_of_def)

lemma role_ext: "f Producer = g Producer \<Longrightarrow> f Consumer = g Consumer \<Longrightarrow> f = g"
  by (rule ext) (metis role.exhaust)

lemma pos_step:
  assumes "advances [l] (thr_memory w) (thr_memory w')"
  shows "l = Silent \<Longrightarrow> pos_of w' = pos_of w" "l = Closing \<Longrightarrow> pos_of w' = pos_of w"
    and "l = Enqueued e \<Longrightarrow> pos_of w' = (pos_of w)(Producer := Suc (pos_of w Producer))"
    and "l = Dequeued e \<Longrightarrow> pos_of w' = (pos_of w)(Consumer := Suc (pos_of w Consumer))"
  using assms by (auto simp: advances_def intro!: role_ext)

lemma unmoved [simp]:
  "pos_of (w\<lparr>thr_publishing := pc\<rparr>) = pos_of w" "pos_of (w\<lparr>thr_acquiring := qc\<rparr>) = pos_of w"
  "pos_of (w\<lparr>thr_producer := c\<rparr>) = pos_of w" "pos_of (w\<lparr>thr_consumer := c\<rparr>) = pos_of w"
  "pos_of (w\<lparr>thr_view := v\<rparr>) = pos_of w"
  "seen_of (w\<lparr>thr_publishing := pc\<rparr>) = seen_of w" "seen_of (w\<lparr>thr_acquiring := qc\<rparr>) = seen_of w"
  "seen_of (w\<lparr>thr_memory := m\<rparr>) = seen_of w" "seen_of (w\<lparr>thr_view := v\<rparr>) = seen_of w"
  by (auto intro!: role_ext)

definition run_ok :: "role \<Rightarrow> nat \<Rightarrow> nat \<Rightarrow> execution \<Rightarrow> ring_threads \<Rightarrow> bool" where
  "run_ok maker n st h w \<longleftrightarrow> execution_ok maker n st h (pos_of w) (seen_of w)
     \<and> (maker, release_state Ready) \<in> set h
     \<and> (maker, Release_store State_word (unat (pre_state (thr_memory w)))) \<in> set h"

lemma made_further:
  assumes "run_ok maker n st h w" and "has_attached maker h t"
    and "\<And>v. a = Acquire_load State_word v \<Longrightarrow> v = unat (pre_state (thr_memory w)) \<or> v = unat (ring_state_value Ready)"
    and "\<And>v. a \<noteq> Release_store State_word v"
  shows "made_ok maker (h @ [(t, a)])"
  using assms(1) by (intro made_snoc) (use assms in \<open>auto simp: run_ok_def execution_ok_def release_state_def\<close>)

lemma run_ok_snoc:
  "run_ok maker n st h w \<Longrightarrow> execution_ok maker n st (h @ [x]) (pos_of w') (seen_of w') \<Longrightarrow>
    pre_state (thr_memory w') = pre_state (thr_memory w) \<Longrightarrow> run_ok maker n st (h @ [x]) w'"
  by (simp add: run_ok_def)

lemma producer_accesses:
  assumes "may_publish n st cap (thr_memory w) (thr_producer w) e p"
  shows "may_access n (pos_of w) (seen_of w) Producer"
    and "k \<le> length (payload e) + 32 \<Longrightarrow> off + len \<le> k \<Longrightarrow>
      in_slot n st (pos_of w Producer) (slot_of (thr_producer w) p + off, len)"
    and "unat (p + 1) = Suc (pos_of w Producer)"
proof -
  have pub: "publishable n st cap (thr_memory w) (thr_producer w) e" "p = producer_position (thr_memory w)"
    "unat p < unat (cached_read_position (thr_producer w)) + n"
    using assms by (auto simp: may_publish_def)
  note d = publishableD [OF pub(1)]
  show "may_access n (pos_of w) (seen_of w) Producer"
    using pub(1,3) unfolding pub(2) by (simp add: may_access_def bound_def publishable_def)
  show "in_slot n st (pos_of w Producer) (slot_of (thr_producer w) p + off, len)"
    if "k \<le> length (payload e) + 32" "off + len \<le> k"
    using that d(7,10) by (simp add: in_slot_def pub(2) next_slot_def)
  show "unat (p + 1) = Suc (pos_of w Producer)"
    using pub(1) unat_plus_1 [of p] by (simp add: publishable_def pub(2))
qed

lemma run_ok_producer:
  assumes step: "producer_step w l w'" and ok: "threads_ok n st cap w" and run: "run_ok maker n st h w"
    and att: "has_attached maker h Producer"
  shows "run_ok maker n st (h @ [(Producer, producer_action w w')]) w'"
proof -
  note adv = advances_producer [OF step ok] and kn = threads_okD(11) [OF ok]
  have ex: "execution_ok maker n st h (pos_of w) (seen_of w)" using run by (simp add: run_ok_def)
  have kept: "pre_state (thr_memory w') = pre_state (thr_memory w)"
    using adv step by (auto simp: advances_def elim: producer_step.cases)
  have made: "made_ok maker (h @ [(Producer, producer_action w w')])"
    by (rule made_further [OF run att]) (auto simp: producer_action_def split: producer_pc.splits if_splits)
  have quiet: "execution_ok maker n st (h @ [(Producer, producer_action w w')]) (pos_of w') (seen_of w')"
    if "plain_bytes (producer_action w w') = None" "\<And>u v. producer_action w w' \<noteq> Release_store (cursor_of u) v"
      "pos_of w' = pos_of w" "seen_of w' = seen_of w"
    using execution_quiet [OF ex made that(1,2)] that(3,4) by simp
  have "execution_ok maker n st (h @ [(Producer, producer_action w w')]) (pos_of w') (seen_of w')"
    using step
  proof cases
    case (load_read_cursor e p seen r)
    have a: "producer_action w w' = Acquire_load (cursor_of (other Producer)) (unat seen)"
      by (simp add: producer_action_def load_read_cursor(1-3,6))
    have "pos_of w' = pos_of w" "seen_of w' = (seen_of w)(Producer := unat seen)"
      by (auto simp: load_read_cursor(2,6) intro!: role_ext)
    then show ?thesis
      using execution_saw [OF ex made [unfolded a]] load_read_cursor(5) by (simp add: a word_le_nat_alt)
  next
    case (store_header e p)
    then have may: "may_publish n st cap (thr_memory w) (thr_producer w) e p"
      using kn by (simp add: producer_knows_def)
    have a: "plain_bytes (producer_action w w') = Some (slot_of (thr_producer w) p + 0, 24)"
      by (simp add: producer_action_def store_header(3))
    have "seen_of w' = seen_of w" by (simp add: store_header(2))
    then show ?thesis
      using execution_access [OF ex made producer_accesses(1) [OF may] a producer_accesses(2) [OF may, of 32]]
        pos_step(1) [OF adv store_header(1)] by simp
  next
    case (copy_payload e p k)
    then have may: "may_publish n st cap (thr_memory w) (thr_producer w) e p"
      using kn by (simp add: producer_knows_def)
    have a: "plain_bytes (producer_action w w') = Some (slot_of (thr_producer w) p + (32 + k), 1)"
      by (simp add: producer_action_def copy_payload(3,4) ring_constants)
    have "seen_of w' = seen_of w" by (simp add: copy_payload(2))
    then show ?thesis
      using execution_access [OF ex made producer_accesses(1) [OF may] a producer_accesses(2) [OF may, of "33 + k"]]
        pos_step(1) [OF adv copy_payload(1)] copy_payload(4) by simp
  next
    case (store_position e p k)
    then have may: "may_publish n st cap (thr_memory w) (thr_producer w) e p"
      using kn by (simp add: producer_knows_def)
    have a: "producer_action w w' = Release_store (cursor_of Producer) (Suc (pos_of w Producer))"
      using producer_accesses(3) [OF may] by (simp add: producer_action_def store_position(3,4))
    have "seen_of w' = seen_of w" by (simp add: store_position(2))
    then show ?thesis
      using execution_store [OF ex made [unfolded a]] pos_step(3) [OF adv store_position(1)] by (simp add: a)
  qed (rule quiet; simp add: producer_action_def)+
  then show ?thesis by (rule run_ok_snoc [OF run _ kept])
qed

lemma reading_consumer:
  assumes ok: "threads_ok n st cap w"
    and "consumer_position (thr_memory w) < cached_write_position (thr_consumer w)"
  shows "may_access n (pos_of w) (seen_of w) Consumer"
  using assms threads_okD(6) [OF ok]
  by (auto simp: may_access_def bound_def consumer_ok_def word_less_nat_alt)

lemma header_bytes:
  assumes ok: "threads_ok n st cap w" and p: "p = consumer_position (thr_memory w)"
    and "p < cached_write_position (thr_consumer w)"
  shows "may_access n (pos_of w) (seen_of w) Consumer"
    and "in_slot n st (pos_of w Consumer) (slot_of (thr_consumer w) p, 32)"
  using reading_consumer [OF ok] assms(3) geometryD(3) [OF threads_okD(4) [OF ok]]
    slot_of_eq [OF threads_okD(4,3) [OF ok]]
  by (simp_all add: in_slot_def p)

lemma released_value:
  assumes ok: "threads_ok n st cap w" and "acquired (thr_consumer w)"
  shows "unat (acquired_position (thr_consumer w) + 1) = Suc (pos_of w Consumer)"
proof -
  have c: "acquired_position (thr_consumer w) = consumer_position (thr_memory w)"
    "unat (consumer_position (thr_memory w)) < unat (producer_position (thr_memory w))"
    using threads_okD(6) [OF ok] assms(2) by (simp_all add: consumer_ok_def)
  then have "consumer_position (thr_memory w) \<noteq> u64_max"
    using unsigned_less [of "producer_position (thr_memory w)", where ?'a = nat] by auto
  then show ?thesis using unat_plus_1 [of "consumer_position (thr_memory w)"] by (simp add: c(1))
qed

lemma held_bytes:
  assumes ok: "threads_ok n st cap w" and "thr_view w = Some v" and "k < snd (payload v)"
  shows "may_access n (pos_of w) (seen_of w) Consumer"
    and "in_slot n st (pos_of w Consumer) (fst (payload v) + k, 1)"
proof -
  let ?m = "thr_memory w"
  have v: "acquired (thr_consumer w)" "v = view_of ?m (slot_at n st (pos_of w Consumer))"
    using ok assms(2) by (auto simp: threads_ok_def first_slot_def)
  show "may_access n (pos_of w) (seen_of w) Consumer"
    by (rule reading_consumer [OF ok]) (use ok v(1) in \<open>simp add: threads_ok_def cursors_follow_def\<close>)
  have "slot_valid cap ?m (slot_at n st (pos_of w Consumer))"
    using threads_okD(1) [OF ok] by (simp add: ring_ok_def)
  then show "in_slot n st (pos_of w Consumer) (fst (payload v) + k, 1)"
    using assms(3) geometryD(3) [OF threads_okD(4) [OF ok]]
    by (auto simp: v(2) view_of_def in_slot_def slot_valid_def ring_constants simp del: at_role)
qed

lemma run_ok_consumer:
  assumes step: "consumer_step w l w'" and ok: "threads_ok n st cap w" and run: "run_ok maker n st h w"
    and att: "has_attached maker h Consumer"
  shows "run_ok maker n st (h @ [(Consumer, consumer_action w w')]) w'"
proof -
  note adv = advances_consumer [OF step ok] and kn = threads_okD(12) [OF ok]
  have ex: "execution_ok maker n st h (pos_of w) (seen_of w)" using run by (simp add: run_ok_def)
  have kept: "pre_state (thr_memory w') = pre_state (thr_memory w)"
    using adv step by (auto simp: advances_def elim: consumer_step.cases)
  have loaded: "loaded = pre_state (thr_memory w) \<or> loaded = ring_state_value Ready"
    if "thr_acquiring w = Load_closure p" "thr_acquiring w' = Load_write_cursor q loaded" for p q loaded
    using step that by cases auto
  have made: "made_ok maker (h @ [(Consumer, consumer_action w w')])"
    by (intro made_further [OF run att])
      (auto simp: consumer_action_def split: consumer_pc.splits if_splits dest: loaded)
  have quiet: "execution_ok maker n st (h @ [(Consumer, consumer_action w w')]) (pos_of w') (seen_of w')"
    if "plain_bytes (consumer_action w w') = None" "\<And>u v. consumer_action w w' \<noteq> Release_store (cursor_of u) v"
      "pos_of w' = pos_of w" "seen_of w' = seen_of w"
    using execution_quiet [OF ex made that(1,2)] that(3,4) by simp
  have "execution_ok maker n st (h @ [(Consumer, consumer_action w w')]) (pos_of w') (seen_of w')"
    using step
  proof cases
    case (load_write_cursor p loaded seen r)
    have a: "consumer_action w w' = Acquire_load (cursor_of (other Consumer)) (unat seen)"
      by (simp add: consumer_action_def load_write_cursor(2,3,7))
    have "pos_of w' = pos_of w" "seen_of w' = (seen_of w)(Consumer := unat seen)"
      by (auto simp: load_write_cursor(2,7) intro!: role_ext)
    then show ?thesis
      using execution_saw [OF ex made [unfolded a]] load_write_cursor(5) by (simp add: a word_le_nat_alt)
  next
    case (read_header p given r)
    have k: "p = consumer_position (thr_memory w)" "p < cached_write_position (thr_consumer w)"
      using kn read_header(3) by (auto simp: consumer_knows_def)
    have same: "pos_of w' = pos_of w" "seen_of w' = seen_of w"
      using read_header(4) by (auto simp: read_header(2) read_slot_def Let_def intro!: role_ext split: if_splits)
    show ?thesis
    proof (cases "consumer_action w w' = Internal")
      case False
      then have a: "plain_bytes (consumer_action w w') = Some (slot_of (thr_consumer w) p, 32)"
        by (auto simp: consumer_action_def read_header(3) ring_constants split: if_splits)
      then show ?thesis
        using execution_access [OF ex made header_bytes(1) [OF ok k] _ header_bytes(2) [OF ok k]] same by simp
    qed (rule quiet; simp add: same)
  next
    case (call_release v m r)
    have held: "acquired (thr_consumer w)" using ok call_release(4) by (simp add: threads_ok_def)
    have a: "consumer_action w w' = Release_store (cursor_of Consumer) (Suc (pos_of w Consumer))"
      by (simp add: consumer_action_def call_release(2-4) released_value [OF ok held])
    have "seen_of w' = seen_of w"
      using call_release(5) by (auto simp: call_release(2) release_def intro!: role_ext split: if_splits)
    then show ?thesis
      using execution_store [OF ex made [unfolded a]] pos_step(4) [OF adv call_release(1)] by (simp add: a)
  qed (rule quiet; auto simp: consumer_action_def)+
  then show ?thesis by (rule run_ok_snoc [OF run _ kept])
qed

lemma run_ok_owner:
  assumes step: "owner_step w l w'" and ok: "threads_ok n st cap w" and run: "run_ok maker n st h w"
  shows "run_ok maker n st (h @ [(maker, release_state RingState.Closed)]) w'"
proof -
  note adv = advances_owner [OF step ok]
  have ex: "execution_ok maker n st h (pos_of w) (seen_of w)" using run by (simp add: run_ok_def)
  have w: "l = Closing" "seen_of w' = seen_of w" "pre_state (thr_memory w') = 3 \<or> pre_state (thr_memory w') = pre_state (thr_memory w)"
    using step adv by (auto simp: advances_def elim: owner_step.cases)
  have "made_ok maker (h @ [(maker, release_state RingState.Closed)])"
    by (rule made_snoc [OF execution_okD(1) [OF ex]]) (auto simp: has_attached_def release_state_def)
  from execution_quiet [OF ex this]
  have "execution_ok maker n st (h @ [(maker, release_state RingState.Closed)]) (pos_of w') (seen_of w')"
    using pos_step(2) [OF adv w(1)] w(2) by (simp add: release_state_def) (metis atomic.distinct cursor_of.simps role.exhaust)
  then show ?thesis using run w(3) by (auto simp: run_ok_def release_state_def)
qed

section \<open>No data races\<close>

lemma execution_trace: "ring_execution maker r h w \<Longrightarrow> \<exists>ls. ring_trace r ls w"
proof (induction rule: ring_execution.induct)
  case made
  show ?case using no_step by blast
next
  case (produce h w l w')
  then show ?case using one_more by_producer by blast
next
  case (consume h w l w')
  then show ?case using one_more by_consumer by blast
next
  case (shut h w l w')
  then show ?case using one_more by_owner by blast
qed

lemma fresh_views:
  assumes "new_threads config r"
  shows "pos_of r = (\<lambda>_. 0)" "seen_of r = (\<lambda>_. 0)"
proof -
  obtain a0 m0 id0 h m a1 a where i: "addressable m0" "initialize_ring a0 m0 config id0 = (Inr h, m)"
    "attach_ring a1 m = Inr a" "r = start_threads m h a \<or> r = start_threads m a h"
    using assms by (auto simp: new_threads_def)
  show "pos_of r = (\<lambda>_. 0)" using new_threads_attachable(4,5) [OF assms] by (auto intro!: role_ext)
  show "seen_of r = (\<lambda>_. 0)"
    using i(4) attach_result [OF i(3)] fresh_positions(3) [OF i(1,2)]
    by (auto simp: start_threads_def make_ring_def intro!: role_ext)
qed

lemma made_run_ok:
  assumes "new_threads config r"
  shows "run_ok maker n st [(maker, Write_bytes 0 (length (thr_memory r))), (maker, release_state Ready)] r"
proof -
  have "pre_state (thr_memory r) = ring_state_value Ready"
    using new_threads_attachable(3) [OF assms] by (simp add: in_state_def)
  then show ?thesis
    by (auto simp: run_ok_def execution_ok_def fresh_views [OF assms] made_ok_def race_free_def accesses_ok_def
        stores_ok_def has_seen_def release_state_def less_Suc_eq nth_Cons' conflict_def)
      (metis atomic.distinct cursor_of.simps role.exhaust)+
qed

lemma execution_run_ok:
  assumes "ring_execution maker r h w" and new: "new_threads config r"
  shows "run_ok maker (unat (cfg_slot_count config)) (ring_stride r) h w"
  using assms(1)
proof (induction rule: ring_execution.induct)
  case made
  show ?case by (rule made_run_ok [OF new])
next
  case (attach_state h w loaded t)
  then have ex: "execution_ok maker (unat (cfg_slot_count config)) (ring_stride r) h (pos_of w) (seen_of w)"
    by (simp add: run_ok_def)
  have "made_ok maker (h @ [(t, Acquire_load State_word (unat loaded))])"
    by (rule made_snoc [OF execution_okD(1) [OF ex]]) (use attach_state in \<open>auto simp: run_ok_def release_state_def\<close>)
  from execution_quiet [OF ex this] show ?case by (intro run_ok_snoc [OF attach_state.IH]) simp_all
next
  case (attach_header h w t off k)
  then have ex: "execution_ok maker (unat (cfg_slot_count config)) (ring_stride r) h (pos_of w) (seen_of w)"
    by (simp add: run_ok_def)
  have "made_ok maker (h @ [(t, Read_bytes off k)])"
    by (rule made_further [OF attach_header.IH attach_header.hyps(2)]) simp_all
  from execution_header [OF ex this] show ?case
    using attach_header.hyps(3) by (intro run_ok_snoc [OF attach_header.IH]) (auto simp: header_reads_def)
next
  case (produce h w l w')
  obtain ls where "ring_trace r ls w" using execution_trace [OF produce.hyps(1)] by blast
  from run_ok_producer [OF produce.hyps(3) new_trace_ok [OF new this] produce.IH produce.hyps(2)] show ?case .
next
  case (consume h w l w')
  obtain ls where "ring_trace r ls w" using execution_trace [OF consume.hyps(1)] by blast
  from run_ok_consumer [OF consume.hyps(3) new_trace_ok [OF new this] consume.IH consume.hyps(2)] show ?case .
next
  case (look h w v k)
  obtain ls where "ring_trace r ls w" using execution_trace [OF look.hyps(1)] by blast
  note b = held_bytes [OF new_trace_ok [OF new this] look.hyps(3,4)]
  have ex: "execution_ok maker (unat (cfg_slot_count config)) (ring_stride r) h (pos_of w) (seen_of w)"
    using look.IH by (simp add: run_ok_def)
  have "made_ok maker (h @ [(Consumer, Read_bytes (fst (payload v) + k) 1)])"
    by (rule made_further [OF look.IH look.hyps(2)]) simp_all
  from execution_access [OF ex this b(1) _ b(2)] show ?case by (intro run_ok_snoc [OF look.IH]) simp_all
next
  case (shut h w l w')
  obtain ls where "ring_trace r ls w" using execution_trace [OF shut.hyps(1)] by blast
  from run_ok_owner [OF shut.hyps(2) new_trace_ok [OF new this] shut.IH] show ?case .
qed

text \<open>
  C13. The ring has no data race in the sense of C++: whichever thread made the ring and however the
  loads and stores of both are interleaved, with acquire loads that may be stale, any two accesses of
  different threads to a common byte, one of which writes and which are not atomic, are ordered by
  happens-before, from the construction of the segment over publications, acquisitions and reads of held
  payloads to the closing. Hence a plain load of a byte can read one store only, the last one before it,
  as Ring_Steps has it. Stores of one value to an atomic come from one thread, so that the store a load
  is taken to read is behind what that thread did before.
\<close>

theorem ring_is_race_free:
  assumes "new_threads config r" and "ring_execution maker r h w"
  shows "race_free h
    \<and> (\<forall>j < length h. \<forall>x. accesses_byte (snd (h ! j)) x \<longrightarrow>
        (\<forall>i. visible_store h x i j \<longleftrightarrow> last_store h x i j))
    \<and> (\<forall>t u loc v. (t, Release_store loc v) \<in> set h \<and> (u, Release_store loc v) \<in> set h \<longrightarrow> t = u)"
proof (intro conjI)
  have ex: "execution_ok maker (unat (cfg_slot_count config)) (ring_stride r) h (pos_of w) (seen_of w)"
    using execution_run_ok [OF assms(2,1)] by (simp add: run_ok_def)
  then show free: "race_free h" by (simp add: execution_ok_def)
  show "\<forall>j < length h. \<forall>x. accesses_byte (snd (h ! j)) x \<longrightarrow> (\<forall>i. visible_store h x i j \<longleftrightarrow> last_store h x i j)"
    using race_free_reads_last [OF free] by blast
  have "t = (case loc of State_word \<Rightarrow> maker | Write_cursor \<Rightarrow> Producer | Read_cursor \<Rightarrow> Consumer)"
    if "(t, Release_store loc v) \<in> set h" for t loc v
    using that execution_okD(1) [OF ex] execution_okD(4) [OF ex, of Producer] execution_okD(4) [OF ex, of Consumer]
    by (cases loc) (auto simp: made_ok_def stores_ok_def)
  then show "\<forall>t u loc v. (t, Release_store loc v) \<in> set h \<and> (u, Release_store loc v) \<in> set h \<longrightarrow> t = u"
    by blast
qed

section \<open>Every run is an execution\<close>

lemma has_attached_further: "has_attached maker h t \<Longrightarrow> has_attached maker (h @ g) t"
  unfolding has_attached_def by (metis length_append nth_append trans_less_add1)

lemma trace_execution:
  assumes "ring_trace w ls w'" and "ring_execution maker r h w" and "\<And>t. has_attached maker h t"
  shows "\<exists>g. ring_execution maker r (h @ g) w'"
  using assms
proof (induction rule: ring_trace.induct)
  case (one_more w ls w' l w'')
  then obtain g where g: "ring_execution maker r (h @ g) w'" by blast
  note att = has_attached_further [OF one_more.prems(2)]
  from one_more.hyps(2) have "\<exists>x. ring_execution maker r ((h @ g) @ [x]) w''"
    by (cases rule: ring_step.cases) (blast intro: produce [OF g att] consume [OF g att] shut [OF g])+
  then show ?case by (metis append_assoc)
qed (metis append_Nil2)

text \<open>A ring that was made and attached, and on which nothing else was done yet.\<close>

lemma attached_execution:
  assumes "new_threads config r"
  shows "\<exists>h. ring_execution maker r h r \<and> (\<forall>t. has_attached maker h t)
    \<and> h ! 0 = (maker, Write_bytes 0 (length (thr_memory r))) \<and> h \<noteq> []"
proof -
  have "ring_state_value Ready = pre_state (thr_memory r) \<or> ring_state_value Ready = ring_state_value Ready" by simp
  from attach_state [OF made this, of maker "other maker"]
  show ?thesis
    by (intro exI conjI allI, assumption)
      (auto simp: has_attached_def less_Suc_eq nth_Cons' dest: other_role)
qed

theorem ring_is_race_free_witness:
  "\<exists>h. ring_execution Producer demo_threads (h @ [(Consumer, Read_bytes 224 1)]) demo_holding
    \<and> conflict ((h @ [(Consumer, Read_bytes 224 1)]) ! 0) (Consumer, Read_bytes 224 1)
    \<and> happens_before (h @ [(Consumer, Read_bytes 224 1)]) 0 (length h)"
proof -
  obtain ls where ls: "ring_trace demo_threads ls demo_given" using demo_acquired(3) by blast
  obtain h where h: "ring_execution Producer demo_threads h demo_threads" "\<And>t. has_attached Producer h t"
    "h ! 0 = (Producer, Write_bytes 0 (length demo_segment))" "h \<noteq> []"
    using attached_execution [OF demo_new, of Producer] by (auto simp: demo_threads_def start_threads_def)
  obtain g where g: "ring_execution Producer demo_threads (h @ g) demo_holding"
    using trace_execution [OF ring_trace.one_more [OF ls demo_returns] h(1,2)] by blast
  let ?h = "(h @ g) @ [(Consumer, Read_bytes 224 1)]"
  have view: "thr_view demo_holding = Some demo_view" "fst (payload demo_view) = 224" "snd (payload demo_view) = 3"
    by (simp_all add: demo_holding_def demo_view_def)
  from look [OF g has_attached_further [OF h(2)] view(1), of 0] have x: "ring_execution Producer demo_threads ?h demo_holding"
    by (simp add: view)
  have "length demo_segment = 320" by code_simp
  then have c: "conflict (?h ! 0) (Consumer, Read_bytes 224 1)"
    using h(3,4) by (simp add: nth_append conflict_def overlap_def)
  have "race_free ?h" using ring_is_race_free [OF demo_new x] ..
  then have "happens_before ?h 0 (length (h @ g))" using c h(4) by (auto simp: race_free_def nth_append)
  then show ?thesis using x c by blast
qed

end
