(* ===== verification/Codec.thy ===== *)
theory Codec
  imports Encoder Decoder
begin

text \<open>
  What the encoder and the decoder promise each other: the two round trips, and that the
  decoder turns down a packet that carries a second event frame.
\<close>

text \<open>
  C12. What the sender encodes the receiver decodes: from the bytes of a successful
  \<open>encode_data\<close> call, \<open>decode_data\<close> returns the same session, packet sequence and event, with
  stream, sequence, timestamp and payload unchanged.
\<close>

theorem decode_encode_roundtrip:
  assumes "addressable (payload e)" and "addressable out"
    and "encode_data e sid seq out = (Inr n, out')"
  shows "decode_data (take (unat n) out') =
    Inr \<lparr>dd_session_id = sid, dd_packet_sequence = seq, dd_event = e\<rparr>"
proof (rule encode_cases [OF assms(1,2), of sid seq])
  assume ok: "encodable sid seq e" "packet_len (length (payload e)) \<le> length out"
    and eq: "encode_data e sid seq out =
      (Inr (word_of_nat (packet_len (length (payload e)))), store_bytes out 0 (packet_of sid seq e))"
  then have "unat n = length (packet_of sid seq e)" "out' = store_bytes out 0 (packet_of sid seq e)"
    using assms(3) unat_packet_len [of "length (payload e)"] by (auto simp: encodable_def)
  with ok(2) have "take (unat n) out' = packet_of sid seq e"
    using take_store_0 [of "packet_of sid seq e" out] by simp
  with decode_packet_of [OF ok(1)] show ?thesis by simp
next
  fix err assume "encode_data e sid seq out = (Inl err, out)"
  with assms(3) show ?thesis by simp
qed

theorem decode_encode_roundtrip_witness:
  "\<exists>n out'. encode_data sample_event 1 2 (replicate 48 0) = (Inr n, out') \<and>
     decode_data (take (unat n) out') =
       Inr \<lparr>dd_session_id = 1, dd_packet_sequence = 2, dd_event = sample_event\<rparr>"
proof -
  have a: "addressable (payload sample_event)" "addressable (replicate 48 0)"
    by (simp_all add: addressable_def sample_event_def)
  have len: "packet_len (length (payload sample_event)) = 48"
    by (simp add: sample_event_def packet_len_def frame_len_def round_up_def)
  have "encodable 1 2 sample_event"
    by (simp add: encodable_def sample_event_def)
  then have "encode_data sample_event 1 2 (replicate 48 0) =
      (Inr 48, store_bytes (replicate 48 0) 0 (packet_of 1 2 sample_event))"
    using encode_stores_packet [of 1 2 sample_event "replicate 48 0"] a len
    by (simp add: encodable_def)
  then show ?thesis using decode_encode_roundtrip [OF a] by blast
qed

text \<open>
  C38. The wire form is canonical: encoding the view that a datagram decodes to, into any buffer
  that is large enough, gives back the datagram byte for byte. A decoded event can therefore be
  sent again as the exact original packet.
\<close>

theorem encode_decode_roundtrip:
  assumes "addressable p" and "decode_data p = Inr d"
    and "length p \<le> length out" and "addressable out"
  shows "\<exists>out'. encode_data (dd_event d) (dd_session_id d) (dd_packet_sequence d) out =
      (Inr (span_size p), out') \<and> take (length p) out' = p"
proof -
  note d = decoded_packet_of [OF assms(1,2)]
  have len: "length p = packet_len (length (payload (dd_event d)))"
    using arg_cong [OF d(2), of length] by simp
  have "encode_data (dd_event d) (dd_session_id d) (dd_packet_sequence d) out =
      (Inr (span_size p), store_bytes out 0 p)"
    using encode_stores_packet [OF d(1), of out] d assms(3,4) len
    by (simp add: encodable_def span_size_def)
  with take_store_0 [of p out] assms(3) show ?thesis by simp
qed

theorem encode_decode_roundtrip_witness:
  "\<exists>out'. encode_data (dd_event known_view) (dd_session_id known_view)
       (dd_packet_sequence known_view) (replicate 60 1) = (Inr (span_size known_packet), out')
     \<and> take (length known_packet) out' = known_packet"
proof -
  have a: "addressable known_packet" "addressable (replicate 60 1)"
    by (simp_all add: addressable_def known_packet_def)
  have "encodable (dd_session_id known_view) (dd_packet_sequence known_view)
      (dd_event known_view)"
    by (simp add: known_view_def encodable_def)
  moreover have k: "known_packet = packet_of (dd_session_id known_view)
      (dd_packet_sequence known_view) (dd_event known_view)"
    by code_simp
  ultimately have "decode_data known_packet = Inr known_view"
    using decode_packet_of [of "dd_session_id known_view" "dd_packet_sequence known_view"
      "dd_event known_view"] by simp
  moreover have "length known_packet \<le> length (replicate 60 (1 :: byte))"
    by (simp add: known_packet_def)
  ultimately show ?thesis using encode_decode_roundtrip a by blast
qed

text \<open>
  A batch is never mistaken for a single event: a datagram whose first frame is complete and
  well formed, and whose declared length covers further bytes after it, is reported as
  \<open>UnsupportedBatch\<close>, whatever those bytes are, so none of its events is delivered.
\<close>

theorem decode_rejects_batch:
  assumes "encodable sid seq e" and "rest \<noteq> []"
    and "packet_len (length (payload e)) + length rest \<le> 1416"
  shows "decode_data
      (first_frame_packet (packet_len (length (payload e)) + length rest) sid seq e @ rest) =
    Inl UnsupportedBatch"
  using decode_first_frame [OF assms(1) refl assms(3)] assms(2) by simp

theorem decode_rejects_batch_witness:
  "decode_data (first_frame_packet 56 1 2 sample_event @ replicate 8 0) = Inl UnsupportedBatch"
proof -
  have len: "packet_len (length (payload sample_event)) = 48"
    by (simp add: sample_event_def packet_len_def frame_len_def round_up_def)
  have "encodable 1 2 sample_event" "replicate 8 (0 :: byte) \<noteq> []"
    "packet_len (length (payload sample_event)) + length (replicate 8 (0 :: byte)) \<le> 1416"
    by (simp_all add: encodable_def sample_event_def packet_len_def frame_len_def round_up_def)
  from decode_rejects_batch [OF this] len show ?thesis by simp
qed

end
