(* ===== verification/Engine_Lifecycle.thy ===== *)
theory Engine_Lifecycle
  imports Sender_Engine Receiver_Engine
begin

text \<open>
  The life of an engine from \<open>initialize\<close> over \<open>run\<close> to its destructor: what it holds of the system
  at every point, that no error path keeps anything, when initialization returns, and what a
  successful initialization guarantees to the loop.
\<close>

section \<open>A pass of a loop takes and gives no resource\<close>

lemma quiet_send_all [quiet_intros]: "quiet (send_all udp d ds acc)"
  by (induction udp d ds acc rule: send_all.induct) (auto intro!: quiet_intros)

lemma quiet_transmit [quiet_intros]: "quiet (transmit s out encoded stats)"
  unfolding transmit_def by (cases encoded) (auto intro!: quiet_intros)

lemma quiet_sender_pass [quiet_intros]: "quiet (sender_pass m packet s)"
  unfolding sender_pass_def by (auto simp: Let_def intro!: quiet_intros split: prod.splits sum.splits)

lemma quiet_receiver_pass [quiet_intros]: "quiet (receiver_pass m packet r)"
  unfolding receiver_pass_def by (auto intro!: quiet_intros split: prod.splits)

lemma quiet_resolve [quiet_intros]: "quiet (resolve_receivers es)"
  by (induction es) (auto intro!: quiet_intros split: sum.splits)

section \<open>What an engine holds\<close>

definition sender_resources :: "Sender \<Rightarrow> resource multiset" where
  "sender_resources s = segment_resources (s_segment s) + {#Descriptor (tx_fd (s_udp s))#}"

definition receiver_resources :: "Receiver \<Rightarrow> resource multiset" where
  "receiver_resources r = segment_resources (r_segment r) + name_resource (r_segment r)
     + {#Descriptor (rx_fd (r_udp r))#}"

definition sender_whole :: "Sender \<Rightarrow> bool" where
  "sender_whole s \<longleftrightarrow> open_segment (s_segment s) \<and> 0 \<le> tx_fd (s_udp s)"

definition receiver_whole :: "Receiver \<Rightarrow> bool" where
  "receiver_whole r \<longleftrightarrow> open_segment (r_segment r) \<and> seg_owner (r_segment r) \<and> seg_linked (r_segment r)
     \<and> 0 \<le> rx_fd (r_udp r)"

text \<open>The destinations are those of the configuration, in order, and none has the port zero.\<close>

definition resolved :: "Endpoint list \<Rightarrow> UdpAddress list \<Rightarrow> bool" where
  "resolved es ds \<longleftrightarrow> map (\<lambda>d. ntohs (sin_port (native d))) ds = map port es \<and> 0 \<notin> set (map port es)
     \<and> (\<forall>d \<in> set ds. sin_family (native d) = AF_INET)"

lemma moves_resolve:
  "moves N (resolve_receivers es) {#} (\<lambda>_. {#}) (\<lambda>r. \<forall>ds. r = Some ds \<longrightarrow> resolved es ds)"
proof (induction es)
  case Nil
  show ?case by (simp add: moves_return resolved_def)
next
  case (Cons e es)
  show ?case
    unfolding resolve_receivers.simps
  proof (rule moves_bind [OF moves_ipv4], goal_cases)
    case (1 x)
    show ?case by (intro grows_intros quiet_grows quiet_resolve)
  next
    case (2 x)
    show ?case
    proof (cases x)
      case (Inl err)
      then show ?thesis by (simp add: moves_return)
    next
      case (Inr d)
      show ?thesis
        unfolding Inr sum.case
        by (rule moves_bind [OF Cons.IH]) (use 2 Inr in \<open>auto simp: grows_intros resolved_def intro!: moves_return\<close>)
    qed
  qed
qed

section \<open>Initialization in three parts\<close>

text \<open>
  Both \<open>initialize\<close> functions prepare some parts, draw a random number, and make the engine from the
  parts or give them back.
\<close>

lemma prepared_then_drawn:
  assumes prep: "moves N prep {#} (\<lambda>x. case x of Inl _ \<Rightarrow> {#} | Inr p \<Rightarrow> A p) (\<lambda>x. \<forall>p. x = Inr p \<longrightarrow> Q p)"
    and final: "\<And>p v. Q p \<Longrightarrow> (\<forall>x. v = Some x \<longrightarrow> x \<noteq> 0 \<and> take_bit (8 * bytes) x = x) \<Longrightarrow>
      moves N (final p v) (A p) B P"
    and grows: "\<And>p v. grows (final p v)" and error: "\<And>e. B (Inl e) = {#} \<and> P (Inl e)"
    and run: "run_state prep w = (x, w1)"
    and cases: "case x of Inl e \<Rightarrow> r = Inl e \<and> w' = w1
      | Inr p \<Rightarrow> \<exists>v w2. nonzero_random bytes w1 = Some (v, w2) \<and> run_state (final p v) w2 = (r, w')"
    and h: "all_calls honest_mapping w'"
  shows "extends w w' \<and> held w' = held w + B r + left_behind w w' \<and> set_mset (left_behind w w') \<subseteq> N \<and> P r"
proof (cases x)
  case (Inl e)
  note e = growsD [OF moves_grows [OF prep] run]
  show ?thesis
    using cases movesD(2) [OF prep run, of "held w"] movesD(3) [OF prep run] e h error Inl by simp
next
  case (Inr p)
  obtain v w2 where n: "nonzero_random bytes w1 = Some (v, w2)" and f: "run_state (final p v) w2 = (r, w')"
    using cases Inr by auto
  note R = nonzero_random_result [OF n, simplified]
  then have k: "extends w1 w2" "left_behind w1 w2 = {#}" "held w2 = held w1" by (simp_all add: keeps_def)
  note e = growsD [OF moves_grows [OF prep] run] growsD [OF grows f]
  have h1: "all_calls honest_mapping w1" using k(1) e(2) h by (meson fair_before)
  note M = movesD [OF prep run h1]
  have "Q p" using M(1) Inr by simp
  with R have m: "moves N (final p v) (A p) B P" by (intro final) auto
  have l: "left_behind w w' = left_behind w w1 + left_behind w2 w'"
    using left_behind_trans [OF e(1) extends_trans [OF k(1) e(2)]] left_behind_trans [OF k(1) e(2)] k(2) by simp
  have "held w2 = (held w + left_behind w w1) + A p"
    using M(2) [of "held w"] k by (simp add: Inr ac_simps)
  then show ?thesis
    using movesD [OF m f h] M(3) extends_trans [OF e(1) extends_trans [OF k(1) e(2)]] by (simp add: l ac_simps)
qed

section \<open>Initialization of the sender\<close>

type_synonym sender_parts = "SharedMemorySegment \<times> byte list \<times> SpscRing \<times> UdpSender \<times> UdpAddress list"

definition prepared :: "SenderConfig \<Rightarrow> sender_parts \<Rightarrow> bool" where
  "prepared config = (\<lambda>(seg, m, ingress, udp, ds). open_segment seg \<and> \<not> seg_owner seg
     \<and> attach_ring (seg_address seg) m = Inr ingress \<and> 0 \<le> tx_fd udp \<and> resolved (receivers config) ds)"

definition parts_resources :: "sender_parts \<Rightarrow> resource multiset" where
  "parts_resources = (\<lambda>(seg, m, ingress, udp, ds). segment_resources seg + {#Descriptor (tx_fd udp)#})"

text \<open>From an attached segment on: the ring in it, then the socket.\<close>

definition sender_attached :: "SharedMemorySegment \<Rightarrow> byte list \<Rightarrow> UdpAddress list
    \<Rightarrow> (os, InitError + sender_parts) state" where
  "sender_attached seg m destinations = (case attach_ring (seg_address seg) m of
      Inl _ \<Rightarrow> do { _ \<leftarrow> destroy_segment seg; State_Monad.return (Inl Ring) }
    | Inr ingress \<Rightarrow> do {
        u \<leftarrow> open_sender;
        case u of
          Inl _ \<Rightarrow> do { _ \<leftarrow> destroy_segment seg; State_Monad.return (Inl InitError.Socket) }
        | Inr udp \<Rightarrow> State_Monad.return (Inr (seg, m, ingress, udp, destinations))
      })"

lemma grows_attached [grows_intros]: "grows (sender_attached seg m ds)"
  unfolding sender_attached_def by (intro grows_intros)

lemma moves_attached:
  assumes "open_segment seg" and "\<not> seg_owner seg" and "resolved (receivers config) ds"
  shows "moves N (sender_attached seg m ds) (segment_resources seg)
    (\<lambda>r. case r of Inl _ \<Rightarrow> {#} | Inr parts \<Rightarrow> parts_resources parts)
    (\<lambda>r. \<forall>parts. r = Inr parts \<longrightarrow> prepared config parts)"
proof (cases "attach_ring (seg_address seg) m")
  case (Inl err)
  then show ?thesis by (simp add: sender_attached_def segment.give_up assms(1))
next
  case (Inr ingress)
  show ?thesis
    unfolding sender_attached_def Inr sum.case
    by (rule tx_socket.acquire_then)
      (use assms Inr in \<open>auto simp: grows_intros segment.give_up parts_resources_def prepared_def intro!: moves_return\<close>)
qed

lemma sender_prepare_eq: "sender_prepare config =
  (if bad_sender_config config then State_Monad.return (Inl InvalidConfig)
   else do {
     ds \<leftarrow> resolve_receivers (receivers config);
     case ds of
       None \<Rightarrow> State_Monad.return (Inl AddressResolution)
     | Some destinations \<Rightarrow> do {
         sg \<leftarrow> attach_shm (ingress_shm_name config);
         case sg of
           Inl _ \<Rightarrow> State_Monad.return (Inl SharedMemory)
         | Inr (seg, m) \<Rightarrow> sender_attached seg m destinations
       }
   })"
  unfolding sender_prepare_def sender_attached_def ..

lemma moves_error: "B (Inl err) = {#} \<Longrightarrow> P (Inl err) \<Longrightarrow> moves N (State_Monad.return (Inl err)) {#} B P"
  by (rule moves_return) simp_all

lemma moves_sender_prepare:
  "moves N (sender_prepare config) {#} (\<lambda>r. case r of Inl _ \<Rightarrow> {#} | Inr parts \<Rightarrow> parts_resources parts)
    (\<lambda>r. \<forall>parts. r = Inr parts \<longrightarrow> \<not> bad_sender_config config \<and> prepared config parts)"
  (is "moves _ _ _ ?B ?P")
proof (cases "bad_sender_config config")
  case True
  then show ?thesis by (simp add: sender_prepare_eq moves_error)
next
  case False
  have rest: "moves N (do { sg \<leftarrow> attach_shm (ingress_shm_name config);
         case sg of Inl _ \<Rightarrow> State_Monad.return (Inl SharedMemory)
         | Inr (seg, m) \<Rightarrow> sender_attached seg m ds }) {#} ?B ?P"
    if "resolved (receivers config) ds" for ds
  proof (rule attached_segment.acquire_then, goal_cases)
    case (4 r)
    then show ?case
      using moves_cong [OF moves_attached [of "fst r" config ds N "snd r"] refl, of ?B ?P] that False
      by (cases r) auto
  qed (simp_all add: grows_intros moves_error)
  have "moves N (do {
       ds \<leftarrow> resolve_receivers (receivers config);
       case ds of
         None \<Rightarrow> State_Monad.return (Inl AddressResolution)
       | Some destinations \<Rightarrow> do {
           sg \<leftarrow> attach_shm (ingress_shm_name config);
           case sg of
             Inl _ \<Rightarrow> State_Monad.return (Inl SharedMemory)
           | Inr (seg, m) \<Rightarrow> sender_attached seg m destinations
         }
     }) {#} ?B ?P"
  proof (rule moves_bind [OF moves_resolve])
    fix x assume "\<forall>ds. x = Some ds \<longrightarrow> resolved (receivers config) ds"
    then show "moves N (case x of None \<Rightarrow> State_Monad.return (Inl AddressResolution)
       | Some destinations \<Rightarrow> do {
           sg \<leftarrow> attach_shm (ingress_shm_name config);
           case sg of
             Inl _ \<Rightarrow> State_Monad.return (Inl SharedMemory)
           | Inr (seg, m) \<Rightarrow> sender_attached seg m destinations
         }) {#} ?B ?P"
      by (cases x) (simp_all add: moves_error rest del: split_paired_All)
  qed (intro grows_intros)
  then show ?thesis using False by (simp add: sender_prepare_eq)
qed

text \<open>The destructor of a whole engine gives everything back.\<close>

lemma grows_destroy_engines [grows_intros]:
  "grows (destroy_sender_engine s)" "grows (destroy_receiver_engine m r)"
  unfolding destroy_sender_engine_def destroy_receiver_engine_def Let_def by (intro grows_intros)+

lemma moves_destroy_sender_engine:
  "sender_whole s \<Longrightarrow> moves N (destroy_sender_engine s) (sender_resources s) (\<lambda>_. {#}) (\<lambda>_. True)"
  unfolding destroy_sender_engine_def sender_resources_def sender_whole_def
  by (intro tx_socket.dispose_then grows_intros moves_destroy_segment) simp_all

definition ready_sender :: "SenderConfig \<Rightarrow> Sender \<Rightarrow> byte list \<Rightarrow> bool" where
  "ready_sender config s m \<longleftrightarrow> \<not> bad_sender_config config \<and> (\<exists>seg ingress udp ds sid.
     s = make_sender config seg ingress udp ds sid \<and> sid \<noteq> 0 \<and> attach_ring (seg_address seg) m = Inr ingress
     \<and> resolved (receivers config) ds)"

lemma nonzero_u32:
  assumes "take_bit 32 x = (x :: u64)" and "x \<noteq> 0"
  shows "(ucast x :: u32) \<noteq> 0"
proof
  assume "(ucast x :: u32) = 0"
  moreover have "ucast (ucast x :: u32) = (take_bit 32 x :: u64)"
    by (rule bit_word_eqI) (auto simp: bit_simps)
  ultimately show False using assms by simp
qed

text \<open>The last part: the engine, or without a session id the way back.\<close>

definition sender_finish :: "SenderConfig \<Rightarrow> sender_parts \<Rightarrow> u64 option
    \<Rightarrow> (os, InitError + Sender \<times> byte list) state" where
  "sender_finish config = (\<lambda>(seg, m, ingress, udp, ds) v. case v of
      None \<Rightarrow> do { _ \<leftarrow> destroy_sender udp; _ \<leftarrow> destroy_segment seg; State_Monad.return (Inl SessionId) }
    | Some sid \<Rightarrow> State_Monad.return (Inr (make_sender config seg ingress udp ds (ucast sid), m)))"

lemma moves_sender_finish:
  assumes "\<not> bad_sender_config config \<and> prepared config parts"
    and "\<forall>x. v = Some x \<longrightarrow> x \<noteq> 0 \<and> take_bit (8 * 4) x = x"
  shows "moves N (sender_finish config parts v) (parts_resources parts)
    (\<lambda>r. case r of Inl _ \<Rightarrow> {#} | Inr (s, m) \<Rightarrow> sender_resources s)
    (\<lambda>r. \<forall>s m. r = Inr (s, m) \<longrightarrow> sender_whole s \<and> ready_sender config s m)"
proof -
  obtain seg m ingress udp ds where parts: "parts = (seg, m, ingress, udp, ds)" by (metis prod_cases5)
  show ?thesis
  proof (cases v)
    case None
    have "open_segment seg" "0 \<le> tx_fd udp" using assms(1) by (simp_all add: prepared_def parts)
    then show ?thesis
      unfolding sender_finish_def parts prod.case None option.case parts_resources_def
      by (intro tx_socket.dispose_then segment.give_up grows_intros) simp_all
  next
    case (Some sid)
    have "(ucast sid :: u32) \<noteq> 0" using assms(2) Some by (intro nonzero_u32) auto
    then show ?thesis
      unfolding sender_finish_def parts prod.case Some option.case parts_resources_def
      using assms(1) by (intro moves_return) (auto simp: sender_resources_def make_sender_def sender_whole_def
          ready_sender_def prepared_def parts)
  qed
qed

lemma run_sender_initialize:
  assumes "sender_initialize config w = Some (r, w')" and h: "all_calls honest_mapping w'"
  shows "extends w w' \<and> left_behind w w' = {#}
    \<and> held w' = held w + (case r of Inl _ \<Rightarrow> {#} | Inr (s, m) \<Rightarrow> sender_resources s)
    \<and> (\<forall>s m. r = Inr (s, m) \<longrightarrow> sender_whole s \<and> ready_sender config s m)"
proof -
  obtain x w1 where p: "run_state (sender_prepare config) w = (x, w1)" by fastforce
  have "case x of Inl e \<Rightarrow> r = Inl e \<and> w' = w1
      | Inr p \<Rightarrow> \<exists>v w2. nonzero_random 4 w1 = Some (v, w2) \<and> run_state (sender_finish config p v) w2 = (r, w')"
    using assms(1) unfolding sender_initialize_def p
    by (auto simp: sender_finish_def split: sum.splits option.splits prod.splits)
  from prepared_then_drawn [where N = "{}", OF moves_sender_prepare moves_sender_finish _ _ p this h]
  show ?thesis by (simp add: sender_finish_def grows_intros split: prod.split)
qed

end
