(* ===== verification/Receiver_Lifecycle.thy ===== *)
theory Receiver_Lifecycle
  imports Engine_Lifecycle
begin

text \<open>
  Initialization and destruction of the receiver engine: the socket and the segment it creates are
  given back on every error path and by the destructor, and so is the name of the segment unless the
  system refuses its \<open>shm_unlink\<close>, whose result no path looks at.
\<close>

lemma moves_cases_sum:
  "(\<And>a. s = Inl a \<Longrightarrow> moves N (g a) A B P) \<Longrightarrow> (\<And>b. s = Inr b \<Longrightarrow> moves N (h b) A B P) \<Longrightarrow>
    moves N (case s of Inl a \<Rightarrow> g a | Inr b \<Rightarrow> h b) A B P"
  by (cases s) simp_all

text \<open>The socket is bound before anything else is taken.\<close>

lemma moves_receiver_bind:
  "moves N (receiver_bind config) {#}
    (\<lambda>r. case r of Inl _ \<Rightarrow> {#} | Inr (sz, udp) \<Rightarrow> {#Descriptor (rx_fd udp)#})
    (\<lambda>r. \<forall>sz udp. r = Inr (sz, udp) \<longrightarrow> \<not> bad_receiver_config config \<and> 0 \<le> rx_fd udp
      \<and> required_bytes (egress_ring config) = Inr sz)"
  (is "moves _ _ _ ?B ?P")
proof (cases "bad_receiver_config config")
  case True
  then show ?thesis by (simp add: receiver_bind_def moves_error)
next
  case ok: False
  show ?thesis
  proof (cases "required_bytes (egress_ring config)")
    case (Inl err)
    then show ?thesis using ok by (simp add: receiver_bind_def moves_error)
  next
    case (Inr sz)
    show ?thesis
      unfolding receiver_bind_def if_not_P [OF ok] Inr sum.case Let_def
    proof (rule moves_bind [OF moves_quiet [OF quiet_calls(4)]], goal_cases)
      case (1 a)
      show ?case by (intro grows_intros)
    next
      case (2 a)
      show ?case
      proof (cases "ret a \<noteq> 1")
        case True
        then show ?thesis by (simp add: moves_error del: split_paired_All)
      next
        case False
        show ?thesis
          unfolding if_not_P [OF False]
          by (rule rx_socket.acquire_then) (use ok Inr in \<open>auto simp: grows_intros moves_error intro!: moves_return\<close>)
      qed
    qed
  qed
qed

text \<open>Giving back the segment with its name, and the socket.\<close>

lemma moves_drop_segment:
  assumes "open_segment seg" and "seg_owner seg" and "seg_linked seg" and "0 \<le> rx_fd udp"
    and "Shm_name (c_str (seg_name seg)) \<in> N"
    and "\<And>u. grows (f u)" and "\<And>u. moves N (f u) {#} B P"
  shows "moves N (do { (_, seg) \<leftarrow> unlink seg; _ \<leftarrow> destroy_segment seg; _ \<leftarrow> destroy_receiver_socket udp; f () })
    ({#Descriptor (rx_fd udp)#} + segment_resources seg + name_resource seg) B P"
proof -
  let ?fd = "{#Descriptor (rx_fd udp)#}"
  note u = moves_frame [OF moves_unlink [OF assms(2,3,5)], of "?fd + segment_resources seg"]
  show ?thesis
  proof (rule moves_bind [OF u], goal_cases)
    case (1 x)
    show ?case by (intro grows_intros assms(6))
  next
    case (2 x)
    obtain r s where x: "x = (r, s)" by fastforce
    have s: "segment_resources s = segment_resources seg" "open_segment s"
      using 2 assms(1) by (simp_all add: x)
    have "moves N (do { _ \<leftarrow> destroy_segment s; _ \<leftarrow> destroy_receiver_socket udp; f () })
        (?fd + segment_resources seg) B P"
      unfolding s(1) [symmetric]
      using rx_socket.dispose_then [OF assms(4,6,7)]
      by (intro segment.dispose_then s(2) grows_intros assms(6)) simp
    then show ?case by (simp add: x)
  qed
qed

lemma moves_receiver_create:
  assumes fd: "0 \<le> rx_fd udp" and nm: "Shm_name (c_str (egress_shm_name config)) \<in> N"
  shows "moves N (receiver_create config sz udp instance_id) {#Descriptor (rx_fd udp)#}
    (\<lambda>r. case r of Inl _ \<Rightarrow> {#} | Inr (rx, m) \<Rightarrow> receiver_resources rx)
    (\<lambda>r. \<forall>rx m. r = Inr (rx, m) \<longrightarrow> receiver_whole rx
      \<and> seg_name (r_segment rx) = egress_shm_name config
      \<and> (\<exists>seg m0 egress. initialize_ring (seg_address seg) m0 (egress_ring config) instance_id = (Inr egress, m)
          \<and> rx = make_receiver config seg egress udp))"
  (is "moves _ _ _ ?B ?P")
proof -
  note c = moves_frame [OF moves_create_shm [OF nm], where F = "{#Descriptor (rx_fd udp)#}", unfolded add_0_right]
  show ?thesis
    unfolding receiver_create_def
  proof (rule moves_bind [OF c], goal_cases)
    case (1 x)
    show ?case by (intro grows_intros)
  next
    case (2 x)
    show ?case
    proof (cases x)
      case (Inl err)
      then show ?thesis by (simp add: rx_socket.give_up [OF fd] del: split_paired_All)
    next
      case (Inr sm)
      obtain seg m0 where sm: "sm = (seg, m0)" by fastforce
      obtain e m where i: "initialize_ring (seg_address seg) m0 (egress_ring config) instance_id = (e, m)"
        by fastforce
      have s: "open_segment seg" "seg_owner seg" "seg_linked seg" "seg_name seg = egress_shm_name config"
        using 2 Inr sm by auto
      show ?thesis
      proof (cases e)
        case (Inl err)
        then show ?thesis
          using moves_drop_segment [OF s(1-3) fd nm [folded s(4)], of "\<lambda>_. State_Monad.return (Inl Ring)" ?B ?P]
          by (simp add: Inr sm i moves_error grows_intros add.assoc del: split_paired_All)
      next
        case (Inr egress)
        then show ?thesis
          using s fd i by (auto simp: \<open>x = Inr sm\<close> sm receiver_resources_def make_receiver_def receiver_whole_def
              intro!: moves_return)
      qed
    qed
  qed
qed

text \<open>The destructor of a whole engine gives everything back.\<close>

lemma moves_destroy_receiver_engine:
  assumes "receiver_whole rx" and nm: "Shm_name (c_str (seg_name (r_segment rx))) \<in> N"
  shows "moves N (destroy_receiver_engine m rx) (receiver_resources rx) (\<lambda>_. {#}) (\<lambda>_. True)"
proof -
  let ?fd = "{#Descriptor (rx_fd (r_udp rx))#}" and ?seg = "r_segment rx"
  have w: "open_segment ?seg" "seg_owner ?seg" "seg_linked ?seg" "0 \<le> rx_fd (r_udp rx)"
    using assms by (simp_all add: receiver_whole_def)
  note u = moves_frame [OF moves_unlink [OF w(2,3) nm], where F = "?fd + segment_resources ?seg"]
  have rest: "moves N (do { _ \<leftarrow> destroy_receiver_socket (r_udp rx); _ \<leftarrow> destroy_segment s; State_Monad.return m' })
      (?fd + segment_resources s) (\<lambda>_. {#}) (\<lambda>_. True)" if "open_segment s" for s and m' :: "byte list"
    unfolding add.commute [of ?fd] using that
    by (intro rx_socket.dispose_then segment.give_up w(4) grows_intros) simp_all
  have unlinked: "moves N (do { (_, seg) \<leftarrow> unlink ?seg; State_Monad.return (m', seg) })
      (?fd + segment_resources ?seg + name_resource ?seg) (\<lambda>_. ?fd + segment_resources ?seg)
      (\<lambda>(_, s). segment_resources s = segment_resources ?seg \<and> open_segment s)" for m' :: "byte list"
    by (rule moves_bind [OF u]) (use w(1) in \<open>auto intro!: grows_intros moves_return split: prod.splits\<close>)
  have "moves N (destroy_receiver_engine m rx) (?fd + segment_resources ?seg + name_resource ?seg)
      (\<lambda>_. {#}) (\<lambda>_. True)"
    unfolding destroy_receiver_engine_def if_P [OF w(2)] Let_def
  proof (rule moves_bind [OF unlinked], goal_cases)
    case (2 x)
    obtain m' s where x: "x = (m', s)" by fastforce
    have s: "segment_resources s = segment_resources ?seg" "open_segment s" using 2 by (simp_all add: x)
    show ?case using rest [OF s(2), of m'] by (simp add: x s(1))
  qed (intro grows_intros)
  then show ?thesis by (simp add: receiver_resources_def add.commute add.left_commute)
qed

end
