(* ===== verification/Lifecycle_Properties.thy ===== *)
theory Lifecycle_Properties
  imports Sender_Properties Receiver_Properties Receiver_Lifecycle
begin

text \<open>
  The whole life of the two engines: what initialization leaves behind on each outcome, that it
  returns, and that a run followed by the destructor gives back everything that was taken, but for the
  name of the egress ring when the system refuses to unlink it.
\<close>

section \<open>The receiver's initialization\<close>

definition ready_receiver :: "ReceiverConfig \<Rightarrow> Receiver \<Rightarrow> byte list \<Rightarrow> bool" where
  "ready_receiver config rx m \<longleftrightarrow> \<not> bad_receiver_config config \<and> (\<exists>seg m0 egress udp instance_id.
     rx = make_receiver config seg egress udp \<and> instance_id \<noteq> 0
     \<and> initialize_ring (seg_address seg) m0 (egress_ring config) instance_id = (Inr egress, m))"

definition receiver_finish_init :: "ReceiverConfig \<Rightarrow> size_t \<times> UdpReceiver \<Rightarrow> u64 option
    \<Rightarrow> (os, InitError + Receiver \<times> byte list) state" where
  "receiver_finish_init config = (\<lambda>(sz, udp) v. case v of
      None \<Rightarrow> do { _ \<leftarrow> destroy_receiver_socket udp; State_Monad.return (Inl Ring) }
    | Some instance_id \<Rightarrow> receiver_create config sz udp instance_id)"

text \<open>The only name that a receiver ever asks the system to unlink.\<close>

abbreviation egress_name :: "ReceiverConfig \<Rightarrow> resource" where
  "egress_name config \<equiv> Shm_name (c_str (egress_shm_name config))"

lemma moves_receiver_finish_init:
  assumes "\<not> bad_receiver_config config \<and> 0 \<le> rx_fd (snd parts)"
    and "\<forall>x. v = Some x \<longrightarrow> x \<noteq> 0 \<and> take_bit (8 * 8) x = x"
  shows "moves {egress_name config} (receiver_finish_init config parts v) {#Descriptor (rx_fd (snd parts))#}
    (\<lambda>r. case r of Inl _ \<Rightarrow> {#} | Inr (rx, m) \<Rightarrow> receiver_resources rx)
    (\<lambda>r. \<forall>rx m. r = Inr (rx, m) \<longrightarrow> receiver_whole rx \<and> seg_name (r_segment rx) = egress_shm_name config
      \<and> ready_receiver config rx m)"
proof -
  obtain sz udp where parts: "parts = (sz, udp)" by fastforce
  show ?thesis
  proof (cases v)
    case None
    show ?thesis
      unfolding receiver_finish_init_def parts prod.case snd_conv None option.case
      by (rule rx_socket.give_up) (use assms parts in auto)
  next
    case (Some instance_id)
    have "instance_id \<noteq> 0" using assms(2) Some by simp
    then show ?thesis
      unfolding receiver_finish_init_def parts prod.case snd_conv Some option.case using assms(1)
      by (intro moves_cong [OF moves_receiver_create refl]) (auto simp: ready_receiver_def parts, blast)
  qed
qed

lemma run_receiver_initialize:
  assumes "receiver_initialize config w = Some (r, w')" and h: "all_calls honest_mapping w'"
  shows "extends w w' \<and> held w' = held w + (case r of Inl _ \<Rightarrow> {#} | Inr (rx, m) \<Rightarrow> receiver_resources rx)
      + left_behind w w' \<and> set_mset (left_behind w w') \<subseteq> {egress_name config}
    \<and> (\<forall>rx m. r = Inr (rx, m) \<longrightarrow> receiver_whole rx \<and> seg_name (r_segment rx) = egress_shm_name config
      \<and> ready_receiver config rx m)"
proof -
  obtain x w1 where p: "run_state (receiver_bind config) w = (x, w1)" by fastforce
  have b: "moves {egress_name config} (receiver_bind config) {#} (\<lambda>x. case x of Inl _ \<Rightarrow> {#} | Inr p \<Rightarrow> {#Descriptor (rx_fd (snd p))#})
      (\<lambda>x. \<forall>p. x = Inr p \<longrightarrow> \<not> bad_receiver_config config \<and> 0 \<le> rx_fd (snd p))"
    by (rule moves_cong [OF moves_receiver_bind refl]) (auto split: sum.splits)
  have "case x of Inl e \<Rightarrow> r = Inl e \<and> w' = w1
      | Inr p \<Rightarrow> \<exists>v w2. nonzero_random 8 w1 = Some (v, w2)
          \<and> run_state (receiver_finish_init config p v) w2 = (r, w')"
    using assms(1) unfolding receiver_initialize_def p
    by (auto simp: receiver_finish_init_def split: sum.splits option.splits prod.splits)
  from prepared_then_drawn [OF b moves_receiver_finish_init _ _ p this h]
  show ?thesis
    by (simp add: receiver_finish_init_def receiver_create_def grows_intros split: prod.split)
qed

section \<open>Running keeps the resources\<close>

definition same_parts :: "sender_world \<Rightarrow> sender_world \<Rightarrow> bool" where
  "same_parts w w' \<longleftrightarrow> keeps (sw_os w) (sw_os w')
     \<and> s_segment (sw_sender w') = s_segment (sw_sender w) \<and> s_udp (sw_sender w') = s_udp (sw_sender w)"

lemma pass_same_parts:
  assumes "run_state (sender_pass m packet s) w = ((flow, m', packet', s'), w')"
  shows "s_segment s' = s_segment s" and "s_udp s' = s_udp s"
proof -
  have "s_segment s' = s_segment s \<and> s_udp s' = s_udp s"
  proof (cases "try_acquire m (s_ingress s)")
    case (Pair r ingress)
    then show ?thesis using assms
      by (cases r) (auto simp: sender_pass_def advance_sequence_def sender_request_stop_def Let_def
          split: prod.splits sum.splits if_splits)
  qed
  then show "s_segment s' = s_segment s" "s_udp s' = s_udp s" by simp_all
qed

lemma step_same_parts: "same_parts w (sender_step w a)"
proof (cases a)
  case Sender_pass
  obtain f m p s v where r: "run_state (sender_pass (sw_memory w) (sw_packet w) (sw_sender w)) (sw_os w)
      = ((f, m, p, s), v)" by (metis prod.exhaust)
  with pass_same_parts [OF this] quietD [OF quiet_sender_pass r] show ?thesis
    by (auto simp: Sender_pass same_parts_def)
qed (auto simp: same_parts_def sender_request_stop_def split: prod.splits)

text \<open>The sender is an engine that owns what its parts own; it never unlinks a name.\<close>

interpretation tx_engine: engine honest_mapping "{}" "\<lambda>x. sender_resources (sw_sender x)"
    "\<lambda>x. sender_whole (sw_sender x)" "\<lambda>x. destroy_sender_engine (sw_sender x)" "sender_initialize config"
    "\<lambda>(s, m) w. start_sender s m app w" sender_step sw_os for config app
proof (unfold_locales, goal_cases)
  case (3 w r w')
  then show ?case
    using run_sender_initialize [OF 3] by (cases r) (auto simp: start_sender_def)
next
  case (5 x a)
  then show ?case
    using step_same_parts [of x a] by (simp add: same_parts_def sender_resources_def sender_whole_def)
qed (auto simp: grows_intros moves_destroy_sender_engine start_sender_def)

definition same_rx_parts :: "receiver_world \<Rightarrow> receiver_world \<Rightarrow> bool" where
  "same_rx_parts w w' \<longleftrightarrow> keeps (rw_os w) (rw_os w')
     \<and> r_segment (rw_receiver w') = r_segment (rw_receiver w) \<and> r_udp (rw_receiver w') = r_udp (rw_receiver w)"

lemma handle_same_parts:
  assumes "handle_datagram m r bytes = (flow, m', r')"
  shows "r_segment r' = r_segment r \<and> r_udp r' = r_udp r"
  using assms
  by (auto simp: handle_datagram_def sequence_check_def deliver_def Let_def
      split: sum.splits prod.splits if_splits)

lemma step_same_rx_parts: "same_rx_parts w (receiver_step w a)"
proof (cases a)
  case Receiver_pass
  let ?r = "rw_receiver w"
  obtain f m p r v where run: "run_state (receiver_pass (rw_memory w) (rw_packet w) ?r) (rw_os w)
      = ((f, m, p, r), v)" by (metis prod.exhaust)
  have "r_segment r = r_segment ?r \<and> r_udp r = r_udp ?r"
    using run by (auto simp: receiver_pass_def handle_receive_error_def Let_def
        split: prod.splits sum.splits if_splits dest: handle_same_parts)
  with quietD [OF quiet_receiver_pass run] run show ?thesis
    by (auto simp: Receiver_pass same_rx_parts_def Let_def split: prod.splits)
qed (auto simp: same_rx_parts_def receiver_request_stop_def split: prod.splits)

interpretation rx_engine: engine honest_mapping "{egress_name config}" "\<lambda>x. receiver_resources (rw_receiver x)"
    "\<lambda>x. receiver_whole (rw_receiver x) \<and> seg_name (r_segment (rw_receiver x)) = egress_shm_name config" "\<lambda>x. destroy_receiver_engine (rw_memory x) (rw_receiver x)"
    "receiver_initialize config" "\<lambda>(r, m) w. start_receiver r m client w" receiver_step rw_os for config client
proof (unfold_locales, goal_cases)
  case (3 w r w')
  then show ?case
    using run_receiver_initialize [OF 3] by (cases r) (auto simp: start_receiver_def)
next
  case (5 x a)
  then show ?case
    using step_same_rx_parts [of x a] by (simp add: same_rx_parts_def receiver_resources_def receiver_whole_def)
qed (auto simp: grows_intros moves_destroy_receiver_engine start_receiver_def)

section \<open>Properties of the life of an engine\<close>

text \<open>An engine that was moved from has nothing to give back.\<close>

lemma destroy_moved_engine:
  "run_state (destroy_sender_engine (snd (move_sender_engine s))) w = ((), w)"
  "run_state (destroy_receiver_engine m (snd (move_receiver_engine rx))) w = (m, w)"
  using destroy_moved_from [of "s_segment s" w] destroy_moved_from [of "r_segment rx" w]
  by (simp_all add: destroy_sender_engine_def destroy_receiver_engine_def move_sender_engine_def
      move_receiver_engine_def sender_request_stop_def receiver_request_stop_def destroy_sender_def
      destroy_receiver_socket_def move_receiver_socket_def) (simp_all add: moved_from_def)

text \<open>
  C19. The life of a sender is balanced: a failing \<open>initialize\<close> leaves the process with the
  descriptors, mappings and names that it had, on every error path; a successful one, a move of the
  engine, any run of the loop of the new engine among other threads and the destructors of both
  engines do too.
\<close>

theorem sender_life_is_balanced:
  assumes "sender_initialize config w = Some (r, w1)"
    and "case r of Inl _ \<Rightarrow> w2 = w1
      | Inr (s, m) \<Rightarrow> move_sender_engine s = (target, old)
          \<and> run = sender_run (start_sender target m app w1) actions
          \<and> run_state (do { _ \<leftarrow> destroy_sender_engine (sw_sender run); destroy_sender_engine old }) (sw_os run)
              = ((), w2)"
    and "honest_mappings w2"
  shows "held w2 = held w"
proof (cases r)
  case (Inl err)
  then show ?thesis
    using tx_engine.failed_initialization [of config w err w1] assms by (simp add: honest_mappings_def)
next
  case (Inr sm)
  obtain s m where sm: "sm = (s, m)" by fastforce
  have moved: "target = s" "old = snd (move_sender_engine s)"
    using assms(2) by (auto simp: Inr sm move_sender_engine_def)
  then have "run_state (destroy_sender_engine (sw_sender run)) (sw_os run) = ((), w2)"
    using assms(2) by (auto simp: Inr sm destroy_moved_engine split: prod.splits)
  then show ?thesis
    using assms tx_engine.whole_life [of config w sm w1 app actions "()" w2] moved(1)
    by (auto simp: Inr sm honest_mappings_def sender_run_def)
qed

text \<open>
  C20. The life of a receiver is balanced but for one name: on every error path of \<open>initialize\<close>, and
  after a successful one, a move of the engine, any run and both destructors, the process holds what
  it held before and exactly the names that the system refused to unlink meanwhile. The only such name
  is that of the egress segment: \<open>create_shm\<close>, a failing \<open>initialize\<close> and the destructor try to unlink
  it and do not look at the result. Where the system refuses nothing, nothing is left.
\<close>

theorem receiver_life_is_balanced:
  assumes "receiver_initialize config w = Some (r, w1)"
    and "case r of Inl _ \<Rightarrow> w2 = w1
      | Inr (rx, m) \<Rightarrow> move_receiver_engine rx = (target, old)
          \<and> run = receiver_run (start_receiver target m client w1) actions
          \<and> run_state (do { m' \<leftarrow> destroy_receiver_engine (rw_memory run) (rw_receiver run);
                destroy_receiver_engine m' old }) (rw_os run) = (m', w2)"
    and "honest_mappings w2"
  shows "held w2 = held w + left_behind w w2
    \<and> set_mset (left_behind w w2) \<subseteq> {Shm_name (c_str (egress_shm_name config))}"
proof (cases r)
  case (Inl err)
  then show ?thesis
    using rx_engine.failed_initialization [of config w err w1] assms by (simp add: honest_mappings_def)
next
  case (Inr sm)
  obtain rx m where sm: "sm = (rx, m)" by fastforce
  have moved: "target = rx" "old = snd (move_receiver_engine rx)"
    using assms(2) by (auto simp: Inr sm move_receiver_engine_def)
  then have "run_state (destroy_receiver_engine (rw_memory run) (rw_receiver run)) (rw_os run) = (m', w2)"
    using assms(2) by (auto simp: Inr sm destroy_moved_engine split: prod.splits)
  then show ?thesis
    using assms rx_engine.whole_life [of config w sm w1 client actions m' w2] moved(1)
    by (auto simp: Inr sm honest_mappings_def receiver_run_def)
qed

text \<open>
  C33. Initialization returns: the loops that draw a session id and an instance id end as soon as
  the system once delivers a number that is not zero or an error other than EINTR, so if it does so
  again and again, both \<open>initialize\<close> functions return.
\<close>

theorem initialization_returns:
  assumes "\<forall>i. \<exists>k. \<not> tries_again 4 (replies w (i + k))" and "\<forall>i. \<exists>k. \<not> tries_again 8 (replies w (i + k))"
  shows "(\<exists>r w'. sender_initialize config w = Some (r, w')) \<and> (\<exists>r w'. receiver_initialize rx_config w = Some (r, w'))"
proof
  obtain x w1 where p: "run_state (sender_prepare config) w = (x, w1)" by fastforce
  have "replies w1 = replies w" using growsD [OF moves_grows [OF moves_sender_prepare] p] by (simp add: extends_def)
  then obtain v w2 where "nonzero_random 4 w1 = Some (v, w2)" using nonzero_random_ends assms(1) by metis
  then show "\<exists>r w'. sender_initialize config w = Some (r, w')"
    by (cases x; cases v) (auto simp: sender_initialize_def p split: prod.splits)
next
  obtain x w1 where p: "run_state (receiver_bind rx_config) w = (x, w1)" by fastforce
  have "replies w1 = replies w" using growsD [OF moves_grows [OF moves_receiver_bind] p] by (simp add: extends_def)
  then obtain v w2 where "nonzero_random 8 w1 = Some (v, w2)" using nonzero_random_ends assms(2) by metis
  then show "\<exists>r w'. receiver_initialize rx_config w = Some (r, w')"
    by (cases x; cases v) (auto simp: receiver_initialize_def p split: prod.splits)
qed

text \<open>
  C32. What a successful initialization guarantees. A sender has a valid configuration, a session id
  that is not zero, the sequence 1 next, one destination for every configured receiver in order,
  with its port, and an ingress ring that passed the checks of \<open>attach\<close>. A receiver has a valid
  configuration and owns a ring in its segment, ready and empty, that it may close. These are the
  states in which the properties of the two loops start.
\<close>

theorem initialized_engines_are_ready:
  assumes "sender_initialize config w = Some (Inr (s, m), w1)" and "honest_mappings w1"
    and "receiver_initialize rx_config v = Some (Inr (rx, m'), v1)" and "honest_mappings v1"
  shows "(\<not> bad_sender_config config \<and> s_session_id s \<noteq> 0 \<and> s_packet_sequence s = 1
      \<and> map (\<lambda>d. ntohs (sin_port (native d))) (s_destinations s) = map port (receivers config)
      \<and> attach_ring (seg_address (s_segment s)) m = Inr (s_ingress s))
    \<and> \<not> bad_receiver_config rx_config \<and> seg_owner (r_segment rx) \<and> r_gap_detector rx = initial_detector
      \<and> (\<exists>m0 instance_id. initialize_ring (seg_address (r_segment rx)) m0 (egress_ring rx_config) instance_id
          = (Inr (r_egress rx), m') \<and> (addressable m0 \<longrightarrow> initializer (r_egress rx) \<and> pre_state m' = 2
            \<and> (\<exists>n st cap. ring_ok n st cap m' \<and> handle_ok n st cap (r_egress rx) \<and> ring_items n st m' = []
                \<and> n = unat (cfg_slot_count (egress_ring rx_config)))))"
proof -
  have "ready_sender config s m" using run_sender_initialize [OF assms(1) assms(2) [unfolded honest_mappings_def]] by blast
  moreover have "ready_receiver rx_config rx m'" "receiver_whole rx"
    using run_receiver_initialize [OF assms(3) assms(4) [unfolded honest_mappings_def]] by blast+
  then obtain m0 instance_id where i: "initialize_ring (seg_address (r_segment rx)) m0 (egress_ring rx_config) instance_id
      = (Inr (r_egress rx), m')" and "\<not> bad_receiver_config rx_config" "seg_owner (r_segment rx)"
    "r_gap_detector rx = initial_detector"
    by (auto simp: ready_receiver_def receiver_whole_def make_receiver_def)
  moreover have "initializer (r_egress rx) \<and> pre_state m' = 2
      \<and> (\<exists>n st cap. ring_ok n st cap m' \<and> handle_ok n st cap (r_egress rx) \<and> ring_items n st m' = []
        \<and> n = unat (cfg_slot_count (egress_ring rx_config)))" if "addressable m0"
    using attach_initialized(1,2,5) [OF that i] by (auto simp: make_ring_def)
  ultimately show ?thesis
    by (auto simp: ready_sender_def resolved_def make_sender_def)
qed

section \<open>The properties on a concrete system\<close>

definition a_reply :: "int \<Rightarrow> u64 \<Rightarrow> byte list \<Rightarrow> reply" where
  "a_reply r a d = \<lparr>ret = r, errno = 0, answer = a, contents = d,
     peer = \<lparr>sin_family = 2, sin_port = 0, sin_addr = 0\<rparr>\<rparr>"

definition scripted :: "reply list \<Rightarrow> os" where
  "scripted rs = \<lparr>replies = \<lambda>i. if i < length rs then rs ! i else a_reply 0 0 [], trace = []\<rparr>"

text \<open>
  For a sender: the address, the segment of Ring_Witnesses at the address 4096, the socket 4, the
  session id 9. For a receiver: the address, the socket 5 and its binding, the number 7, a new
  segment of 320 bytes, and the reply \<open>u\<close> to the \<open>shm_unlink\<close> of its destructor.
\<close>

definition tx_system :: os where
  "tx_system = scripted [a_reply 1 0x0100007f [], a_reply 3 0 [], a_reply 0 320 [],
     a_reply 0 4096 demo_segment, a_reply 4 0 [], a_reply 4 9 []]"

definition rx_system :: "reply \<Rightarrow> os" where
  "rx_system u = scripted [a_reply 1 0 [], a_reply 5 0 [], a_reply 0 0 [], a_reply 0 0 [], a_reply 8 7 [],
     a_reply 3 0 [], a_reply 0 0 [], a_reply 0 4096 (replicate 320 0), u]"

definition tx_sender :: Sender where
  "tx_sender = make_sender demo_tx_config (make_segment ''/lle'' 3 4096 320 False) (make_ring demo_segment False)
     \<lparr>tx_fd = 4\<rparr> [\<lparr>native = \<lparr>sin_family = 2, sin_port = 10275, sin_addr = 0x0100007f\<rparr>\<rparr>] 9"

definition rx_segment :: "byte list" where
  "rx_segment = snd (initialize_ring 4096 (replicate 320 0) demo_config 7)"

definition rx_receiver :: Receiver where
  "rx_receiver = make_receiver demo_rx_config (make_segment ''/out'' 3 4096 320 True) (make_ring rx_segment True)
     \<lparr>rx_fd = 5, local_port = 0\<rparr>"

definition called :: "syscall list \<Rightarrow> os \<Rightarrow> os" where
  "called cs w = w\<lparr>trace := zip cs (map (replies w) [0..<length cs])\<rparr>"

definition tx_started :: os where
  "tx_started = called [Inet_pton_call ''10.0.0.1'', Shm_open_call ''/lle'', Fstat_call 3, Mmap_call 3 320,
     Socket_call, Getrandom_call 4] tx_system"

definition rx_started :: "reply \<Rightarrow> os" where
  "rx_started u = called [Inet_pton_call ''0.0.0.0'', Socket_call,
     Bind_call 5 \<lparr>sin_family = 2, sin_port = 10275, sin_addr = 0\<rparr>, Getsockname_call 5, Getrandom_call 8,
     Shm_create_call ''/out'', Ftruncate_call 3 320, Mmap_call 3 320] (rx_system u)"

lemmas system_defs = scripted_def a_reply_def called_def Let_def os_constants

lemma tx_initialized: "sender_initialize demo_tx_config tx_system = Some (Inr (tx_sender, demo_segment), tx_started)"
proof -
  have v: "is_shm_name_valid ''/lle''" "c_str ''/lle'' = ''/lle''" "c_str ''10.0.0.1'' = ''10.0.0.1''"
    "htons 9000 = 10275" by code_simp+
  show ?thesis
    by (simp add: sender_initialize_def sender_prepare_def demo_config_ok)
      (simp add: demo_tx_config_def ipv4_def tx_system_def tx_started_def tx_sender_def system_defs attach_shm_def
        make_segment_def open_sender_def demo_attached(2) nonzero_random_step tries_again_def v upt_rec)
qed

lemma rx_initialized:
  "receiver_initialize demo_rx_config (rx_system u) = Some (Inr (rx_receiver, rx_segment), rx_started u)"
proof -
  have v: "is_shm_name_valid ''/out''" "c_str ''/out'' = ''/out''" "htons 9000 = 10275"
    "\<not> bad_receiver_config demo_rx_config" "required_bytes demo_config = Inr 320" by code_simp+
  have a: "addressable (replicate 320 0)" by (simp add: addressable_def)
  have i: "initialize_ring 4096 (replicate 320 0) demo_config 7 = (Inr (make_ring rx_segment True), rx_segment)"
    by (simp add: rx_segment_def initialize_ring_eq [OF a] v good_address_def)
  show ?thesis
    by (simp add: receiver_initialize_def receiver_bind_def v)
      (simp add: demo_rx_config_def rx_system_def rx_started_def system_defs bind_address_def receiver_create_def
        create_shm_def make_segment_def nonzero_random_step tries_again_def v i upt_rec rx_receiver_def ntohs_def)
qed

text \<open>Both engines are stopped before their first pass, and destroyed.\<close>

definition tx_run :: sender_world where
  "tx_run = sender_run (start_sender tx_sender demo_segment (make_ring demo_segment True) tx_started)
     [Stop_sender, Sender_pass]"

definition rx_run :: "reply \<Rightarrow> receiver_world" where
  "rx_run u = receiver_run (start_receiver rx_receiver rx_segment (make_ring rx_segment False) (rx_started u))
     [Stop_receiver, Receiver_pass]"

lemma tx_run_end: "\<not> sw_running tx_run" "sw_os tx_run = tx_started"
  "s_udp (sw_sender tx_run) = \<lparr>tx_fd = 4\<rparr>" "s_segment (sw_sender tx_run) = make_segment ''/lle'' 3 4096 320 False"
  by (simp_all add: tx_run_def sender_run_def start_sender_def sender_request_stop_def tx_sender_def make_sender_def)

lemma rx_run_end: "\<not> rw_running (rx_run u)" "rw_os (rx_run u) = rx_started u"
  "r_udp (rw_receiver (rx_run u)) = \<lparr>rx_fd = 5, local_port = 0\<rparr>"
  "r_segment (rw_receiver (rx_run u)) = make_segment ''/out'' 3 4096 320 True"
  by (simp_all add: rx_run_def receiver_run_def start_receiver_def receiver_request_stop_def rx_receiver_def make_receiver_def)

theorem sender_life_is_balanced_witness:
  "held tx_started = {#Descriptor 3, Mapping 4096, Descriptor 4#}
    \<and> held (snd (run_state (destroy_sender_engine (sw_sender tx_run)) (sw_os tx_run))) = {#}"
proof -
  obtain w where d: "run_state (destroy_sender_engine (sw_sender tx_run)) (sw_os tx_run) = ((), w)"
    by (metis (full_types) old.unit.exhaust prod.exhaust)
  have h: "honest_mappings w"
    using d by (simp add: destroy_sender_engine_def destroy_sender_def destroy_segment_def close_shm_def tx_run_end
        make_segment_def tx_started_def tx_system_def system_defs upt_rec)
      (auto simp: honest_mappings_def honest_mapping_def)
  have "held tx_system = {#}" by (simp add: tx_system_def scripted_def held_def)
  moreover have "held tx_started = {#Descriptor 3, Mapping 4096, Descriptor 4#}"
    by (simp add: held_def tx_started_def tx_system_def system_defs upt_rec)
  ultimately show ?thesis
    using sender_life_is_balanced [OF tx_initialized _ h, of tx_sender "snd (move_sender_engine tx_sender)" tx_run
        "make_ring demo_segment True" "[Stop_sender, Sender_pass]"] d destroy_moved_engine(1) [of tx_sender w]
    by (simp add: tx_run_def) (simp add: move_sender_engine_def)
qed

text \<open>The same life with a system that grants the \<open>shm_unlink\<close>, and with one that refuses it.\<close>

definition granted :: reply where
  "granted = a_reply 0 0 []"

definition refused :: reply where
  "refused = (a_reply (-1) 0 [])\<lparr>errno := 13\<rparr>"

definition rx_destroyed :: "reply \<Rightarrow> byte list \<times> os" where
  "rx_destroyed u = run_state (destroy_receiver_engine (rw_memory (rx_run u)) (rw_receiver (rx_run u))) (rw_os (rx_run u))"

lemma rx_destroyed_trace:
  "honest_mappings (snd (rx_destroyed u))"
  "left_behind (rx_system u) (snd (rx_destroyed u)) = (if refused_unlink u then {#Shm_name ''/out''#} else {#})"
proof -
  note defs = rx_destroyed_def destroy_receiver_engine_def destroy_receiver_socket_def destroy_segment_def
    close_shm_def unlink_def segment_error_def rx_run_end make_segment_def rx_started_def rx_system_def
    scripted_def a_reply_def called_def Let_def
  have c: "c_str ''/out'' = ''/out''" by code_simp
  show "honest_mappings (snd (rx_destroyed u))"
    by (simp add: defs upt_rec) (auto simp: honest_mappings_def honest_mapping_def)
  show "left_behind (rx_system u) (snd (rx_destroyed u)) = (if refused_unlink u then {#Shm_name ''/out''#} else {#})"
    by (simp add: defs upt_rec c) (auto simp: left_behind_def c)
qed

theorem receiver_life_is_balanced_witness:
  "held (rx_started refused) = {#Descriptor 5, Descriptor 3, Shm_name ''/out'', Mapping 4096#}
    \<and> held (snd (rx_destroyed granted)) = {#} \<and> held (snd (rx_destroyed refused)) = {#Shm_name ''/out''#}"
proof -
  have "held (snd (rx_destroyed u)) = left_behind (rx_system u) (snd (rx_destroyed u))" for u
  proof -
    obtain m w where d: "rx_destroyed u = (m, w)" by fastforce
    have h: "honest_mappings w" using rx_destroyed_trace(1) [of u] by (simp add: d)
    have "held (rx_system u) = {#}" by (simp add: rx_system_def scripted_def held_def)
    then show ?thesis
      using receiver_life_is_balanced [OF rx_initialized [of u] _ h, of rx_receiver "snd (move_receiver_engine rx_receiver)"
          "rx_run u" "make_ring rx_segment False" "[Stop_receiver, Receiver_pass]" m] d
        destroy_moved_engine(2) [of m rx_receiver w]
      by (simp add: rx_run_def rx_destroyed_def) (simp add: move_receiver_engine_def)
  qed
  moreover have "held (rx_started refused) = {#Descriptor 5, Descriptor 3, Shm_name ''/out'', Mapping 4096#}"
    by (simp add: held_def rx_started_def rx_system_def system_defs upt_rec)
  ultimately show ?thesis
    by (simp add: rx_destroyed_trace(2) refused_unlink_def granted_def refused_def a_reply_def ENOENT_def)
qed

theorem initialization_returns_witness:
  "(\<exists>r w'. sender_initialize demo_tx_config tx_system = Some (r, w'))
    \<and> (\<exists>r w'. receiver_initialize demo_rx_config tx_system = Some (r, w'))"
proof -
  have *: "\<not> tries_again b (replies tx_system (i + 6))" if "b \<noteq> 0" for i b
    using that by (simp add: tx_system_def system_defs tries_again_def)
  have "\<exists>k. \<not> tries_again 4 (replies tx_system (i + k))" "\<exists>k. \<not> tries_again 8 (replies tx_system (i + k))" for i
    by (rule exI [of _ 6], rule *, simp)+
  then show ?thesis by (intro initialization_returns) blast+
qed

theorem initialized_engines_are_ready_witness:
  "s_session_id tx_sender = 9 \<and> map (\<lambda>d. ntohs (sin_port (native d))) (s_destinations tx_sender) = [9000]
    \<and> seg_owner (r_segment rx_receiver)"
proof -
  have h: "honest_mappings tx_started" "honest_mappings (rx_started granted)"
    by (simp_all add: honest_mappings_def honest_mapping_def tx_started_def tx_system_def rx_started_def rx_system_def system_defs upt_rec)
  have "s_session_id tx_sender = 9" by (simp add: tx_sender_def make_sender_def)
  then show ?thesis
    using initialized_engines_are_ready [OF tx_initialized h(1) rx_initialized h(2)]
    by (simp add: demo_tx_config_def)
qed

end
