(* ===== verification/Struct_Layout.thy ===== *)
theory Struct_Layout
  imports Ring_Layout
begin

text \<open>
  The structs of include/shm/ring_layout.hpp as the compiler lays them out, and the static assertions
  on them and on the wire constants of include/lle/protocol/types.hpp. Ring_Layout reads and writes
  the segment at fixed offsets; here these offsets come from the struct definitions by the layout rule of standard-layout types: every member at the next
  multiple of its alignment, the size rounded up to the alignment of the struct. An integer and a
  lock-free \<open>std::atomic\<close> of it have their size as alignment on the 64-bit little-endian hosts that
  the header asserts; a \<open>std::array\<close> is laid out as its elements.
\<close>

section \<open>The layout rule\<close>

datatype cpp_type = Plain nat | Array nat cpp_type | Struct nat members
and members = End | Member string cpp_type members

text \<open>\<open>Struct a\<close> is declared with \<open>alignas(a)\<close>; 1 stands for no such declaration.\<close>

fun align_of :: "cpp_type \<Rightarrow> nat" and members_align :: "members \<Rightarrow> nat" where
  "align_of (Plain n) = n"
| "align_of (Array k t) = align_of t"
| "align_of (Struct a ms) = max a (members_align ms)"
| "members_align End = 1"
| "members_align (Member name t ms) = max (align_of t) (members_align ms)"

fun size_of :: "cpp_type \<Rightarrow> nat" and members_end :: "nat \<Rightarrow> members \<Rightarrow> nat" where
  "size_of (Plain n) = n"
| "size_of (Array k t) = k * size_of t"
| "size_of (Struct a ms) = round_up (members_end 0 ms) (align_of (Struct a ms))"
| "members_end i End = i"
| "members_end i (Member name t ms) = members_end (round_up i (align_of t) + size_of t) ms"

fun member_at :: "nat \<Rightarrow> members \<Rightarrow> string \<Rightarrow> (nat \<times> cpp_type) option" where
  "member_at i End f = None"
| "member_at i (Member name t ms) f =
    (if name = f then Some (round_up i (align_of t), t)
     else member_at (round_up i (align_of t) + size_of t) ms f)"

definition member_of :: "cpp_type \<Rightarrow> string \<Rightarrow> (nat \<times> cpp_type) option" where
  "member_of t f = (case t of Struct a ms \<Rightarrow> member_at 0 ms f | _ \<Rightarrow> None)"

definition offset_of :: "cpp_type \<Rightarrow> string \<Rightarrow> nat option" where
  "offset_of t f = map_option fst (member_of t f)"

text \<open>Alignments that the rule is meant for: no alignment is zero.\<close>

fun aligned :: "cpp_type \<Rightarrow> bool" and members_aligned :: "members \<Rightarrow> bool" where
  "aligned (Plain n) \<longleftrightarrow> 0 < n"
| "aligned (Array k t) \<longleftrightarrow> aligned t"
| "aligned (Struct a ms) \<longleftrightarrow> members_aligned ms"
| "members_aligned End \<longleftrightarrow> True"
| "members_aligned (Member name t ms) \<longleftrightarrow> aligned t \<and> members_aligned ms"

lemma align_of_pos: "aligned t \<Longrightarrow> 0 < align_of t" "0 < members_align ms"
  by (induction t and ms) auto

lemma members_end_ge: "0 \<le> align_of t" "members_aligned ms \<Longrightarrow> i \<le> members_end i ms"
proof (induction t and ms arbitrary: and i)
  case (Member name t ms)
  then have "i \<le> round_up i (align_of t)" by (intro round_up_ge) (simp add: align_of_pos)
  also have "round_up i (align_of t) \<le> members_end i (Member name t ms)"
    using Member.IH(2) [of "round_up i (align_of t) + size_of t"] Member.prems by simp
  finally show ?case .
qed simp_all

text \<open>A member starts behind what precedes it, aligned, and ends inside the struct.\<close>

lemma member_at_inside:
  "members_aligned ms \<Longrightarrow> member_at i ms f = Some (off, t) \<Longrightarrow>
    i \<le> off \<and> align_of t dvd off \<and> off + size_of t \<le> members_end i ms"
proof (induction i ms f rule: member_at.induct)
  case (2 i name u ms f)
  let ?i = "round_up i (align_of u)"
  have i: "i \<le> ?i" "align_of u dvd ?i" using 2(2) by (simp_all add: align_of_pos round_up_ge round_up_dvd)
  show ?case
  proof (cases "name = f")
    case True
    then show ?thesis using 2(2,3) i members_end_ge(2) [of ms "?i + size_of u"] by auto
  next
    case False
    then show ?thesis using 2 i by fastforce
  qed
qed simp

text \<open>Two members do not overlap.\<close>

lemma members_disjoint:
  "members_aligned ms \<Longrightarrow> member_at i ms f = Some (off, t) \<Longrightarrow> member_at i ms g = Some (off', t') \<Longrightarrow> f \<noteq> g \<Longrightarrow>
    off + size_of t \<le> off' \<or> off' + size_of t' \<le> off"
proof (induction i ms f rule: member_at.induct)
  case (2 i name u ms f)
  let ?j = "round_up i (align_of u) + size_of u"
  consider "name = f" | "name = g" "name \<noteq> f" | "name \<noteq> f" "name \<noteq> g" by blast
  then show ?case
  proof cases
    case 1
    then have "member_at ?j ms g = Some (off', t')" using 2(4,5) by simp
    from member_at_inside [OF _ this] show ?thesis using 1 2(2,3) by auto
  next
    case 2
    then have "member_at ?j ms f = Some (off, t)" using "2.prems"(2) by simp
    from member_at_inside [OF _ this] show ?thesis using 2 "2.prems"(1,3) by auto
  next
    case 3
    then show ?thesis using 2 by simp
  qed
qed simp

lemma members_of_struct:
  assumes "aligned t" and "member_of t f = Some (i, u)" and "member_of t g = Some (j, v)" and "f \<noteq> g"
  shows "i + size_of u \<le> size_of t \<and> align_of u dvd i \<and> (i + size_of u \<le> j \<or> j + size_of v \<le> i)"
proof (cases t)
  case (Struct a ms)
  then have m: "members_aligned ms" "member_at 0 ms f = Some (i, u)" "member_at 0 ms g = Some (j, v)"
    using assms(1-3) by (simp_all add: member_of_def)
  have "members_end 0 ms \<le> size_of t"
    using round_up_ge [OF align_of_pos(1) [OF assms(1)]] by (simp add: Struct)
  then show ?thesis
    using member_at_inside [OF m(1,2)] members_disjoint [OF m assms(4)] by auto
qed (use assms(2) in \<open>simp_all add: member_of_def\<close>)

section \<open>The structs of the ring\<close>

abbreviation uint16 :: cpp_type where "uint16 \<equiv> Plain 2"
abbreviation uint32 :: cpp_type where "uint32 \<equiv> Plain 4"
abbreviation uint64 :: cpp_type where "uint64 \<equiv> Plain 8"
abbreviation bytes_of :: "nat \<Rightarrow> cpp_type" where "bytes_of n \<equiv> Array n (Plain 1)"

definition RingPreamble :: cpp_type where
  "RingPreamble = Struct (unat ring_cache_line_bytes)
    (Member ''magic'' (bytes_of 4)
    (Member ''layout_version'' uint16
    (Member ''header_bytes'' uint16
    (Member ''segment_bytes'' uint64
    (Member ''slot_count'' uint32
    (Member ''slot_stride'' uint32
    (Member ''slot_payload_capacity'' uint32
    (Member ''reserved'' uint32
    (Member ''instance_id'' uint64
    (Member ''state'' uint32
    (Member ''reserved_bytes'' (bytes_of 20) End)))))))))))"

definition RingCursor :: cpp_type where
  "RingCursor = Struct (unat ring_cache_line_bytes)
    (Member ''position'' uint64
    (Member ''reserved_bytes'' (bytes_of 56) End))"

definition RingHeader :: cpp_type where
  "RingHeader = Struct (unat ring_cache_line_bytes)
    (Member ''preamble'' RingPreamble
    (Member ''producer'' RingCursor
    (Member ''consumer'' RingCursor End)))"

definition RingSlotHeader :: cpp_type where
  "RingSlotHeader = Struct 1
    (Member ''event_sequence'' uint64
    (Member ''source_timestamp_ns'' uint64
    (Member ''stream_id'' uint32
    (Member ''payload_length'' uint32
    (Member ''reserved'' (Array 2 uint32) End)))))"

lemmas ring_structs = RingPreamble_def RingCursor_def RingHeader_def RingSlotHeader_def

text \<open>A handle (include/shm/spsc_ring.hpp): two pointers, the copied geometry, the cached positions.\<close>

definition ring_handle :: cpp_type where
  "ring_handle = Struct (unat ring_cache_line_bytes)
    (Member ''header_'' uint64
    (Member ''slots_'' uint64
    (Member ''slot_count_'' uint32
    (Member ''slot_stride_'' uint32
    (Member ''slot_payload_capacity_'' uint32
    (Member ''cached_read_position_'' uint64
    (Member ''cached_write_position_'' uint64
    (Member ''acquired_position_'' uint64
    (Member ''acquired_'' (Plain 1)
    (Member ''initializer_'' (Plain 1) End))))))))))"

text \<open>The assertions of the header on sizes, alignments and offsets, one by one.\<close>

definition ring_static_asserts :: bool where
  "ring_static_asserts \<longleftrightarrow>
     size_of RingPreamble = 64 \<and> align_of RingPreamble = 64
     \<and> offset_of RingPreamble ''layout_version'' = Some 4
     \<and> offset_of RingPreamble ''header_bytes'' = Some 6
     \<and> offset_of RingPreamble ''segment_bytes'' = Some 8
     \<and> offset_of RingPreamble ''slot_count'' = Some 16
     \<and> offset_of RingPreamble ''slot_stride'' = Some 20
     \<and> offset_of RingPreamble ''slot_payload_capacity'' = Some 24
     \<and> offset_of RingPreamble ''reserved'' = Some 28
     \<and> offset_of RingPreamble ''instance_id'' = Some 32
     \<and> offset_of RingPreamble ''state'' = Some 40
     \<and> offset_of RingPreamble ''reserved_bytes'' = Some 44
     \<and> size_of RingCursor = 64 \<and> align_of RingCursor = 64
     \<and> size_of RingHeader = unat ring_header_bytes
     \<and> unat ring_memory_alignment mod align_of RingHeader = 0
     \<and> offset_of RingHeader ''producer'' = Some 64
     \<and> offset_of RingHeader ''consumer'' = Some 128
     \<and> size_of RingSlotHeader = unat ring_slot_metadata_bytes
     \<and> offset_of RingSlotHeader ''source_timestamp_ns'' = Some 8
     \<and> offset_of RingSlotHeader ''stream_id'' = Some 16
     \<and> offset_of RingSlotHeader ''payload_length'' = Some 20
     \<and> offset_of RingSlotHeader ''reserved'' = Some 24"

definition handle_static_asserts :: bool where
  "handle_static_asserts \<longleftrightarrow> align_of ring_handle = unat ring_cache_line_bytes
     \<and> size_of ring_handle mod unat ring_cache_line_bytes = 0"

definition wire_static_asserts :: bool where
  "wire_static_asserts \<longleftrightarrow> kDataPacketHeaderBytes + kDataLevelBytes = kDataFixedBytes
     \<and> kDataFixedBytes + kEventFrameHeaderBytes + 2 = kMinDataPacketBytes
     \<and> kDataFixedBytes + kEventFrameHeaderBytes + kMaxSingleEventPayloadBytes = kMaxPacketBytes"

text \<open>Where a member of a struct lies when the struct lies at \<open>base\<close>.\<close>

definition member_offset :: "nat \<Rightarrow> cpp_type \<Rightarrow> string \<Rightarrow> nat" where
  "member_offset base t f = (case offset_of t f of Some i \<Rightarrow> base + i | None \<Rightarrow> base + size_of t)"

lemma ring_aligned: "t \<in> {RingPreamble, RingCursor, RingHeader, RingSlotHeader, ring_handle} \<Longrightarrow> aligned t"
  by (auto simp: ring_structs ring_handle_def)

lemma ring_offsets:
  "offset_of RingPreamble ''magic'' = Some 0" "offset_of RingPreamble ''layout_version'' = Some 4"
  "offset_of RingPreamble ''header_bytes'' = Some 6" "offset_of RingPreamble ''segment_bytes'' = Some 8"
  "offset_of RingPreamble ''slot_count'' = Some 16" "offset_of RingPreamble ''slot_stride'' = Some 20"
  "offset_of RingPreamble ''slot_payload_capacity'' = Some 24" "offset_of RingPreamble ''reserved'' = Some 28"
  "offset_of RingPreamble ''instance_id'' = Some 32" "offset_of RingPreamble ''state'' = Some 40"
  "offset_of RingPreamble ''reserved_bytes'' = Some 44"
  "offset_of RingCursor ''position'' = Some 0" "offset_of RingCursor ''reserved_bytes'' = Some 8"
  "offset_of RingHeader ''preamble'' = Some 0" "offset_of RingHeader ''producer'' = Some 64"
  "offset_of RingHeader ''consumer'' = Some 128"
  "offset_of RingSlotHeader ''event_sequence'' = Some 0"
  "offset_of RingSlotHeader ''source_timestamp_ns'' = Some 8" "offset_of RingSlotHeader ''stream_id'' = Some 16"
  "offset_of RingSlotHeader ''payload_length'' = Some 20" "offset_of RingSlotHeader ''reserved'' = Some 24"
  by code_simp+

lemma asserts_hold: "ring_static_asserts" "handle_static_asserts" "wire_static_asserts"
  by code_simp+

text \<open>
  The layouts are as asserted: every static assertion on a size, an alignment or an offset holds,
  for the structs of the segment, the handles and the wire constants; each field that the ring reads or writes is read
  at the offset and the width of its member; and the members of every struct are aligned, lie inside
  it and do not overlap.
\<close>

theorem layouts_are_as_asserted:
  "ring_static_asserts \<and> handle_static_asserts \<and> wire_static_asserts
    \<and> (let fld = member_offset (member_offset 0 RingHeader ''preamble'') RingPreamble
       in pre_magic m = subspan m (fld ''magic'') 4
        \<and> pre_layout_version m = read_u16 m (fld ''layout_version'')
        \<and> pre_header_bytes m = read_u16 m (fld ''header_bytes'')
        \<and> pre_segment_bytes m = read_u64 m (fld ''segment_bytes'')
        \<and> pre_slot_count m = read_u32 m (fld ''slot_count'')
        \<and> pre_slot_stride m = read_u32 m (fld ''slot_stride'')
        \<and> pre_slot_payload_capacity m = read_u32 m (fld ''slot_payload_capacity'')
        \<and> pre_reserved m = read_u32 m (fld ''reserved'')
        \<and> pre_instance_id m = read_u64 m (fld ''instance_id'') \<and> pre_state m = read_u32 m (fld ''state'')
        \<and> pre_reserved_bytes m = subspan m (fld ''reserved_bytes'') 20)
    \<and> (let fld = member_offset (member_offset 0 RingHeader ''producer'') RingCursor
       in producer_position m = read_u64 m (fld ''position'')
        \<and> producer_reserved m = subspan m (fld ''reserved_bytes'') 56)
    \<and> (let fld = member_offset (member_offset 0 RingHeader ''consumer'') RingCursor
       in consumer_position m = read_u64 m (fld ''position'')
        \<and> consumer_reserved m = subspan m (fld ''reserved_bytes'') 56)
    \<and> (let fld = member_offset s RingSlotHeader
       in slot_event_sequence m s = read_u64 m (fld ''event_sequence'')
        \<and> slot_source_timestamp_ns m s = read_u64 m (fld ''source_timestamp_ns'')
        \<and> slot_stream_id m s = read_u32 m (fld ''stream_id'')
        \<and> slot_payload_length m s = read_u32 m (fld ''payload_length'')
        \<and> slot_reserved0 m s = read_u32 m (fld ''reserved'')
        \<and> slot_reserved1 m s = read_u32 m (fld ''reserved'' + size_of uint32))
    \<and> (\<forall>t \<in> {RingPreamble, RingCursor, RingHeader, RingSlotHeader, ring_handle}. \<forall>f g i j u v.
        member_of t f = Some (i, u) \<and> member_of t g = Some (j, v) \<and> f \<noteq> g \<longrightarrow>
        i + size_of u \<le> size_of t \<and> align_of u dvd i \<and> (i + size_of u \<le> j \<or> j + size_of v \<le> i))"
proof (intro conjI, (rule asserts_hold)+)
  show "\<forall>t \<in> {RingPreamble, RingCursor, RingHeader, RingSlotHeader, ring_handle}. \<forall>f g i j u v.
        member_of t f = Some (i, u) \<and> member_of t g = Some (j, v) \<and> f \<noteq> g \<longrightarrow>
        i + size_of u \<le> size_of t \<and> align_of u dvd i \<and> (i + size_of u \<le> j \<or> j + size_of v \<le> i)"
    using members_of_struct [OF ring_aligned] by meson
qed (simp_all add: member_offset_def ring_offsets preamble_defs cursor_defs slot_defs add.commute)

theorem layouts_are_as_asserted_witness:
  "member_of RingPreamble ''state'' = Some (40, uint32) \<and> member_of RingPreamble ''instance_id'' = Some (32, uint64)
    \<and> (32 + size_of uint64 \<le> 40 \<or> 40 + size_of uint32 \<le> 32)"
proof -
  have m: "member_of RingPreamble ''instance_id'' = Some (32, uint64)" "member_of RingPreamble ''state'' = Some (40, uint32)"
    by code_simp+
  have n: "''instance_id'' \<noteq> ''state''" by simp
  note t = layouts_are_as_asserted [of "[]" 192, THEN conjunct2, THEN conjunct2, THEN conjunct2, THEN conjunct2,
      THEN conjunct2, THEN conjunct2, THEN conjunct2, THEN bspec, of RingPreamble]
  have "RingPreamble \<in> {RingPreamble, RingCursor, RingHeader, RingSlotHeader, ring_handle}" by simp
  with t m n show ?thesis by blast
qed

end
