(* ===== verification/Udp_Smoke.thy ===== *)
theory Udp_Smoke
  imports Udp_Transport
begin

text \<open>
  The smoke test program (apps/udp_smoke.cpp): it parses a port, sends or receives one datagram
  through the UDP transport and reports what happened. A run of \<open>main\<close> is a computation over the
  system calls that gives the exit code and the two output texts. \<open>strerror\<close> and \<open>inet_ntop\<close> belong
  to the C library and are parameters; \<open>inet_ntop\<close> gives the text or the errno of its failure.
\<close>

section \<open>Numbers as text\<close>

definition is_digit :: "char \<Rightarrow> bool" where
  "is_digit c \<longleftrightarrow> (48 :: nat) \<le> of_char c \<and> (of_char c :: nat) \<le> 57"

definition digit_value :: "char \<Rightarrow> nat" where
  "digit_value c = of_char c - 48"

definition number :: "string \<Rightarrow> nat" where
  "number ds = foldl (\<lambda>n c. 10 * n + digit_value c) 0 ds"

text \<open>What \<open>operator<<\<close> prints for an unsigned integer.\<close>

fun decimal :: "nat \<Rightarrow> string" where
  "decimal n = (if n < 10 then [char_of (48 + n)] else decimal (n div 10) @ [char_of (48 + n mod 10)])"

declare decimal.simps [simp del]

text \<open>
  \<open>std::from_chars\<close> for \<open>int\<close> in base ten: an optional minus sign and the longest run of digits. No
  digit is an invalid argument; a value that \<open>int\<close> cannot hold is out of range. The second part of
  the result is the text behind the match, at the returned pointer.
\<close>

datatype errc = Invalid_argument | Result_out_of_range

definition from_chars :: "string \<Rightarrow> (errc + int) \<times> string" where
  "from_chars s =
    (let negative = (s \<noteq> [] \<and> hd s = CHR ''-'');
         body = (if negative then tl s else s);
         ds = takeWhile is_digit body;
         v = (if negative then - int (number ds) else int (number ds))
     in if ds = [] then (Inl Invalid_argument, s)
        else if v < -2147483648 \<or> v > 2147483647 then (Inl Result_out_of_range, dropWhile is_digit body)
        else (Inr v, dropWhile is_digit body))"

section \<open>The program\<close>

definition buffer_size :: nat where "buffer_size = 1024"
definition max_message_size :: nat where "max_message_size = 256"

text \<open>The exception that \<open>parse_port\<close> throws is its text.\<close>

definition parse_port :: "string \<Rightarrow> string + int" where
  "parse_port text =
    (let (r, rest) = from_chars text
     in case r of
          Inl _ \<Rightarrow> Inl (text @ '' has invalid port number'')
        | Inr port_number \<Rightarrow> if rest \<noteq> [] \<or> port_number < 1 \<or> port_number > 65535
            then Inl (text @ '' has invalid port number'') else Inr port_number)"

record outcome =
  exit_code :: int
  out_text :: string
  err_text :: string

fun error_text :: "UdpErrorCode \<Rightarrow> string" where
  "error_text InvalidAddress = ''invalid IPv4 address''"
| "error_text InvalidPort = ''invalid port''"
| "error_text UdpErrorCode.Socket = ''socket failed''"
| "error_text Bind = ''bind failed''"
| "error_text Poll = ''poll failed''"
| "error_text Timeout = ''timeout exceeded''"
| "error_text Send = ''send failed''"
| "error_text Receive = ''receive failed''"
| "error_text DatagramTooLarge = ''datagram exceeds receive buffer''"

definition print_error :: "(int \<Rightarrow> string) \<Rightarrow> string \<Rightarrow> UdpError \<Rightarrow> string" where
  "print_error strerror what error = what @ '': '' @ error_text (code error)
     @ (if error_number error \<noteq> 0 then '': '' @ strerror (error_number error) else []) @ [CHR 0x0A]"

definition failed :: "string \<Rightarrow> string \<Rightarrow> outcome" where
  "failed out err = \<lparr>exit_code = 1, out_text = out, err_text = err\<rparr>"

definition to_bytes :: "string \<Rightarrow> byte list" where
  "to_bytes s = map (\<lambda>c. word_of_nat (of_char c)) s"

definition to_text :: "byte list \<Rightarrow> string" where
  "to_text bs = map (\<lambda>b. char_of (unat b)) bs"

text \<open>The socket is closed at every return behind its creation.\<close>

definition receive_dm :: "(int \<Rightarrow> string) \<Rightarrow> (u32 \<Rightarrow> int + string) \<Rightarrow> u16 \<Rightarrow> (os, outcome) state" where
  "receive_dm strerror inet_ntop port_number = do {
     u \<leftarrow> bind_port port_number;
     case u of
       Inl error \<Rightarrow> State_Monad.return (failed [] (print_error strerror ''receive'' error))
     | Inr receiver \<Rightarrow> do {
         let out = ''bound to UDP port '' @ decimal (unat (local_port receiver)) @ [CHR 0x0A];
         (datagram, buffer) \<leftarrow> receive receiver (replicate buffer_size 0) 10000;
         _ \<leftarrow> destroy_receiver_socket receiver;
         State_Monad.return (case datagram of
           Inl error \<Rightarrow> failed out (print_error strerror ''receive'' error)
         | Inr d \<Rightarrow>
             (case inet_ntop (sin_addr (datagram_peer d)) of
                Inl e \<Rightarrow> failed out (''inet_ntop: '' @ strerror e @ [CHR 0x0A])
              | Inr sender_ip \<Rightarrow> \<lparr>exit_code = 0, out_text = out
                  @ ''client: received packet ('' @ decimal (unat (datagram_size d)) @ '' bytes) from ''
                  @ sender_ip @ '':'' @ decimal (unat (ntohs (sin_port (datagram_peer d)))) @ [CHR 0x0A, CHR 0x09]
                  @ to_text (subspan buffer 0 (unat (datagram_size d))) @ [CHR 0x0A], err_text = []\<rparr>))
       }
   }"

definition send_dm :: "(int \<Rightarrow> string) \<Rightarrow> u16 \<Rightarrow> string \<Rightarrow> string \<Rightarrow> (os, outcome) state" where
  "send_dm strerror port_number ip message =
    (if length message > max_message_size
       then State_Monad.return (failed [] (''message too large'' @ [CHR 0x0A]))
     else do {
       a \<leftarrow> ipv4 ip port_number;
       case a of
         Inl error \<Rightarrow> State_Monad.return (failed [] (print_error strerror ''send'' error))
       | Inr destination \<Rightarrow> do {
           u \<leftarrow> open_sender;
           case u of
             Inl error \<Rightarrow> State_Monad.return (failed [] (print_error strerror ''send'' error))
           | Inr sender \<Rightarrow> do {
               sent \<leftarrow> send_to sender (to_bytes message) destination;
               _ \<leftarrow> destroy_sender sender;
               State_Monad.return (case sent of
                 Inl error \<Rightarrow> failed [] (print_error strerror ''send'' error)
               | Inr _ \<Rightarrow> \<lparr>exit_code = 0, out_text = ''server: message send to '' @ ip @ '':''
                   @ decimal (unat port_number) @ [CHR 0x0A], err_text = []\<rparr>)
             }
         }
     })"

definition smoke_main :: "(int \<Rightarrow> string) \<Rightarrow> (u32 \<Rightarrow> int + string) \<Rightarrow> string list \<Rightarrow> (os, outcome) state" where
  "smoke_main strerror inet_ntop argv =
    (if length argv < 2
       then State_Monad.return (failed [] (''usage:'' @ [CHR 0x0A] @ ''  lle-udp-smoke receive <port>''
         @ [CHR 0x0A] @ ''  lle-udp-smoke send <port> <ip> <message>'' @ [CHR 0x0A]))
     else
       let mode = argv ! 1
       in if mode = ''receive'' \<and> length argv = 3
            then (case parse_port (argv ! 2) of
                Inl what \<Rightarrow> State_Monad.return (failed [] (what @ [CHR 0x0A]))
              | Inr port_number \<Rightarrow> receive_dm strerror inet_ntop (word_of_int port_number))
          else if mode = ''send'' \<and> length argv = 5
            then (case parse_port (argv ! 2) of
                Inl what \<Rightarrow> State_Monad.return (failed [] (what @ [CHR 0x0A]))
              | Inr port_number \<Rightarrow> send_dm strerror (word_of_int port_number) (argv ! 3) (argv ! 4))
          else State_Monad.return (failed [] (''invalid mode or arguments'' @ [CHR 0x0A])))"

section \<open>Ports\<close>

lemma is_digit_not_minus: "is_digit c \<Longrightarrow> c \<noteq> CHR ''-''"
  by (auto simp: is_digit_def)

lemma parse_port_iff:
  "parse_port text = Inr p \<longleftrightarrow> text \<noteq> [] \<and> list_all is_digit text \<and> p = int (number text) \<and> 1 \<le> p \<and> p \<le> 65535"
proof (cases "text \<noteq> [] \<and> hd text = CHR ''-''")
  case True
  then have "\<not> list_all is_digit text" using is_digit_not_minus by (cases "text") auto
  moreover have "parse_port text \<noteq> Inr p"
    using True by (auto simp: parse_port_def from_chars_def Let_def)
  ultimately show ?thesis by blast
next
  case False
  then have f: "from_chars text = (let ds = takeWhile is_digit text
      in if ds = [] then (Inl Invalid_argument, text)
         else if int (number ds) > 2147483647 then (Inl Result_out_of_range, dropWhile is_digit text)
         else (Inr (int (number ds)), dropWhile is_digit text))"
    by (auto simp: from_chars_def Let_def)
  show ?thesis
  proof (cases "list_all is_digit text")
    case True
    then have t: "takeWhile is_digit text = text" "dropWhile is_digit text = []"
      by (simp_all add: list_all_iff takeWhile_eq_all_conv dropWhile_eq_Nil_conv)
    have "parse_port text = (if text = [] \<or> number text < 1 \<or> number text > 65535
        then Inl (text @ '' has invalid port number'') else Inr (int (number text)))"
      by (auto simp: parse_port_def f t Let_def number_def)
    then show ?thesis using True by auto
  next
    case no: False
    then have "dropWhile is_digit text \<noteq> []" by (simp add: list_all_iff dropWhile_eq_Nil_conv)
    then show ?thesis using no by (auto simp: parse_port_def f Let_def)
  qed
qed

lemma number_snoc: "number (ds @ [c]) = 10 * number ds + digit_value c"
  by (simp add: number_def)

lemma digit_char: "d < 10 \<Longrightarrow> is_digit (char_of (48 + d)) \<and> digit_value (char_of (48 + d :: nat)) = d"
  by (simp add: is_digit_def digit_value_def)

lemma number_decimal: "number (decimal n) = n \<and> decimal n \<noteq> [] \<and> list_all is_digit (decimal n)"
proof (induction n rule: decimal.induct)
  case (1 n)
  show ?case
  proof (cases "n < 10")
    case True
    then show ?thesis using digit_char [of n] by (simp add: number_def decimal.simps [of n])
  next
    case False
    then show ?thesis using 1 digit_char [of "n mod 10"]
      by (subst (1 2 3) decimal.simps) (simp add: number_snoc)
  qed
qed

lemma parse_port_error: "parse_port text = Inl e \<Longrightarrow> e = text @ '' has invalid port number''"
  by (auto simp: parse_port_def Let_def split: prod.splits sum.splits if_splits)

text \<open>
  \<open>parse_port\<close> decides: it accepts exactly the non-empty texts of decimal digits whose value is a
  port from 1 to 65535, leading zeros included, and gives this value: signs, blanks, other characters
  behind the number and values beyond the range of \<open>int\<close> are all refused, with the text of the
  exception. A port that \<open>main\<close> prints is read back, and the cast to 16 bits that follows loses
  nothing.
\<close>

theorem parse_port_decides:
  "parse_port text = (if text \<noteq> [] \<and> list_all is_digit text \<and> 1 \<le> number text \<and> number text \<le> 65535
      then Inr (int (number text)) else Inl (text @ '' has invalid port number''))
    \<and> (parse_port (decimal n) = Inr (int n) \<longleftrightarrow> 1 \<le> n \<and> n \<le> 65535)
    \<and> (case parse_port text of Inl e \<Rightarrow> e = text @ '' has invalid port number'' | Inr p \<Rightarrow> int (unat (word_of_int p :: u16)) = p)"
proof -
  have "parse_port text = (if text \<noteq> [] \<and> list_all is_digit text \<and> 1 \<le> number text \<and> number text \<le> 65535
      then Inr (int (number text)) else Inl (text @ '' has invalid port number''))"
  proof (cases "text \<noteq> [] \<and> list_all is_digit text \<and> 1 \<le> number text \<and> number text \<le> 65535")
    case True
    then have "parse_port text = Inr (int (number text))" by (subst parse_port_iff) simp
    then show ?thesis using True by simp
  next
    case False
    then have "parse_port text \<noteq> Inr p" for p by (auto simp: parse_port_iff)
    then obtain e where "parse_port text = Inl e" by (cases "parse_port text") auto
    then show ?thesis using False parse_port_error by auto
  qed
  moreover have "parse_port (decimal n) = Inr (int n) \<longleftrightarrow> 1 \<le> n \<and> n \<le> 65535"
    using number_decimal [of n] by (auto simp: parse_port_iff)
  moreover have "int (unat (word_of_int p :: u16)) = p" if "parse_port text = Inr p" for p
  proof -
    have "1 \<le> p" "p \<le> 65535" using that by (simp_all add: parse_port_iff)
    then show ?thesis by (simp add: unsigned_of_int take_bit_int_eq_self)
  qed
  moreover have "e = text @ '' has invalid port number''" if "parse_port text = Inl e" for e
    using that by (rule parse_port_error)
  ultimately show ?thesis
    by (simp only: simp_thms split: sum.split) blast
qed

section \<open>Runs of the program\<close>

text \<open>An outcome is a success with an empty error stream or a failure with a message.\<close>

definition reported :: "outcome \<Rightarrow> bool" where
  "reported r \<longleftrightarrow> exit_code r = 0 \<and> err_text r = [] \<or> exit_code r = 1 \<and> err_text r \<noteq> []"

lemma reported_failed: "reported (failed out (print_error se what error))" "e \<noteq> [] \<Longrightarrow> reported (failed out e)"
  by (simp_all add: reported_def failed_def print_error_def)

lemma print_error_text [simp]: "print_error se what error \<noteq> []"
  by (simp add: print_error_def)

text \<open>
  Each mode is a block around its socket: whatever the system answers, the socket is gone at the end
  and the outcome is a reported one.
\<close>

abbreviation leaves_nothing :: "(os, outcome) state \<Rightarrow> bool" where
  "leaves_nothing f \<equiv> moves_under (\<lambda>_. True) {} f {#} (\<lambda>_. {#}) reported"

lemma leaves_nothingD: "leaves_nothing f \<Longrightarrow> run_state f w = (r, w') \<Longrightarrow> held w' = held w \<and> reported r"
  using movesD [of "\<lambda>_. True" "{}" f "{#}" "\<lambda>_. {#}" reported w r w'] by (simp add: list.pred_True)

lemma leaves_nothing_return: "reported r \<Longrightarrow> leaves_nothing (State_Monad.return r)"
  by (rule moves_return) simp_all

lemma leaves_nothing_failed:
  "leaves_nothing (State_Monad.return (failed out (print_error se what error)))"
  "e \<noteq> [] \<Longrightarrow> leaves_nothing (State_Monad.return (failed out e))"
  by (simp_all add: leaves_nothing_return reported_failed)

lemma leaves_nothing_receive_dm: "leaves_nothing (receive_dm se nt p)"
  unfolding receive_dm_def bind_port_def Let_def case_prod_unfold
  by (intro rx_socket.scoped quiet_receive)
    (auto simp: reported_failed reported_def failed_def split: sum.splits)

lemma leaves_nothing_send_dm: "leaves_nothing (send_dm se p ip msg)"
proof (cases "length msg > max_message_size")
  case True
  then show ?thesis by (simp add: send_dm_def leaves_nothing_failed)
next
  case False
  show ?thesis
    unfolding send_dm_def if_not_P [OF False]
  proof (rule moves_bind [OF moves_quiet [OF quiet_ipv4]], goal_cases)
    case (2 a)
    show ?case
    proof (cases a)
      case (Inr d)
      show ?thesis
        unfolding Inr sum.case
        by (intro tx_socket.scoped quiet_send_to)
          (auto simp: reported_failed reported_def failed_def split: sum.splits)
    qed (simp add: leaves_nothing_failed)
  qed (intro grows_intros quiet_grows quiet_send_to)
qed

lemma leaves_nothing_smoke_main: "leaves_nothing (smoke_main se nt argv)"
  unfolding smoke_main_def Let_def
  by (auto simp: leaves_nothing_failed leaves_nothing_receive_dm leaves_nothing_send_dm split: sum.splits)

text \<open>What the calls of the sending mode hand to the network.\<close>

lemma sent_by_calls:
  "run_state (ipv4 ip p) w = (a, w') \<Longrightarrow> sent_datagrams w' = sent_datagrams w"
  "run_state open_sender w = (u, w') \<Longrightarrow> sent_datagrams w' = sent_datagrams w"
  "run_state (destroy_sender s) w = (v, w') \<Longrightarrow> sent_datagrams w' = sent_datagrams w \<and> set (trace w) \<subseteq> set (trace w')"
  by (auto simp: ipv4_def open_sender_def destroy_sender_def sent_datagrams_def split: if_splits)

lemma run_send_dm:
  assumes "run_state (send_dm se p ip msg) w = (r, w')" and "exit_code r = 0"
  obtains d tx x w1 w2 w3 v where "length msg \<le> 256" "run_state (ipv4 ip p) w = (Inr d, w1)"
    "run_state open_sender w1 = (Inr tx, w2)" "run_state (send_to tx (to_bytes msg) d) w2 = (Inr x, w3)"
    "run_state (destroy_sender tx) w3 = (v, w')"
  using assms
  by (auto simp: send_dm_def failed_def max_message_size_def split: if_splits prod.splits sum.splits)

lemma run_send_to_ok:
  assumes "run_state (send_to s d a) w = (Inr x, w')"
  obtains reply where "trace w' = trace w @ [(Sendto_call (tx_fd s) d (native a), reply)]" "0 \<le> ret reply"
    "(word_of_int (ret reply) :: size_t) = span_size d"
  using assms by (auto simp: send_to_def split: if_splits)

text \<open>
  C40. The program leaves no socket behind: whatever its arguments are and whatever the system
  answers, when \<open>main\<close> returns the process holds what it held before, the exit code is 0 or 1, and
  it is 1 exactly when something was written to the standard error stream.
\<close>

theorem smoke_leaves_nothing:
  "case run_state (smoke_main se nt argv) w of (r, w') \<Rightarrow> held w' = held w
    \<and> (exit_code r = 0 \<or> exit_code r = 1) \<and> (exit_code r = 1 \<longleftrightarrow> err_text r \<noteq> [])"
  using leaves_nothingD [OF leaves_nothing_smoke_main, of se nt argv w] by (auto simp: reported_def split: prod.splits)

text \<open>
  What success of the sending mode means: the exit code is 0 only when the message, of at most
  256 characters, went to the given port, which is not 0, in one single \<open>sendto\<close> that took all of
  it; and nothing else was sent.
\<close>

theorem smoke_send_reports:
  assumes "run_state (send_dm se p ip message) w = (r, w')" and "exit_code r = 0"
  shows "\<exists>fd a reply. length message \<le> 256 \<and> p \<noteq> 0 \<and> ntohs (sin_port a) = p
      \<and> sent_datagrams w' = sent_datagrams w @ [(to_bytes message, a)]
      \<and> (Sendto_call fd (to_bytes message) a, reply) \<in> set (trace w') \<and> 0 \<le> ret reply
      \<and> (word_of_int (ret reply) :: size_t) = span_size (to_bytes message)"
proof -
  obtain d tx x w1 w2 w3 v where r: "length message \<le> 256" "run_state (ipv4 ip p) w = (Inr d, w1)"
    "run_state open_sender w1 = (Inr tx, w2)" "run_state (send_to tx (to_bytes message) d) w2 = (Inr x, w3)"
    "run_state (destroy_sender tx) w3 = (v, w')"
    by (rule run_send_dm [OF assms])
  obtain reply where t: "trace w3 = trace w2 @ [(Sendto_call (tx_fd tx) (to_bytes message) (native d), reply)]"
    "0 \<le> ret reply" "(word_of_int (ret reply) :: size_t) = span_size (to_bytes message)"
    by (rule run_send_to_ok [OF r(4)])
  have "sent_datagrams w3 = sent_datagrams w2 @ [(to_bytes message, native d)]"
    by (simp add: sent_datagrams_def t(1))
  then have "sent_datagrams w' = sent_datagrams w @ [(to_bytes message, native d)]"
    using sent_by_calls(1) [OF r(2)] sent_by_calls(2) [OF r(3)] sent_by_calls(3) [OF r(5)] by simp
  moreover have "(Sendto_call (tx_fd tx) (to_bytes message) (native d), reply) \<in> set (trace w')"
    using sent_by_calls(3) [OF r(5)] t(1) by auto
  ultimately show ?thesis using r(1) t(2,3) run_ipv4 [OF r(2)] by blast
qed

theorem smoke_send_reports_witness:
  "\<exists>r w' a. run_state (send_dm (\<lambda>_. []) 9000 ''10.0.0.1'' ''hello'')
      \<lparr>replies = (\<lambda>i. \<lparr>ret = (if i = 2 then 5 else 1), errno = 0, answer = 0, contents = [],
         peer = \<lparr>sin_family = 2, sin_port = 0, sin_addr = 0\<rparr>\<rparr>), trace = []\<rparr> = (r, w')
    \<and> out_text r = ''server: message send to 10.0.0.1:9000'' @ [CHR 0x0A]
    \<and> sent_datagrams w' = [([104, 101, 108, 108, 111], a)] \<and> ntohs (sin_port a) = 9000"
proof -
  define w :: os where "w = \<lparr>replies = (\<lambda>i. \<lparr>ret = (if i = 2 then 5 else 1), errno = 0, answer = 0, contents = [],
         peer = \<lparr>sin_family = 2, sin_port = 0, sin_addr = 0\<rparr>\<rparr>), trace = []\<rparr>"
  have b: "to_bytes ''hello'' = [104, 101, 108, 108, 111]" by code_simp
  have d: "decimal 9000 = ''9000''" by (simp add: decimal.simps [of 9000] decimal.simps [of 900]
      decimal.simps [of 90] decimal.simps [of 9] char_of_def bit_0)
  obtain r w' where run: "run_state (send_dm (\<lambda>_. []) 9000 ''10.0.0.1'' ''hello'') w = (r, w')" by fastforce
  have "fst (run_state (send_dm (\<lambda>_. []) 9000 ''10.0.0.1'' ''hello'') w) = \<lparr>exit_code = 0,
      out_text = ''server: message send to 10.0.0.1:9000'' @ [CHR 0x0A], err_text = []\<rparr>"
    by (simp add: send_dm_def w_def ipv4_def open_sender_def send_to_def destroy_sender_def max_message_size_def
        b span_size_def d)
  then have r: "exit_code r = 0" "out_text r = ''server: message send to 10.0.0.1:9000'' @ [CHR 0x0A]"
    unfolding run by simp_all
  have "sent_datagrams w = []" by (simp add: w_def sent_datagrams_def)
  then have "\<exists>a. sent_datagrams w' = [([104, 101, 108, 108, 111], a)] \<and> ntohs (sin_port a) = 9000"
    using smoke_send_reports [OF run r(1)] unfolding b by auto
  then show ?thesis unfolding w_def [symmetric] using run r(2) by blast
qed

end
