(* ===== verification/Spec2Isabelle.thy ===== *)
theory Spec2Isabelle
  imports Pass_Refinement Ring_Races Codec Lifecycle_Properties Struct_Layout Udp_Smoke
begin

text \<open>
  A verification of the low-latency event engine: an application publishes events on a ring in shared
  memory, a sender process takes them from the ring and sends each as one UDP datagram to every
  configured receiver, a receiver process decodes the datagrams, drops what is old, repeated or of
  another session, and publishes the events on a second ring, which a consumer reads.

  PARTS AND THEORIES (paths under src/; a record stands for a class or struct, and a definition has
  the name of the function it models unless HOL has that name already).

    \<^item> Protocol codec: Byte_IO (src/protocol/byte_io.hpp), Alignment (include/lle/detail/alignment.hpp),
      Protocol_Types (include/lle/event.hpp, include/lle/protocol/types.hpp, and the layout of a packet as
      a list of bytes), Encoder and Decoder (src/protocol/encoder.cpp, decoder.cpp), Codec (round trips).
    \<^item> Gap detector: Gap_Detector (include/lle/gap_detector.hpp, src/reliability/gap_detector.cpp).
    \<^item> SPSC ring: Ring_Layout (include/shm/ring_layout.hpp: one reader and writer per field of the mapped
      structures), Struct_Layout (the structs member by member, the layout rule that gives the offsets of
      the fields, and the static assertions), Spsc_Ring (include/shm/spsc_ring.hpp, src/shm/spsc_ring.cpp: \<open>required_bytes\<close>,
      \<open>initialize_ring\<close>, \<open>attach_ring\<close>, \<open>close_publication\<close>, \<open>try_publish\<close>, \<open>try_acquire\<close>, \<open>release\<close>; the
      segment is a list of bytes, the handle a record without its pointers), Ring_Slots, Ring_Queue,
      Ring_Setup and Ring_System (proofs), Event_Queue (the interface of a queue as a locale, which
      Ring_System interprets on the ring), Ring_Witnesses (a concrete ring).
    \<^item> The ring between two threads: Ring_Steps (the same functions as programs with one step per load or
      store, and the abstract queue), Ring_Concurrency (the invariant of all interleavings),
      Concurrent_Ring (the properties), Ring_Calls (a call that is not interfered with is the function of
      Spsc_Ring), Ring_Calls_Witnesses, Ring_Clients (the ring as a program on one of its sides sees it),
      Ring_Lifetime (what the header tells a process that attaches later).
    \<^item> The memory orders of the ring: Happens_Before (executions as lists of atomic and plain accesses,
      happens-before and data races, as C++ defines them), Ring_Races (the access of every step, executions
      from the construction of the segment on, and the proof that they have no data race).
    \<^item> System calls: Os_Calls (the state of the system: a stream of replies and the trace of the calls made,
      and the descriptors, mappings and names that a trace leaves held), Resources (what computations do
      with them, and as locales the interfaces of an object that owns resources, of one that is made
      and destroyed in a block, and of an engine that lives among other threads; they are interpreted
      on the segment, the two sockets and the two engines).
    \<^item> Shared memory segment: Shm_Segment (include/shm/segment.hpp, src/shm/segment.cpp).
    \<^item> UDP transport: Udp_Transport (include/lle/transport, src/transport).
    \<^item> Engines: Engine_Types (include/lle/config.hpp, stats.hpp, init_error.hpp and the random numbers of
      both \<open>initialize\<close> functions), Sender_Engine (include/lle/sender.hpp, src/sender/sender.cpp) and
      Receiver_Engine (include/lle/receiver.hpp, src/receiver/receiver.cpp); Sender_Run, Receiver_Run,
      Sender_Properties, Receiver_Properties (the loops), Engine_Lifecycle, Receiver_Lifecycle,
      Lifecycle_Properties (from \<open>initialize\<close> over a move to the destructors), End_To_End, Complete_Delivery
      and this theory (both engines and the network between them).
    \<^item> The engines among other threads: Sender_Threads and Receiver_Threads (the loops of \<open>run()\<close> as
      programs on the ring of Ring_Steps: \<open>sender_move\<close>, \<open>receiver_move\<close>), Concurrent_Sender and
      Concurrent_Receiver (their properties), Concurrent_System (all threads at once), Pass_Refinement (each
      pass of Sender_Engine and Receiver_Engine is a run of these programs).
    \<^item> The smoke test program: Udp_Smoke (apps/udp_smoke.cpp).

  Prelude holds the integer types, byte sequences and the lemma collections that all share.

  WHAT IS SHOWN.

    \<^item> Data: the encoder writes exactly the documented layout or nothing, the decoder accepts exactly that
      layout, and the two invert each other; every error has its condition. The gap detector partitions
      the sequences up to the last one into accepted and missing ones.
    \<^item> The ring: a call is decided on every branch; a created and attached ring is a bounded queue, first
      in first out, for any sequence of calls; a held view is not overwritten; a closed ring loses
      nothing; no content of the segment, however corrupt, leads a call outside it. With the loads and
      stores of the two threads interleaved and acquire loads that may be stale, the ring still
      refines a bounded closable queue, slots are never accessed by both threads, calls return within
      a fixed number of their own steps, and every answer is right. Meanwhile the header stays valid:
      its state goes forward only, its cursors count the events, and a process can attach at any moment.
      No execution has a data race: the release stores and acquire loads of the cursors order every two
      conflicting accesses, and the state word orders the construction before everything else.
    \<^item> Resources: every operation on segments and sockets, every error path of both \<open>initialize\<close> functions
      and the whole life of an engine leave the process holding what it held, with one exception that is
      accounted for exactly: where the system refuses a \<open>shm_unlink\<close>, whose result the cleanup of
      \<open>create_shm\<close>, \<open>Receiver::initialize\<close> and \<open>~Receiver\<close> ignore, the name of the ring stays (\<open>left_behind\<close>).
    \<^item> The loops: what is sent is what was taken from the ring, numbered from one; what is delivered is
      what the detector accepted; the counters count what became of each event and of each send; the sender ends when its ring is
      closed and drained, the receiver closes its ring exactly when it returns.
    \<^item> End to end: if the network delivers only datagrams that the sender sent, each any number of times,
      in any order or never, consumed events are a subsequence of published ones (nothing is said of
      forged datagrams, as the code authenticates none); if it loses and reorders nothing and the egress ring refuses nothing, none is missing.
    \<^item> Under concurrency: the last two groups hold again when the loops and their partners are interleaved
      load by load. The loops are never stuck, wherever the partner stopped; after a request to stop
      they end within a fixed number of their own steps (\<open>tx_work\<close>, \<open>rx_work\<close>); a sender that ends on
      its own has sent everything that was published, and a client that is told Closed has seen
      everything. Where the partner does not interfere, a loop does what the model with one action per
      pass says, whose results are thus results of the program with single loads and stores.
    \<^item> Layout: the static assertions hold, and the fields of the segment lie where the compiler puts the
      members of the structs.

  BOUNDS AND FUEL. Integers have the width of the code and wrap: the counters are known modulo 2^64, and
  cursors and packet sequences stop at the values at which the code stops. \<open>nonzero_random\<close> is a partial
  function, as its loop ends only if the system delivers; \<open>initialization_returns\<close> says when it does.
  The loops of \<open>run()\<close> are sequences of passes, one action each, among the actions of other threads;
  no fuel is used elsewhere, as all other loops run over lists. Payloads that calls are given are
  shorter than 2^64 bytes (\<open>addressable\<close>), as a \<open>std::span\<close> is.

  ENVIRONMENT. Replies of the system are arbitrary, among them all errors and short counts, but for two
  hypotheses: \<open>recvmsg\<close> stores as many bytes as it reports and at most those the buffer has
  (\<open>honest_recvmsg\<close>); \<open>mmap\<close> never succeeds with the null address and \<open>munmap\<close> of a mapping succeeds
  (\<open>honest_mappings\<close>). Allocation does not fail. In Ring_System,
  Sender_Engine and Receiver_Engine a call on a ring is one step; Ring_Steps, Sender_Threads and
  Receiver_Threads split it into its loads and stores, where an acquire load returns any value between
  the one last seen and the present one. Between two calls a loop of Sender_Threads or Receiver_Threads
  makes one step for what touches no shared memory; \<open>encode_data\<close> reads the payload of the held event in
  one step, as no thread writes it while it is held. The owner closes the ring
  between two calls of the producer and is synchronised with it, as docs/memory-model.md asks.

  NOT MODELLED. Executions of C++ in which a plain load does not read the last store: Ring_Races shows
  that the ring has no data race, and without one there are none of these. Between the engines and the stop
  request or a reader of the counters only relaxed atomics are shared, which publish nothing else; the
  counters are read by one thread here. The
  thread of a NACK target, the reorder buffer and the retransmit window do not exist in the code yet
  (src/reliability/reorder_buffer.cpp and retransmit_window.cpp are stubs, as are src/platform/affinity.cpp
  and clock.cpp); apps/lle-sender and apps/lle-receiver print a version line; benchmarks/ measure time and
  nothing depends on them. Declarations in headers have no behaviour beyond the definitions modelled.
\<close>

section \<open>From publisher to consumer\<close>

text \<open>
  C17. End to end: let an application publish on the ingress ring of a sender, and a consumer read
  the egress ring of a receiver, with any interleaving on either side and any behaviour of the
  systems. If every datagram the receiver gets is one that this sender sent, each any number of
  times, in any order, or never, then the events the consumer reads are a subsequence of the events
  the application published: every one is delivered at most once, unaltered, and in order.
\<close>

theorem end_to_end_subsequence:
  assumes "addressable m1" and "initialize_ring a1 m1 ring1 id1 = (Inr app, in_ring)"
    and "attach_ring a2 in_ring = Inr ingress"
    and "s = make_sender config seg1 ingress tx ds sid" and "sid \<noteq> 0" and "\<not> bad_sender_config config"
    and "sent_datagrams os1 = []" and "\<forall>e. App_publish e \<in> set sends \<longrightarrow> addressable (payload e)"
    and "sw = sender_run (start_sender s in_ring app os1) sends"
    and "addressable m2" and "initialize_ring a3 m2 ring2 id2 = (Inr egress, out_ring)"
    and "attach_ring a4 out_ring = Inr client"
    and "r = make_receiver rx_config seg2 egress rx" and "honest_recvmsg os2"
    and "rw = receiver_run (start_receiver r out_ring client os2) receives"
    and "set (rw_datagrams rw) \<subseteq> set (map fst (sent_datagrams (sw_os sw)))"
  shows "subseq (rw_consumed rw) (sw_published sw)"
proof -
  let ?limit = "max_datagram_bytes config"
  note sent = fresh_sender_run [OF assms(1-9)]
  obtain st' cap' where "receiver_inv (unat (cfg_slot_count ring2)) st' cap' (start_receiver r out_ring client os2)"
    using start_receiver_inv(1) [OF assms(10-14)] by blast
  then have ri: "receiver_inv (unat (cfg_slot_count ring2)) st' cap' rw"
    unfolding assms(15) by (rule receiver_inv_run)
  then have small: "\<forall>x \<in> set (rw_datagrams rw). addressable x"
    by (auto simp: receiver_inv_def dest: delivered_small)
  have "subseq (rw_consumed rw) (rw_delivered rw)"
    using ri by (auto simp: receiver_inv_def)
  also have "subseq (rw_delivered rw) (map dd_event (accepted_views (rw_datagrams rw)))"
    using ri unfolding receiver_inv_def by blast
  also have "subseq (map dd_event (accepted_views (rw_datagrams rw))) (filter (sendable ?limit) (sw_handled sw))"
    using accepted_are_transmitted [OF _ assms(5) sent(3) small, of ds] assms(16) by (simp add: sent(2))
  also have "subseq (filter (sendable ?limit) (sw_handled sw)) (sw_handled sw)" by simp
  also have "subseq (sw_handled sw) (sw_published sw)" using sent(1) by auto
  finally show ?thesis .
qed

theorem end_to_end_subsequence_witness:
  "subseq (rw_consumed demo_rx_end) [demo_event 1, demo_event 2]"
proof -
  have nz: "(9 :: u32) \<noteq> 0" by simp
  note s = demo_attached(1) demo_initialized demo_attached(2) demo_sender_def nz demo_config_ok
    demo_sent_nothing demo_actions_ok refl
  have "sent_datagrams (sw_os (sender_run demo_start demo_actions)) =
      transmission 9 60 [demo_destination] [demo_event 1]"
    using fresh_sender_run(2) [OF s, folded demo_start_def] by (simp add: demo_facts demo_limit)
  then have "set (rw_datagrams demo_rx_end) \<subseteq>
      set (map fst (sent_datagrams (sw_os (sender_run demo_start demo_actions))))"
    using demo_sendable
    by (simp add: transmission_def datagrams_for_def demo_packet_def demo_rx_facts)
  from end_to_end_subsequence [OF s demo_rx_attached(1) demo_initialized demo_rx_attached(2)
      demo_receiver_def demo_honest refl, of "[Receiver_pass]", folded demo_start_def demo_rx_start_def
      demo_rx_end_def, OF this]
  show ?thesis by (simp add: demo_facts)
qed

end
